(* ===== verification/Prelude.thy ===== *)
theory Prelude
  imports "HOL-Library.Word"
begin

text \<open>
  Shared vocabulary of the development: bytes and byte slices, the Go error values that the
  sources compare or return, the result of a call that may not return, big-endian integers
  (\<open>encoding/binary\<close>), and the lemma collections of the component theories.

  A call of the sources is modelled by a HOL function whose result is an \<open>option\<close> wherever the
  call may loop or panic: \<^term>\<open>None\<close> means that the call does not return normally (it panics or
  never returns), \<open>Some r\<close> that it returns \<open>r\<close>.  An error returned by the code is a value of
  \<open>err\<close> inside \<open>r\<close>.
\<close>

unbundle bit_operations_syntax


section \<open>Bytes, integers and errors\<close>

type_synonym byte = "8 word"
type_synonym bytes = "byte list"

text \<open>Go's \<open>int64\<close>, read by \<^const>\<open>sint\<close>.\<close>

type_synonym i64 = "64 word"

text \<open>
  The error values of the standard library (\<open>io\<close>, \<open>errors\<close>), of the two WebSocket packages the
  sources name (\<open>ws\<close>, \<open>wsutil\<close>) and of the sources themselves.  \<open>ErrForeign\<close> stands for every
  other error a library or the network may return.
\<close>

datatype err =
    EOF
  | ErrUnexpectedEOF
  | ErrShortBuffer nat nat
  | ErrNoFrameAdvance
  | ErrInvalidUTF8
  | ErrShortWrite
  | ErrFrameTooLarge
  | ErrNotControlFrame
  | ErrHeaderLengthUnexpected
  | ErrHeaderLengthMSB
  | ClosedError "16 word" bytes
  | Errorf string
  | OpError err
  | ErrForeign nat

section \<open>Options as calls that may not return\<close>

lemma bind_eq_SomeD:
  "Option.bind m f = Some r \<Longrightarrow> \<exists>x. m = Some x \<and> f x = Some r"
  by (cases m) auto

section \<open>Big-endian integers\<close>

text \<open>
  \<open>be_enc k v\<close> is what \<open>binary.BigEndian.PutUint16\<close>, \<open>PutUint32\<close> and \<open>PutUint64\<close> store for
  \<open>k = 2, 4, 8\<close>; \<open>be_dec\<close> is what \<open>Uint16\<close> and \<open>Uint64\<close> read back.
\<close>

fun be_enc :: "nat \<Rightarrow> nat \<Rightarrow> bytes" where
  "be_enc 0 v = []"
| "be_enc (Suc k) v = be_enc k (v div 256) @ [word_of_nat v]"

definition be_dec :: "bytes \<Rightarrow> nat" where
  "be_dec bs = foldl (\<lambda>a b. a * 256 + unat b) 0 bs"

lemma length_be_enc [simp]: "length (be_enc k v) = k"
  by (induction k arbitrary: v) auto

lemma be_dec_Nil [simp]: "be_dec [] = 0"
  by (simp add: be_dec_def)

lemma be_dec_snoc [simp]: "be_dec (bs @ [b]) = be_dec bs * 256 + unat b"
  by (simp add: be_dec_def)

lemma be_dec_enc: "be_dec (be_enc k v) = v mod 256 ^ k"
proof (induction k arbitrary: v)
  case 0
  show ?case by simp
next
  case (Suc k)
  have "unat (word_of_nat v :: byte) = v mod 256"
    by (simp add: unat_of_nat)
  then have "be_dec (be_enc (Suc k) v) = (v div 256) mod 256 ^ k * 256 + v mod 256"
    by (simp add: Suc.IH)
  also have "\<dots> = v mod (256 * 256 ^ k)"
    by (simp add: mod_mult2_eq mult.commute)
  finally show ?case by simp
qed

lemma be_dec_less: "be_dec bs < 256 ^ length bs"
proof (induction bs rule: rev_induct)
  case Nil
  show ?case by simp
next
  case (snoc b bs)
  have "unat b < 256" using unsigned_less [of b] by simp
  with snoc.IH have "be_dec bs * 256 + unat b < (be_dec bs + 1) * 256" by simp
  also have "\<dots> \<le> 256 ^ length bs * 256"
    using snoc.IH by (intro mult_le_mono1) simp
  finally show ?case by (simp add: mult.commute)
qed

lemma be_dec_Cons: "be_dec (b # bs) = unat b * 256 ^ length bs + be_dec bs"
  by (induction bs rule: rev_induct) (simp_all add: be_dec_def algebra_simps)

lemma hd_be_enc: "hd (be_enc (Suc k) v) = word_of_nat (v div 256 ^ k)"
proof (induction k arbitrary: v)
  case 0
  show ?case by simp
next
  case (Suc k)
  have "be_enc (Suc k) (v div 256) \<noteq> []" by (metis length_be_enc list.size(3) nat.distinct(1))
  then have "hd (be_enc (Suc k) (v div 256) @ [word_of_nat v]) = hd (be_enc (Suc k) (v div 256))"
    by (rule hd_append2)
  then have "hd (be_enc (Suc (Suc k)) v) = hd (be_enc (Suc k) (v div 256))"
    by (subst be_enc.simps(2))
  also have "\<dots> = word_of_nat (v div 256 ^ Suc k)"
    by (simp only: Suc.IH) (simp add: div_mult2_eq)
  finally show ?case .
qed

section \<open>Lists\<close>

lemma length_less_4_cases:
  assumes "length xs < 4"
  obtains "xs = []" | a where "xs = [a]" | a b where "xs = [a, b]" | a b c where "xs = [a, b, c]"
proof -
  consider "length xs = 0" | "length xs = Suc 0" | "length xs = Suc (Suc 0)"
    | "length xs = Suc (Suc (Suc 0))"
    using assms by linarith
  then show thesis
    by cases (auto simp: length_Suc_conv intro: that)
qed

lemma list4: "length bts = 4 \<Longrightarrow> \<exists>a b c d. bts = [a, b, c, d]"
  by (auto simp: length_Suc_conv numeral_eq_Suc)

lemma last_4:
  assumes "4 \<le> length xs" obtains ys a b c d where "xs = ys @ [a, b, c, d]"
proof -
  have "length (drop (length xs - 4) xs) = 4" using assms by simp
  then obtain a b c d where "drop (length xs - 4) xs = [a, b, c, d]"
    using list4 by blast
  then have "xs = take (length xs - 4) xs @ [a, b, c, d]" by (metis append_take_drop_id)
  then show thesis by (rule that)
qed

text \<open>A list is shorter than four, or ends in four elements.\<close>

lemma short_or_last_4:
  obtains "xs = []" | a where "xs = [a]" | a b where "xs = [a, b]" | a b c where "xs = [a, b, c]"
  | ys a b c d where "xs = ys @ [a, b, c, d]"
  by (metis last_4 length_less_4_cases not_le)

lemma take_drop_split: "n \<le> m \<Longrightarrow> take m xs = take n xs @ take (m - n) (drop n xs)"
  by (metis le_add_diff_inverse take_add)

end
