(* ===== verification/GoIO.thy ===== *)
theory GoIO
  imports Prelude
begin

text \<open>
  The parts of Go's package \<open>io\<close> that the sources call, and the connection below them.

  \<^item> \<open>'s rd\<close> is the interface \<open>io.Reader\<close> over a state \<open>'s\<close>; \<open>byte_stream\<close> and \<open>sticky_stream\<close>
    are its contract as locales; \<open>read_full\<close>, \<open>io_discard\<close>, \<open>io_copy\<close> and \<open>read_all\<close> are the
    clients (\<open>io.ReadFull\<close>, \<open>io.Copy(ioutil.Discard, r)\<close>, \<open>io.Copy\<close>, \<open>io.ReadAll\<close>), whose
    termination and results are proved once, inside the locales.
  \<^item> \<open>conn\<close> is the connection (\<open>transport.Transport\<close> of go-netty, a \<open>net.Conn\<close> with buffers).  It is
    not code of this repository, so it is given by its behaviour: the script of what its \<open>Read\<close>,
    \<open>Write\<close> and \<open>Flush\<close> will answer, and the record of what was written.  The theorems hold for
    every script.
\<close>

section \<open>Readers\<close>

type_synonym 's rd = "'s \<Rightarrow> nat \<Rightarrow> ('s \<times> bytes \<times> err option) option"

subsection \<open>io.ReadFull, io.Copy, io.ReadAll\<close>

text \<open>The loop of \<open>io.ReadAtLeast\<close>: read until \<open>k\<close> bytes are there or an error comes.\<close>

partial_function (option) read_loop ::
    "'s rd \<Rightarrow> nat \<Rightarrow> 's \<Rightarrow> bytes \<Rightarrow> ('s \<times> bytes \<times> err option) option" where
  [code]: "read_loop rd k s acc =
     (if length acc < k then
        Option.bind (rd s (k - length acc)) (\<lambda>(s', bs, e).
          case e of None \<Rightarrow> read_loop rd k s' (acc @ bs)
                  | Some x \<Rightarrow> Some (s', acc @ bs, Some x))
      else Some (s, acc, None))"

definition read_full :: "'s rd \<Rightarrow> 's \<Rightarrow> nat \<Rightarrow> ('s \<times> bytes \<times> err option) option" where
  "read_full rd s k =
     Option.bind (read_loop rd k s []) (\<lambda>(s', bs, e).
       Some (s', bs,
         if k \<le> length bs then None
         else if bs \<noteq> [] \<and> e = Some EOF then Some ErrUnexpectedEOF
         else e))"

text \<open>\<open>ioutil.Discard\<close> is an \<open>io.ReaderFrom\<close> with 8 KiB buffers; \<open>io.Copy\<close> to it reads to the end.\<close>

partial_function (option) io_discard :: "'s rd \<Rightarrow> 's \<Rightarrow> ('s \<times> err option) option" where
  [code]: "io_discard rd s =
     Option.bind (rd s 8192) (\<lambda>(s', bs, e).
       case e of None \<Rightarrow> io_discard rd s'
               | Some x \<Rightarrow> Some (s', if x = EOF then None else Some x))"

text \<open>
  \<open>io.Copy(w, r)\<close> with its 32 KiB buffer.  The writer has a state \<open>'w\<close> of its own and may also change
  the reader's state (both may sit on the same connection).
\<close>

type_synonym ('w, 's) wr = "'w \<Rightarrow> 's \<Rightarrow> bytes \<Rightarrow> 'w \<times> 's \<times> nat \<times> err option"

definition copy_chunk :: "('w, 's) wr \<Rightarrow> 'w \<Rightarrow> 's \<Rightarrow> bytes \<Rightarrow> 'w \<times> 's \<times> err option" where
  "copy_chunk wr w s bs =
     (if bs = [] then (w, s, None)
      else (case wr w s bs of (w', s', nw, ew) \<Rightarrow>
        (w', s', case ew of Some x \<Rightarrow> Some x
                          | None \<Rightarrow> if nw \<noteq> length bs then Some ErrShortWrite else None)))"

partial_function (option) io_copy ::
    "('w, 's) wr \<Rightarrow> 's rd \<Rightarrow> 'w \<Rightarrow> 's \<Rightarrow> ('w \<times> 's \<times> err option) option" where
  [code]: "io_copy wr rd w s =
     Option.bind (rd s 32768) (\<lambda>(s1, bs, e).
       case copy_chunk wr w s1 bs of (w2, s2, ew) \<Rightarrow>
         (case ew of Some x \<Rightarrow> Some (w2, s2, Some x)
          | None \<Rightarrow> (case e of None \<Rightarrow> io_copy wr rd w2 s2
                      | Some x \<Rightarrow> Some (w2, s2, if x = EOF then None else Some x))))"

text \<open>
  The caller's loop (\<open>io.ReadAll\<close>): read with buffers of size \<open>k (bytes so far)\<close> up to the first
  error, and hand over the bytes and that error.
\<close>

partial_function (option) read_all ::
    "'s rd \<Rightarrow> (nat \<Rightarrow> nat) \<Rightarrow> 's \<Rightarrow> bytes \<Rightarrow> ('s \<times> bytes \<times> err) option" where
  [code]: "read_all rd k s acc =
     Option.bind (rd s (k (length acc))) (\<lambda>(s', bs, e).
       case e of None \<Rightarrow> read_all rd k s' (acc @ bs)
               | Some x \<Rightarrow> Some (s', acc @ bs, x))"

text \<open>A reader on a part of a bigger state, given by its getter and setter.\<close>

definition via :: "('t \<Rightarrow> 's) \<Rightarrow> ('s \<Rightarrow> 't \<Rightarrow> 't) \<Rightarrow> 's rd \<Rightarrow> 't rd" where
  "via get put rd = (\<lambda>t n. Option.bind (rd (get t) n) (\<lambda>(s', bs, e). Some (put s' t, bs, e)))"

subsection \<open>The contract of a reader\<close>

text \<open>
  A reader in a good state delivers the bytes of \<open>content\<close> in order, at most as many as asked for;
  it ends with an error of \<open>fin\<close>, and only when everything is delivered (with the last bytes or
  after them); an answer with no byte and no error is allowed finitely often (\<open>stall\<close>).
\<close>

locale byte_stream =
  fixes rd :: "'s rd"
    and ok :: "'s \<Rightarrow> bool"
    and content :: "'s \<Rightarrow> bytes"
    and fin :: "'s \<Rightarrow> err set"
    and stall :: "'s \<Rightarrow> nat"
  assumes rd_total: "ok s \<Longrightarrow> rd s n \<noteq> None"
    and rd_len: "\<lbrakk>ok s; rd s n = Some (s', bs, e)\<rbrakk> \<Longrightarrow> length bs \<le> n"
    and rd_more: "\<lbrakk>ok s; rd s n = Some (s', bs, None)\<rbrakk>
      \<Longrightarrow> ok s' \<and> content s = bs @ content s' \<and> fin s' = fin s \<and> (bs = [] \<longrightarrow> 0 < n \<longrightarrow> stall s' < stall s)"
    and rd_err: "\<lbrakk>ok s; rd s n = Some (s', bs, Some x)\<rbrakk> \<Longrightarrow> content s = bs \<and> x \<in> fin s"

text \<open>A reader that may be read again after its error: it stays empty and repeats an error of \<open>fin\<close>.\<close>

locale sticky_stream = byte_stream +
  assumes rd_sticky: "\<lbrakk>ok s; rd s n = Some (s', bs, Some x)\<rbrakk>
      \<Longrightarrow> ok s' \<and> content s' = [] \<and> fin s' = fin s"

context byte_stream begin

lemma rd_answers:
  assumes "ok s" obtains s' bs e where "rd s n = Some (s', bs, e)"
  using rd_total [OF assms] by (metis not_None_eq prod_cases3)

lemma rd_cases:
  assumes "ok s"
  obtains (more) s' bs where "rd s n = Some (s', bs, None)" "length bs \<le> n" "ok s'"
      "content s = bs @ content s'" "fin s' = fin s" "bs = [] \<longrightarrow> 0 < n \<longrightarrow> stall s' < stall s"
  | (stop) s' bs x where "rd s n = Some (s', bs, Some x)" "length bs \<le> n" "content s = bs" "x \<in> fin s"
proof -
  obtain s' bs e where r: "rd s n = Some (s', bs, e)"
    by (rule rd_answers [OF assms])
  show thesis
  proof (cases e)
    case None
    then show thesis using r more rd_len [OF assms] rd_more [OF assms] by blast
  next
    case (Some x)
    then show thesis using r stop rd_len [OF assms] rd_err [OF assms] by blast
  qed
qed

text \<open>The measure that every answer without an error decreases.\<close>

definition todo :: "('s \<times> 's) set" where
  "todo = inv_image (less_than <*lex*> less_than) (\<lambda>s. (length (content s), stall s))"

lemma wf_todo: "wf todo"
  unfolding todo_def by (intro wf_inv_image wf_lex_prod wf_less_than)

lemma todo_step:
  "\<lbrakk>content s = bs @ content s'; bs = [] \<longrightarrow> 0 < n \<longrightarrow> stall s' < stall s; 0 < n\<rbrakk> \<Longrightarrow> (s', s) \<in> todo"
  by (cases bs) (auto simp: todo_def)

lemma read_all_content:
  assumes "ok s" and "\<And>i. 0 < k i"
  shows "\<exists>s' x. read_all rd k s acc = Some (s', acc @ content s, x) \<and> x \<in> fin s"
  using assms(1)
proof (induction s arbitrary: acc rule: wf_induct_rule [OF wf_todo])
  case (1 s)
  note ok = \<open>ok s\<close>
  show ?case
  proof (cases rule: rd_cases [OF ok, of "k (length acc)", case_names more stop])
    case (more s' bs)
    have "(s', s) \<in> todo" by (rule todo_step [OF more(4) more(6) assms(2)])
    from "1.IH" [OF this \<open>ok s'\<close>, of "acc @ bs"] obtain s2 x
      where "read_all rd k s' (acc @ bs) = Some (s2, (acc @ bs) @ content s', x)" "x \<in> fin s'"
      by blast
    with more have "read_all rd k s acc = Some (s2, acc @ content s, x) \<and> x \<in> fin s"
      by (simp add: read_all.simps [of rd k s])
    then show ?thesis by blast
  next
    case (stop s' bs x)
    then have "read_all rd k s acc = Some (s', acc @ content s, x) \<and> x \<in> fin s"
      by (simp add: read_all.simps [of rd k s])
    then show ?thesis by blast
  qed
qed

lemma read_loop_result:
  assumes "ok s"
  shows "\<exists>s' bs e. read_loop rd k s acc = Some (s', acc @ bs, e)
    \<and> (e = None \<longrightarrow> ok s' \<and> fin s' = fin s \<and> content s = bs @ content s'
         \<and> length acc + length bs = max k (length acc))
    \<and> (e \<noteq> None \<longrightarrow> length acc + length bs \<le> max k (length acc) \<and> content s = bs \<and> the e \<in> fin s)"
  using assms
proof (induction s arbitrary: acc rule: wf_induct_rule [OF wf_todo])
  case (1 s)
  note ok = \<open>ok s\<close>
  show ?case
  proof (cases "length acc < k")
    case False
    then show ?thesis using ok by (subst read_loop.simps) auto
  next
    case True
    show ?thesis
    proof (cases rule: rd_cases [OF ok, of "k - length acc", case_names more stop])
      case (more s' bs)
      have "(s', s) \<in> todo" by (rule todo_step [OF more(4) more(6)]) (use True in simp)
      from "1.IH" [OF this \<open>ok s'\<close>, of "acc @ bs"] obtain s2 bs2 e where
        r: "read_loop rd k s' (acc @ bs) = Some (s2, (acc @ bs) @ bs2, e)" and
        p: "(e = None \<longrightarrow> ok s2 \<and> fin s2 = fin s' \<and> content s' = bs2 @ content s2
              \<and> length (acc @ bs) + length bs2 = max k (length (acc @ bs)))
            \<and> (e \<noteq> None \<longrightarrow> length (acc @ bs) + length bs2 \<le> max k (length (acc @ bs))
              \<and> content s' = bs2 \<and> the e \<in> fin s')"
        by blast
      have "read_loop rd k s acc = Some (s2, acc @ (bs @ bs2), e)"
        using True more r by (subst read_loop.simps) simp
      with p more True show ?thesis
        by (intro exI [of _ s2] exI [of _ "bs @ bs2"] exI [of _ e]) auto
    next
      case (stop s' bs x)
      then have "read_loop rd k s acc = Some (s', acc @ bs, Some x)"
        using True by (subst read_loop.simps) simp
      with stop True show ?thesis by auto
    qed
  qed
qed

text \<open>\<open>io.ReadFull\<close> returns; what it read is a prefix of the content, of length \<open>k\<close> without error.\<close>

lemma read_full_total: "ok s \<Longrightarrow> \<exists>r. read_full rd s k = Some r"
  using read_loop_result [of s k "[]"] by (auto simp: read_full_def)

lemma read_full_ok:
  assumes "ok s" and "read_full rd s k = Some (s', bs, None)"
  shows "length bs = k \<and> bs = take k (content s)"
proof -
  obtain s2 bs2 e where r: "read_loop rd k s [] = Some (s2, bs2, e)" and
    p: "e = None \<longrightarrow> ok s2 \<and> fin s2 = fin s \<and> content s = bs2 @ content s2 \<and> length bs2 = k"
       "e \<noteq> None \<longrightarrow> length bs2 \<le> k \<and> content s = bs2 \<and> the e \<in> fin s"
    using read_loop_result [OF assms(1), of k "[]"] by auto
  with assms(2) show ?thesis
    by (cases e) (auto simp: read_full_def split: if_splits)
qed

lemma read_full_short:
  assumes "ok s" and "length (content s) < k"
  shows "\<exists>s' x. x \<in> fin s \<and> read_full rd s k = Some (s', content s,
    Some (if content s \<noteq> [] \<and> x = EOF then ErrUnexpectedEOF else x))"
proof -
  obtain s2 bs2 e where r: "read_loop rd k s [] = Some (s2, bs2, e)" and
    p: "e = None \<longrightarrow> ok s2 \<and> fin s2 = fin s \<and> content s = bs2 @ content s2 \<and> length bs2 = k"
       "e \<noteq> None \<longrightarrow> length bs2 \<le> k \<and> content s = bs2 \<and> the e \<in> fin s"
    using read_loop_result [OF assms(1), of k "[]"] by auto
  with assms(2) show ?thesis
    by (cases e) (auto simp: read_full_def split: if_splits)
qed

text \<open>When exactly \<open>k\<close> bytes are left, \<open>io.ReadFull\<close> gets them, whatever error comes with the last one.\<close>

lemma read_full_exact:
  assumes "ok s" and "length (content s) = k"
  shows "\<exists>s'. read_full rd s k = Some (s', content s, None)"
proof -
  obtain s2 bs2 e where r: "read_loop rd k s [] = Some (s2, bs2, e)" and
    p: "e = None \<longrightarrow> ok s2 \<and> fin s2 = fin s \<and> content s = bs2 @ content s2 \<and> length bs2 = k"
       "e \<noteq> None \<longrightarrow> length bs2 \<le> k \<and> content s = bs2 \<and> the e \<in> fin s"
    using read_loop_result [OF assms(1), of k "[]"] by auto
  with assms(2) show ?thesis
    by (cases e) (auto simp: read_full_def)
qed

end

context sticky_stream begin

lemma read_loop_sticky:
  assumes "ok s"
  shows "\<exists>s' bs e. read_loop rd k s acc = Some (s', acc @ bs, e) \<and> ok s' \<and> fin s' = fin s
    \<and> content s = bs @ content s'
    \<and> (e = None \<longrightarrow> length acc + length bs = max k (length acc))
    \<and> (e \<noteq> None \<longrightarrow> content s' = [] \<and> length acc + length bs \<le> max k (length acc))"
  using assms
proof (induction s arbitrary: acc rule: wf_induct_rule [OF wf_todo])
  case (1 s)
  note ok = \<open>ok s\<close>
  show ?case
  proof (cases "length acc < k")
    case False
    then show ?thesis using ok by (subst read_loop.simps) auto
  next
    case True
    show ?thesis
    proof (cases rule: rd_cases [OF ok, of "k - length acc", case_names more stop])
      case (more s' bs)
      have "(s', s) \<in> todo" by (rule todo_step [OF more(4) more(6)]) (use True in simp)
      from "1.IH" [OF this \<open>ok s'\<close>, of "acc @ bs"] obtain s2 bs2 e where
        r: "read_loop rd k s' (acc @ bs) = Some (s2, (acc @ bs) @ bs2, e)" and
        p: "ok s2 \<and> fin s2 = fin s' \<and> content s' = bs2 @ content s2
              \<and> (e = None \<longrightarrow> length (acc @ bs) + length bs2 = max k (length (acc @ bs)))
              \<and> (e \<noteq> None \<longrightarrow> content s2 = [] \<and> length (acc @ bs) + length bs2 \<le> max k (length (acc @ bs)))"
        by blast
      have "read_loop rd k s acc = Some (s2, acc @ (bs @ bs2), e)"
        using True more r by (subst read_loop.simps) simp
      with p more True show ?thesis
        by (intro exI [of _ s2] exI [of _ "bs @ bs2"] exI [of _ e]) auto
    next
      case (stop s' bs x)
      then have "read_loop rd k s acc = Some (s', acc @ bs, Some x)"
        using True by (subst read_loop.simps) simp
      with stop True rd_sticky [OF ok stop(1)] show ?thesis
        by (intro exI [of _ s'] exI [of _ bs] exI [of _ "Some x"]) auto
    qed
  qed
qed

text \<open>With enough content \<open>io.ReadFull\<close> reads exactly the first \<open>k\<close> bytes and leaves the rest.\<close>

lemma read_full_enough:
  assumes "ok s" and "k \<le> length (content s)"
  shows "\<exists>s'. read_full rd s k = Some (s', take k (content s), None)
    \<and> ok s' \<and> content s' = drop k (content s) \<and> fin s' = fin s"
proof -
  obtain s2 bs2 e where r: "read_loop rd k s [] = Some (s2, bs2, e)" and
    p: "ok s2" "fin s2 = fin s" "content s = bs2 @ content s2"
       "e = None \<longrightarrow> length bs2 = k" "e \<noteq> None \<longrightarrow> content s2 = [] \<and> length bs2 \<le> k"
    using read_loop_sticky [OF assms(1), of k "[]"] by auto
  have len: "length bs2 = k" using p assms(2) by (cases e) auto
  with r have "read_full rd s k = Some (s2, bs2, None)" by (simp add: read_full_def)
  with p len show ?thesis by (intro exI [of _ s2]) simp
qed

end

text \<open>What every single read keeps, the loops keep.\<close>

lemma read_loop_keeps:
  assumes step: "\<And>s n s' bs e. \<lbrakk>I s; rd s n = Some (s', bs, e)\<rbrakk> \<Longrightarrow> I s'"
    and "read_loop rd k s acc = Some (s', bs, e)" and "I s"
  shows "I s'"
proof -
  have "I s \<longrightarrow> (case r of (s', _) \<Rightarrow> I s')" if "read_loop rd k s acc = Some r" for r
  proof (rule read_loop.raw_induct
      [where P = "\<lambda>rd' k s acc r. rd' = rd \<longrightarrow> I s \<longrightarrow> (case r of (s', _) \<Rightarrow> I s')", THEN mp, OF _ that refl])
    fix loop rd' k s acc r
    assume IH: "\<And>rd' k s acc r. loop rd' k s acc = Some r \<Longrightarrow> rd' = rd \<longrightarrow> I s \<longrightarrow> (case r of (s', _) \<Rightarrow> I s')"
      and eq: "(if length acc < k then
            Option.bind (rd' s (k - length acc)) (\<lambda>(s', bs, e).
              case e of None \<Rightarrow> loop rd' k s' (acc @ bs) | Some x \<Rightarrow> Some (s', acc @ bs, Some x))
          else Some (s, acc, None)) = Some r"
    have IH': "I s'" if "loop rd k s acc = Some (s', b)" "I s" for k s acc s' b
      using IH [OF that(1)] that(2) by simp
    show "rd' = rd \<longrightarrow> I s \<longrightarrow> (case r of (s', _) \<Rightarrow> I s')"
      using eq by (auto split: if_splits option.splits dest!: bind_eq_SomeD) (metis step IH')+
  qed
  with assms(2,3) show ?thesis by fastforce
qed

lemma read_full_keeps:
  assumes "\<And>s n s' bs e. \<lbrakk>I s; rd s n = Some (s', bs, e)\<rbrakk> \<Longrightarrow> I s'"
    and "read_full rd s k = Some (s', bs, e)" and "I s"
  shows "I s'"
  using assms(2,3) by (auto simp: read_full_def dest!: bind_eq_SomeD intro: read_loop_keeps [OF assms(1)])

lemma io_discard_keeps:
  assumes step: "\<And>s n s' bs e. \<lbrakk>I s; rd s n = Some (s', bs, e)\<rbrakk> \<Longrightarrow> I s'"
    and "io_discard rd s = Some (s', e)" and "I s"
  shows "I s'"
proof -
  have "I s \<longrightarrow> I (fst r)" if "io_discard rd s = Some r" for r
  proof (rule io_discard.raw_induct [where P = "\<lambda>rd' s r. rd' = rd \<longrightarrow> I s \<longrightarrow> I (fst r)", THEN mp, OF _ that refl])
    fix loop rd' s r
    assume IH: "\<And>rd' s r. loop rd' s = Some r \<Longrightarrow> rd' = rd \<longrightarrow> I s \<longrightarrow> I (fst r)"
      and eq: "Option.bind (rd' s 8192) (\<lambda>(s', bs, e).
              case e of None \<Rightarrow> loop rd' s' | Some x \<Rightarrow> Some (s', if x = EOF then None else Some x)) = Some r"
    obtain s1 bs e where r: "rd' s 8192 = Some (s1, bs, e)"
      "(case e of None \<Rightarrow> loop rd' s1 | Some x \<Rightarrow> Some (s1, if x = EOF then None else Some x)) = Some r"
      using eq by (auto dest!: bind_eq_SomeD)
    show "rd' = rd \<longrightarrow> I s \<longrightarrow> I (fst r)"
    proof (intro impI)
      assume "rd' = rd" "I s"
      with r(1) have "I s1" by (metis step)
      with r(2) IH [of rd' s1 r] \<open>rd' = rd\<close> show "I (fst r)" by (cases e) auto
    qed
  qed
  with assms(2,3) show ?thesis by fastforce
qed

lemma io_copy_keeps:
  assumes step: "\<And>s n s' bs e. \<lbrakk>I s; rd s n = Some (s', bs, e)\<rbrakk> \<Longrightarrow> I s'"
    and wr: "\<And>w s bs w' s' n e. \<lbrakk>I s; wr w s bs = (w', s', n, e)\<rbrakk> \<Longrightarrow> I s'"
    and "io_copy wr rd w s = Some (w', s', e)" and "I s"
  shows "I s'"
proof -
  have "I s \<longrightarrow> I (fst (snd r))" if "io_copy wr rd w s = Some r" for r
  proof (rule io_copy.raw_induct [where P = "\<lambda>wr' rd' w s r. wr' = wr \<longrightarrow> rd' = rd \<longrightarrow> I s \<longrightarrow> I (fst (snd r))",
        THEN mp, THEN mp, OF _ that refl refl])
    fix loop wr' rd' w s r
    assume IH: "\<And>wr' rd' w s r. loop wr' rd' w s = Some r \<Longrightarrow> wr' = wr \<longrightarrow> rd' = rd \<longrightarrow> I s \<longrightarrow> I (fst (snd r))"
      and eq: "Option.bind (rd' s 32768) (\<lambda>(s1, bs, e). case copy_chunk wr' w s1 bs of (w2, s2, ew) \<Rightarrow>
         (case ew of Some x \<Rightarrow> Some (w2, s2, Some x)
          | None \<Rightarrow> (case e of None \<Rightarrow> loop wr' rd' w2 s2 | Some x \<Rightarrow> Some (w2, s2, if x = EOF then None else Some x)))) = Some r"
    obtain s1 bs e where r: "rd' s 32768 = Some (s1, bs, e)" using eq by (auto dest!: bind_eq_SomeD)
    obtain w2 s2 ew where c: "copy_chunk wr' w s1 bs = (w2, s2, ew)" by (metis prod_cases3)
    have "I s2" if "wr' = wr" "I s1" using c that wr by (auto simp: copy_chunk_def split: if_splits prod.splits)
    note s2 = this
    have r': "(case ew of Some x \<Rightarrow> Some (w2, s2, Some x)
          | None \<Rightarrow> (case e of None \<Rightarrow> loop wr' rd' w2 s2 | Some x \<Rightarrow> Some (w2, s2, if x = EOF then None else Some x))) = Some r"
      using eq r c by simp
    show "wr' = wr \<longrightarrow> rd' = rd \<longrightarrow> I s \<longrightarrow> I (fst (snd r))"
    proof (intro impI)
      assume a: "wr' = wr" "rd' = rd" "I s"
      with r have "I s1" by (metis step)
      with s2 a have "I s2" by blast
      with r' IH [of wr' rd' w2 s2 r] a show "I (fst (snd r))" by (cases ew; cases e) auto
    qed
  qed
  with assms(3,4) show ?thesis by fastforce
qed

text \<open>\<open>io.ReadAll\<close> accumulates what a tracked reader delivers.\<close>

lemma read_all_tracked:
  assumes more: "\<And>q s n s' bs. \<lbrakk>T q s; rd s n = Some (s', bs, None)\<rbrakk> \<Longrightarrow> T (q @ bs) s'"
    and last: "\<And>q s n s' bs x. \<lbrakk>T q s; rd s n = Some (s', bs, Some x)\<rbrakk> \<Longrightarrow> R (q @ bs) x s'"
    and "read_all rd k s acc = Some (s', p, x)" and "T acc s"
  shows "R p x s'"
proof -
  have "T acc s \<longrightarrow> (case r of (s', p, x) \<Rightarrow> R p x s')" if "read_all rd k s acc = Some r" for r
  proof (rule read_all.raw_induct [where P = "\<lambda>rd' k s acc r. rd' = rd \<longrightarrow> T acc s \<longrightarrow> (case r of (s', p, x) \<Rightarrow> R p x s')",
        THEN mp, OF _ that refl])
    fix loop rd' k s acc r
    assume IH: "\<And>rd' k s acc r. loop rd' k s acc = Some r \<Longrightarrow> rd' = rd \<longrightarrow> T acc s \<longrightarrow> (case r of (s', p, x) \<Rightarrow> R p x s')"
      and eq: "Option.bind (rd' s (k (length acc))) (\<lambda>(s', bs, e).
          case e of None \<Rightarrow> loop rd' k s' (acc @ bs) | Some x \<Rightarrow> Some (s', acc @ bs, x)) = Some r"
    obtain s1 bs e where r: "rd' s (k (length acc)) = Some (s1, bs, e)"
      "(case e of None \<Rightarrow> loop rd' k s1 (acc @ bs) | Some x \<Rightarrow> Some (s1, acc @ bs, x)) = Some r"
      using eq by (auto dest!: bind_eq_SomeD)
    show "rd' = rd \<longrightarrow> T acc s \<longrightarrow> (case r of (s', p, x) \<Rightarrow> R p x s')"
    proof (intro impI)
      assume a: "rd' = rd" "T acc s"
      show "case r of (s', p, x) \<Rightarrow> R p x s'"
      proof (cases e)
        case None
        with a r more [OF a(2)] IH [of rd' k s1 "acc @ bs" r] show ?thesis by simp
      next
        case (Some x)
        with a r last [OF a(2)] show ?thesis by auto
      qed
    qed
  qed
  with assms(3,4) show ?thesis by fastforce
qed

context byte_stream begin

text \<open>The state at the end of \<open>io.ReadAll\<close> comes from the read that returned the error.\<close>

lemma read_all_last:
  assumes "ok s" and "\<And>i. 0 < k i" and "I s"
    and step: "\<And>s n s' bs. \<lbrakk>ok s; I s; rd s n = Some (s', bs, None)\<rbrakk> \<Longrightarrow> I s'"
  shows "\<exists>s' x s0 n bs. read_all rd k s acc = Some (s', acc @ content s, x) \<and> x \<in> fin s
    \<and> ok s0 \<and> I s0 \<and> rd s0 n = Some (s', bs, Some x)"
  using assms(1,3)
proof (induction s arbitrary: acc rule: wf_induct_rule [OF wf_todo])
  case (1 s)
  note ok = \<open>ok s\<close>
  show ?case
  proof (cases rule: rd_cases [OF ok, of "k (length acc)", case_names more stop])
    case (more s' bs)
    have "(s', s) \<in> todo" by (rule todo_step [OF more(4) more(6) assms(2)])
    moreover have "I s'" by (rule step [OF ok \<open>I s\<close> more(1)])
    ultimately obtain s2 x s0 n b where
      "read_all rd k s' (acc @ bs) = Some (s2, (acc @ bs) @ content s', x)" "x \<in> fin s'"
      "ok s0" "I s0" "rd s0 n = Some (s2, b, Some x)"
      using "1.IH" \<open>ok s'\<close> by blast
    with more have "read_all rd k s acc = Some (s2, acc @ content s, x) \<and> x \<in> fin s
        \<and> ok s0 \<and> I s0 \<and> rd s0 n = Some (s2, b, Some x)"
      by (simp add: read_all.simps [of rd k s])
    then show ?thesis by blast
  next
    case (stop s' bs x)
    then have "read_all rd k s acc = Some (s', acc @ content s, x) \<and> x \<in> fin s
        \<and> ok s \<and> I s \<and> rd s (k (length acc)) = Some (s', bs, Some x)"
      using ok \<open>I s\<close> by (simp add: read_all.simps [of rd k s])
    then show ?thesis by blast
  qed
qed

text \<open>So does \<open>io.Copy(ioutil.Discard, r)\<close>, which returns.\<close>

lemma io_discard_last:
  assumes "ok s" and "I s"
    and step: "\<And>s n s' bs. \<lbrakk>ok s; I s; rd s n = Some (s', bs, None)\<rbrakk> \<Longrightarrow> I s'"
  shows "\<exists>s' s0 bs x. io_discard rd s = Some (s', if x = EOF then None else Some x)
    \<and> ok s0 \<and> I s0 \<and> rd s0 8192 = Some (s', bs, Some x)"
  using assms(1,2)
proof (induction s rule: wf_induct_rule [OF wf_todo])
  case (1 s)
  note ok = \<open>ok s\<close>
  show ?case
  proof (cases rule: rd_cases [OF ok, of 8192, case_names more stop])
    case (more s' bs)
    have "(s', s) \<in> todo" by (rule todo_step [OF more(4) more(6)]) simp
    moreover have "I s'" by (rule step [OF ok \<open>I s\<close> more(1)])
    moreover have "io_discard rd s = io_discard rd s'"
      using more(1) by (simp add: io_discard.simps [of rd s])
    ultimately show ?thesis using "1.IH" \<open>ok s'\<close> by presburger
  next
    case (stop s' bs x)
    then have "io_discard rd s = Some (s', if x = EOF then None else Some x)"
      by (simp add: io_discard.simps [of rd s])
    with stop ok \<open>I s\<close> show ?thesis by blast
  qed
qed

text \<open>
  \<open>io.Copy\<close> to a writer that takes everything and leaves the reader alone: \<open>J w p\<close> says that the writer has
  got the bytes \<open>p\<close>.
\<close>

lemma io_copy_last:
  assumes "ok s" and "I s" and "J w acc" and "length acc + length (content s) \<le> K"
    and step: "\<And>s n s' bs. \<lbrakk>ok s; I s; rd s n = Some (s', bs, None)\<rbrakk> \<Longrightarrow> I s'"
    and takes: "\<And>w s acc bs. \<lbrakk>J w acc; length acc + length bs \<le> K\<rbrakk>
      \<Longrightarrow> \<exists>w'. wr w s bs = (w', s, length bs, None) \<and> J w' (acc @ bs)"
  shows "\<exists>w' s' s0 n bs x. io_copy wr rd w s = Some (w', s', if x = EOF then None else Some x)
    \<and> J w' (acc @ content s) \<and> ok s0 \<and> I s0 \<and> rd s0 n = Some (s', bs, Some x)"
  using assms(1-4)
proof (induction s arbitrary: w acc rule: wf_induct_rule [OF wf_todo])
  case (1 s)
  note ok = \<open>ok s\<close>
  have chunk: "\<exists>w'. copy_chunk wr w s' bs = (w', s', None) \<and> J w' (acc @ bs)"
    if "length acc + length bs \<le> K" for s' bs
    using takes [OF \<open>J w acc\<close> that, of s'] \<open>J w acc\<close> by (auto simp: copy_chunk_def)
  show ?case
  proof (cases rule: rd_cases [OF ok, of 32768, case_names more stop])
    case (more s' bs)
    obtain w' where w': "copy_chunk wr w s' bs = (w', s', None)" "J w' (acc @ bs)"
      using chunk [of bs s'] more(4) "1.prems"(4) by auto
    have "(s', s) \<in> todo" by (rule todo_step [OF more(4) more(6)]) simp
    moreover have "I s'" by (rule step [OF ok \<open>I s\<close> more(1)])
    moreover have "length (acc @ bs) + length (content s') \<le> K" using more(4) "1.prems"(4) by simp
    moreover have "io_copy wr rd w s = io_copy wr rd w' s'"
      using more(1) w'(1) by (simp add: io_copy.simps [of wr rd w s])
    ultimately show ?thesis using "1.IH" [OF _ \<open>ok s'\<close> _ w'(2)] more(4) by simp
  next
    case (stop s' bs x)
    obtain w' where w': "copy_chunk wr w s' bs = (w', s', None)" "J w' (acc @ bs)"
      using chunk [of bs s'] stop(3) "1.prems"(4) by auto
    have "io_copy wr rd w s = Some (w', s', if x = EOF then None else Some x)"
      using stop(1) w'(1) by (simp add: io_copy.simps [of wr rd w s])
    with stop ok \<open>I s\<close> w'(2) show ?thesis by blast
  qed
qed

lemma via_stream:
  assumes get_put: "\<And>x t. get (put x t) = x"
  shows "byte_stream (via get put rd) (\<lambda>t. ok (get t)) (\<lambda>t. content (get t)) (\<lambda>t. fin (get t)) (\<lambda>t. stall (get t))"
proof (unfold_locales, goal_cases)
  case (1 t n)
  then obtain s' bs e where "rd (get t) n = Some (s', bs, e)"
    by (rule rd_answers)
  then show ?case by (simp add: via_def)
next
  case (2 t n s' bs e)
  then show ?case using rd_len by (fastforce simp: via_def dest!: bind_eq_SomeD)
next
  case (3 t n s' bs)
  then show ?case using rd_more by (fastforce simp: via_def get_put dest!: bind_eq_SomeD)
next
  case (4 t n s' bs x)
  then show ?case using rd_err by (fastforce simp: via_def get_put dest!: bind_eq_SomeD)
qed

end

section \<open>Readers made of readers\<close>

text \<open>
  \<open>io.LimitedReader\<close>: at most \<open>N\<close> bytes of the reader below.  Its state is that of the reader below
  and the remaining count, Go's \<open>int64\<close> field \<open>N\<close>.
\<close>

definition limited_read :: "'s rd \<Rightarrow> ('s \<times> int) rd" where
  "limited_read rd = (\<lambda>(s, N) n.
     if N \<le> 0 then Some ((s, N), [], Some EOF)
     else Option.bind (rd s (if N < int n then nat N else n)) (\<lambda>(s', bs, e).
       Some ((s', N - int (length bs)), bs, e)))"

definition limited_fin :: "nat \<Rightarrow> nat \<Rightarrow> err set \<Rightarrow> err set" where
  "limited_fin len N F = (if N \<le> len then {EOF} else {}) \<union> (if len \<le> N then F else {})"

context sticky_stream begin

lemma limited_sticky:
  "sticky_stream (limited_read rd) (\<lambda>(s, N). ok s) (\<lambda>(s, N). take (nat N) (content s))
     (\<lambda>(s, N). limited_fin (length (content s)) (nat N) (fin s)) (\<lambda>(s, N). stall s)"
proof (unfold_locales, goal_cases)
  case (1 sN n)
  obtain s N where sN: "sN = (s, N)" by force
  with 1 have "ok s" by simp
  then obtain s' bs e where "rd s (if N < int n then nat N else n) = Some (s', bs, e)"
    by (rule rd_answers)
  then show ?case by (simp add: sN limited_read_def)
next
  case (2 sN n s' bs e)
  then show ?case
    using rd_len by (fastforce simp: limited_read_def split: prod.splits if_splits dest!: bind_eq_SomeD)
next
  case (3 sN n s' bs)
  obtain s N where sN: "sN = (s, N)" by force
  with 3 obtain s1 where N: "0 < N" and s': "s' = (s1, N - int (length bs))" and
    r: "rd s (if N < int n then nat N else n) = Some (s1, bs, None)"
    by (auto simp: limited_read_def split: if_splits dest!: bind_eq_SomeD)
  from 3 sN have ok: "ok s" by simp
  note more = rd_more [OF ok r] and len = rd_len [OF ok r]
  from len N have le: "length bs \<le> nat N" "length bs \<le> n" by (auto split: if_splits)
  have n: "nat (N - int (length bs)) = nat N - length bs" using N by linarith
  have c: "length (content s) = length bs + length (content s1)"
    using more by simp
  have "nat N - length bs \<le> length (content s1) \<longleftrightarrow> nat N \<le> length (content s)"
    and "length (content s1) \<le> nat N - length bs \<longleftrightarrow> length (content s) \<le> nat N"
    using le(1) unfolding c by linarith+
  then have "limited_fin (length (content s1)) (nat N - length bs) (fin s)
      = limited_fin (length (content s)) (nat N) (fin s)"
    by (simp only: limited_fin_def)
  moreover have "0 < n \<longrightarrow> 0 < (if N < int n then nat N else n)" using N by simp
  ultimately show ?case using more le by (simp add: sN s' n)
next
  case (4 sN n s' bs x)
  obtain s N where sN: "sN = (s, N)" by force
  from 4 sN have ok: "ok s" by simp
  show ?case
  proof (cases "N \<le> 0")
    case True
    with 4 sN show ?thesis by (auto simp: limited_read_def limited_fin_def)
  next
    case False
    with 4 sN obtain s1 where
      r: "rd s (if N < int n then nat N else n) = Some (s1, bs, Some x)"
      by (auto simp: limited_read_def split: if_splits dest!: bind_eq_SomeD)
    from rd_err [OF ok r] rd_len [OF ok r] False show ?thesis
      by (auto simp: sN limited_fin_def split: if_splits)
  qed
next
  case (5 sN n s' bs x)
  obtain s N where sN: "sN = (s, N)" by force
  from 5 sN have ok: "ok s" by simp
  show ?case
  proof (cases "N \<le> 0")
    case True
    with 5 sN show ?thesis by (auto simp: limited_read_def limited_fin_def)
  next
    case False
    with 5 sN obtain s1 where s': "s' = (s1, N - int (length bs))" and
      r: "rd s (if N < int n then nat N else n) = Some (s1, bs, Some x)"
      by (auto simp: limited_read_def split: if_splits dest!: bind_eq_SomeD)
    have "length bs \<le> nat N" using rd_len [OF ok r] False by (simp split: if_splits)
    moreover have "nat (N - int (length bs)) \<le> 0 \<longleftrightarrow> nat N \<le> length bs" using False by linarith
    ultimately have "limited_fin 0 (nat (N - int (length bs))) (fin s) = limited_fin (length bs) (nat N) (fin s)"
      by (simp only: limited_fin_def) simp
    with rd_sticky [OF ok r] rd_err [OF ok r] show ?thesis by (simp add: sN s')
  qed
qed

lemma via_sticky:
  assumes get_put: "\<And>x t. get (put x t) = x"
  shows "sticky_stream (via get put rd) (\<lambda>t. ok (get t)) (\<lambda>t. content (get t)) (\<lambda>t. fin (get t)) (\<lambda>t. stall (get t))"
proof (rule sticky_stream.intro [OF via_stream], rule get_put, unfold_locales)
  fix t n t' bs x
  assume "ok (get t)" "via get put rd t n = Some (t', bs, Some x)"
  then show "ok (get t') \<and> content (get t') = [] \<and> fin (get t') = fin (get t)"
    using rd_sticky by (fastforce simp: via_def get_put dest!: bind_eq_SomeD)
qed

end

section \<open>The connection\<close>

text \<open>
  What the embedded \<open>transport.Transport\<close> does, as a script.  \<open>in_chunks\<close> are the pieces in which the
  peer's bytes arrive, \<open>in_err\<close> the error every later \<open>Read\<close> returns (\<open>EOF\<close> after a close), \<open>in_eager\<close>
  whether that error already comes with the last piece (both are allowed by \<open>io.Reader\<close>).
  \<open>out\<close> lists the byte blocks written; \<open>w_faults\<close> and \<open>f_faults\<close> say how the next calls of \<open>Write\<close>
  and \<open>Flush\<close> fail, if they do: \<open>Some (k, e)\<close> writes only \<open>k\<close> bytes and returns \<open>e\<close>.
\<close>

record conn =
  in_chunks :: "bytes list"
  in_err :: err
  in_eager :: bool
  out :: "bytes list"
  w_faults :: "(nat \<times> err) option list"
  f_faults :: "err option list"
  flushes :: nat
  closed :: bool

fun conn_read :: "conn rd" where
  "conn_read c n =
     (case in_chunks c of
        [] \<Rightarrow> Some (c, [], Some (in_err c))
      | b # bs \<Rightarrow>
          if n < length b then Some (c\<lparr>in_chunks := drop n b # bs\<rparr>, take n b, None)
          else Some (c\<lparr>in_chunks := bs\<rparr>, b, if bs = [] \<and> in_eager c then Some (in_err c) else None))"

definition conn_write :: "conn \<Rightarrow> bytes \<Rightarrow> conn \<times> nat \<times> err option" where
  "conn_write c p =
     (case w_faults c of
        [] \<Rightarrow> (c\<lparr>out := out c @ [p]\<rparr>, length p, None)
      | None # ws \<Rightarrow> (c\<lparr>out := out c @ [p], w_faults := ws\<rparr>, length p, None)
      | Some (k, e) # ws \<Rightarrow>
          (c\<lparr>out := out c @ [take k p], w_faults := ws\<rparr>, min k (length p), Some e))"

definition conn_flush :: "conn \<Rightarrow> conn \<times> err option" where
  "conn_flush c =
     (case f_faults c of
        [] \<Rightarrow> (c\<lparr>flushes := Suc (flushes c)\<rparr>, None)
      | None # fs \<Rightarrow> (c\<lparr>flushes := Suc (flushes c), f_faults := fs\<rparr>, None)
      | Some e # fs \<Rightarrow> (c\<lparr>f_faults := fs\<rparr>, Some e))"

definition conn_content :: "conn \<Rightarrow> bytes" where
  "conn_content c = concat (in_chunks c)"

interpretation net: sticky_stream conn_read "\<lambda>_. True" conn_content "\<lambda>c. {in_err c}" "\<lambda>c. length (in_chunks c)"
  by unfold_locales (auto simp: conn_content_def split: list.splits if_splits)

declare conn_read.simps [simp del]

text \<open>Reading changes only what is still to come.\<close>

definition conn_env :: "conn \<Rightarrow> err \<times> bool \<times> bytes list \<times> (nat \<times> err) option list \<times> err option list \<times> nat \<times> bool" where
  "conn_env c = (in_err c, in_eager c, out c, w_faults c, f_faults c, flushes c, closed c)"

lemma conn_read_env:
  "conn_read c n = Some (c', bs, e) \<Longrightarrow> conn_env c' = conn_env c"
  by (auto simp: conn_read.simps conn_env_def split: list.splits if_splits)

lemma conn_env_fields:
  assumes "conn_env c' = conn_env c"
  shows "in_err c' = in_err c" "in_eager c' = in_eager c" "out c' = out c" "w_faults c' = w_faults c"
    "f_faults c' = f_faults c" "flushes c' = flushes c" "closed c' = closed c"
  using assms by (simp_all add: conn_env_def)

lemma conn_read_content:
  "conn_read c n = Some (c', bs, e) \<Longrightarrow> conn_content c = bs @ conn_content c'"
  by (auto simp: conn_read.simps conn_content_def split: list.splits if_splits)

lemma conn_read_error:
  "\<lbrakk>conn_read c n = Some (c', bs, Some x); in_chunks c \<noteq> []\<rbrakk>
    \<Longrightarrow> x = in_err c \<and> in_eager c \<and> conn_content c' = []"
  by (auto simp: conn_read.simps conn_content_def split: list.splits if_splits)

lemma conn_read_chunks:
  "conn_read c n = Some (c', bs, e) \<Longrightarrow> length (in_chunks c') \<le> length (in_chunks c)"
  by (auto simp: conn_read.simps split: list.splits if_splits)

lemma conn_write_frame:
  assumes "conn_write c p = (c', n, e)"
  shows "in_chunks c' = in_chunks c" "in_err c' = in_err c" "in_eager c' = in_eager c"
    "f_faults c' = f_faults c" "flushes c' = flushes c" "closed c' = closed c"
  using assms by (auto simp: conn_write_def split: list.splits option.splits)

lemma conn_write_ok:
  "conn_write c p = (c', n, None) \<Longrightarrow> out c' = out c @ [p] \<and> n = length p"
  by (auto simp: conn_write_def split: list.splits option.splits)

end
