(* ===== verification/Cipher.thy ===== *)
theory Cipher
  imports GoIO
begin

text \<open>
  The payload mask of \<open>websocket/internal/wsutils/cipher_handler.go\<close>: \<open>FastCipher\<close>, which masks a
  slice in place, four bytes at a time where it can, and \<open>CipherReader\<close>, the reader that unmasks what
  it passes on.  \<open>cipher_spec\<close> is the masking of RFC 6455 (section 5.3), byte by byte; the optimised
  routine is proved equal to it, and from that the reader's contract.
\<close>

section \<open>The mask\<close>

text \<open>Go's \<open>[4]byte\<close>; the sources index it by \<open>off & 3\<close> only.\<close>

datatype mask = Mask byte byte byte byte

fun mask_at :: "mask \<Rightarrow> nat \<Rightarrow> byte" where
  "mask_at (Mask a b c d) i = (if i = 0 then a else if i = 1 then b else if i = 2 then c else d)"

lemma and_3_mod_4 [simp]: "(n AND 3 :: nat) = n mod 4"
  using take_bit_eq_mask [of 2 n] by (simp add: take_bit_eq_mod mask_eq_exp_minus_1)

fun cipher_spec :: "mask \<Rightarrow> nat \<Rightarrow> bytes \<Rightarrow> bytes" where
  "cipher_spec m off [] = []"
| "cipher_spec m off (b # bs) = (b XOR mask_at m (off mod 4)) # cipher_spec m (Suc off) bs"

lemma length_cipher_spec [simp]: "length (cipher_spec m off p) = length p"
  by (induction p arbitrary: off) auto

lemma cipher_spec_append:
  "cipher_spec m off (p @ q) = cipher_spec m off p @ cipher_spec m (off + length p) q"
  by (induction p arbitrary: off) auto

lemma cipher_spec_cong: "off mod 4 = off' mod 4 \<Longrightarrow> cipher_spec m off p = cipher_spec m off' p"
proof (induction p arbitrary: off off')
  case Nil
  show ?case by simp
next
  case (Cons b p)
  have "Suc off mod 4 = Suc off' mod 4" using Cons.prems by (metis mod_Suc_eq)
  from Cons.IH [OF this] show ?case by (simp add: Cons.prems)
qed

lemma cipher_spec_mod [simp]: "cipher_spec m (off mod 4) p = cipher_spec m off p"
  by (rule cipher_spec_cong) simp

lemma cipher_spec_involution [simp]: "cipher_spec m off (cipher_spec m off p) = p"
  by (induction p arbitrary: off) (auto simp: xor.assoc)

lemma take_cipher_spec: "take n (cipher_spec m off p) = cipher_spec m off (take n p)"
  by (induction p arbitrary: off n) (auto simp: take_Cons split: nat.splits)

lemma drop_cipher_spec: "drop n (cipher_spec m off p) = cipher_spec m (off + n) (drop n p)"
  by (induction p arbitrary: off n) (auto simp: drop_Cons split: nat.splits)

section \<open>FastCipher\<close>

text \<open>The three loops of \<open>FastCipher\<close>, each over the slice and its index \<open>i\<close>.\<close>

function fc_head :: "bytes \<Rightarrow> mask \<Rightarrow> nat \<Rightarrow> nat \<Rightarrow> bytes \<times> nat \<times> nat" where
  "fc_head p m off i =
     (if i < length p \<and> off AND 3 \<noteq> 0
      then fc_head (p[i := p ! i XOR mask_at m (off AND 3)]) m (off + 1) (i + 1)
      else (p, off, i))"
  by pat_completeness auto
termination by (relation "measure (\<lambda>(p, m, off, i). length p - i)") auto

function fc_words :: "bytes \<Rightarrow> mask \<Rightarrow> nat \<Rightarrow> bytes \<times> nat" where
  "fc_words p m i =
     (if i + 4 \<le> length p
      then fc_words (p[i := p ! i XOR mask_at m 0,
                       i + 1 := p ! (i + 1) XOR mask_at m 1,
                       i + 2 := p ! (i + 2) XOR mask_at m 2,
                       i + 3 := p ! (i + 3) XOR mask_at m 3]) m (i + 4)
      else (p, i))"
  by pat_completeness auto
termination by (relation "measure (\<lambda>(p, m, i). length p - i)") auto

function fc_tail :: "bytes \<Rightarrow> mask \<Rightarrow> nat \<Rightarrow> nat \<Rightarrow> bytes" where
  "fc_tail p m off i =
     (if i < length p
      then fc_tail (p[i := p ! i XOR mask_at m (off AND 3)]) m (off + 1) (i + 1)
      else p)"
  by pat_completeness auto
termination by (relation "measure (\<lambda>(p, m, off, i). length p - i)") auto

definition FastCipher :: "bytes \<Rightarrow> mask \<Rightarrow> nat \<Rightarrow> bytes" where
  "FastCipher p m off =
     (if length p = 0 then p
      else (case fc_head p m off 0 of (p1, off1, i1) \<Rightarrow>
              case fc_words p1 m i1 of (p2, i2) \<Rightarrow> fc_tail p2 m off1 i2))"

declare fc_head.simps [simp del] fc_words.simps [simp del] fc_tail.simps [simp del]

lemma fc_tail_eq: "i \<le> length p \<Longrightarrow> fc_tail p m off i = take i p @ cipher_spec m off (drop i p)"
proof (induction p m off i rule: fc_tail.induct)
  case (1 p m off i)
  show ?case
  proof (cases "i < length p")
    case True
    let ?p = "p[i := p ! i XOR mask_at m (off AND 3)]"
    have "fc_tail p m off i = take (i + 1) ?p @ cipher_spec m (off + 1) (drop (i + 1) ?p)"
      using True 1 by (simp add: fc_tail.simps [of p])
    then show ?thesis
      using True by (simp add: take_Suc_conv_app_nth Cons_nth_drop_Suc [symmetric])
  next
    case False
    with 1 show ?thesis by (simp add: fc_tail.simps [of p])
  qed
qed

lemma fc_words_eq:
  "\<lbrakk>fc_words p m i = (p', i'); i \<le> length p; off mod 4 = 0\<rbrakk>
    \<Longrightarrow> fc_tail p' m off i' = take i p @ cipher_spec m off (drop i p)"
proof (induction p m i arbitrary: p' i' rule: fc_words.induct)
  case (1 p m i)
  show ?case
  proof (cases "i + 4 \<le> length p")
    case False
    with 1 show ?thesis by (simp add: fc_words.simps [of p] fc_tail_eq)
  next
    case True
    define q where "q = p[i := p ! i XOR mask_at m 0,
                       i + 1 := p ! (i + 1) XOR mask_at m 1,
                       i + 2 := p ! (i + 2) XOR mask_at m 2,
                       i + 3 := p ! (i + 3) XOR mask_at m 3]"
    from True "1.prems"(1) have "fc_words q m (i + 4) = (p', i')"
      by (simp add: fc_words.simps [of p] q_def)
    moreover have "i + 4 \<le> length q" using True by (simp add: q_def)
    ultimately have IH: "fc_tail p' m off i' = take (i + 4) q @ cipher_spec m off (drop (i + 4) q)"
      by (rule "1.IH" [OF True, folded q_def, OF _ _ "1.prems"(3)])
    obtain a b c d r where r: "drop i p = a # b # c # d # r"
    proof -
      have "Suc (Suc (Suc (Suc 0))) \<le> length (drop i p)" using True by simp
      then show thesis
        using that by (simp only: Suc_le_length_iff) blast
    qed
    then have p: "p = take i p @ a # b # c # d # r" and len: "length (take i p) = i"
      using append_take_drop_id [of i p] True by (metis, simp)
    have q: "q = take i p @ [a XOR mask_at m 0, b XOR mask_at m 1, c XOR mask_at m 2, d XOR mask_at m 3] @ r"
      unfolding q_def using len by (subst (1 2 3 4 5) p) (simp add: nth_append list_update_append)
    have "cipher_spec m (Suc (Suc (Suc (Suc off)))) r = cipher_spec m off r"
      by (rule cipher_spec_cong) (use \<open>off mod 4 = 0\<close> in presburger)
    moreover have "Suc off mod 4 = 1" "Suc (Suc off) mod 4 = 2" "Suc (Suc (Suc off)) mod 4 = 3"
      using \<open>off mod 4 = 0\<close> by presburger+
    ultimately have "cipher_spec m off (drop i p)
        = [a XOR mask_at m 0, b XOR mask_at m 1, c XOR mask_at m 2, d XOR mask_at m 3] @ cipher_spec m off r"
      by (simp add: r \<open>off mod 4 = 0\<close>)
    moreover have "take (i + 4) q = take i p @ [a XOR mask_at m 0, b XOR mask_at m 1, c XOR mask_at m 2, d XOR mask_at m 3]"
      and "drop (i + 4) q = r"
      using len unfolding q by simp_all
    ultimately show ?thesis using IH by simp
  qed
qed

lemma fc_head_eq:
  "\<lbrakk>fc_head p m off i = (p', off', i'); i \<le> length p\<rbrakk>
    \<Longrightarrow> i' \<le> length p' \<and> (off' mod 4 = 0 \<or> i' = length p')
      \<and> take i' p' @ cipher_spec m off' (drop i' p') = take i p @ cipher_spec m off (drop i p)"
proof (induction p m off i arbitrary: p' off' i' rule: fc_head.induct)
  case (1 p m off i)
  show ?case
  proof (cases "i < length p \<and> off AND 3 \<noteq> 0")
    case False
    with 1 show ?thesis by (auto simp: fc_head.simps [of p])
  next
    case True
    let ?p = "p[i := p ! i XOR mask_at m (off AND 3)]"
    from True "1.prems" have "fc_head ?p m (off + 1) (i + 1) = (p', off', i')" and "i + 1 \<le> length ?p"
      by (simp_all add: fc_head.simps [of p])
    from "1.IH" [OF True this] True show ?thesis
      by (simp add: take_Suc_conv_app_nth Cons_nth_drop_Suc [symmetric])
  qed
qed

lemma FastCipher_eq: "FastCipher p m off = cipher_spec m off p"
proof (cases "p = []")
  case True
  then show ?thesis by (simp add: FastCipher_def)
next
  case False
  obtain p1 off1 i1 where h: "fc_head p m off 0 = (p1, off1, i1)" by (metis prod_cases3)
  obtain p2 i2 where w: "fc_words p1 m i1 = (p2, i2)" by force
  note head = fc_head_eq [OF h]
  have "fc_tail p2 m off1 i2 = take i1 p1 @ cipher_spec m off1 (drop i1 p1)"
  proof (cases "off1 mod 4 = 0")
    case True
    with fc_words_eq [OF w] head show ?thesis by simp
  next
    case False
    with head have "i1 = length p1" by simp
    moreover with w have "p2 = p1" "i2 = i1" by (auto simp: fc_words.simps [of p1])
    ultimately show ?thesis by (simp add: fc_tail_eq)
  qed
  with head False h w show ?thesis by (simp add: FastCipher_def)
qed

section \<open>CipherReader\<close>

text \<open>
  \<open>c_r\<close> says whether the field \<open>r\<close> holds a reader: \<open>resetFragment\<close> and \<open>reset\<close> of the frame reader set it to
  \<open>nil\<close>, and reading then would be a nil call (\<^term>\<open>None\<close>).
\<close>

record cipher_reader =
  c_r :: bool
  c_m :: mask
  c_pos :: nat

definition NewCipherReader :: "mask \<Rightarrow> cipher_reader" where
  "NewCipherReader m = \<lparr>c_r = True, c_m = m, c_pos = 0\<rparr>"

definition cipher_reset :: "cipher_reader \<Rightarrow> bool \<Rightarrow> mask \<Rightarrow> cipher_reader" where
  "cipher_reset c r m = c\<lparr>c_r := r, c_m := m, c_pos := 0\<rparr>"

definition cipher_read :: "'s rd \<Rightarrow> (cipher_reader \<times> 's) rd" where
  "cipher_read rd = (\<lambda>(c, s) n.
     if \<not> c_r c then None
     else Option.bind (rd s n) (\<lambda>(s', bs, e).
       if 0 < length bs
       then Some ((c\<lparr>c_pos := (c_pos c + length bs) AND 3\<rparr>, s'), FastCipher bs (c_m c) (c_pos c), e)
       else Some ((c, s'), bs, e)))"

lemma cipher_read_Some:
  "cipher_read rd (c, s) n = Some (cs', bs', e) \<longleftrightarrow>
     c_r c \<and> (\<exists>s' bs. rd s n = Some (s', bs, e) \<and> bs' = cipher_spec (c_m c) (c_pos c) bs
       \<and> cs' = (if bs = [] then c else c\<lparr>c_pos := (c_pos c + length bs) mod 4\<rparr>, s'))"
  by (auto simp: cipher_read_def FastCipher_eq Let_def split: bind_splits if_splits)

context sticky_stream begin

lemma cipher_sticky:
  "sticky_stream (cipher_read rd) (\<lambda>(c, s). c_r c \<and> ok s)
     (\<lambda>(c, s). cipher_spec (c_m c) (c_pos c) (content s)) (\<lambda>(c, s). fin s) (\<lambda>(c, s). stall s)"
proof (unfold_locales, goal_cases)
  case (1 cs n)
  obtain c s where cs: "cs = (c, s)" by force
  with 1 have "ok s" by simp
  then obtain s' bs e where "rd s n = Some (s', bs, e)" by (rule rd_answers)
  with 1 show ?case by (simp add: cs cipher_read_def)
next
  case (2 cs n s' bs e)
  then show ?case by (cases cs) (auto simp: cipher_read_Some dest: rd_len)
next
  case (3 cs n s' bs)
  obtain c s where cs: "cs = (c, s)" by force
  with 3 obtain s1 b where ok: "c_r c" "ok s" and r: "rd s n = Some (s1, b, None)"
    and bs: "bs = cipher_spec (c_m c) (c_pos c) b"
    and s': "s' = (if b = [] then c else c\<lparr>c_pos := (c_pos c + length b) mod 4\<rparr>, s1)"
    by (auto simp: cipher_read_Some)
  from rd_more [OF ok(2) r] ok(1) show ?case
    by (cases b) (simp_all add: cs s' bs cipher_spec_append)
next
  case (4 cs n s' bs x)
  then show ?case using rd_err by (cases cs) (fastforce simp: cipher_read_Some)
next
  case (5 cs n s' bs x)
  then show ?case using rd_sticky by (cases cs) (fastforce simp: cipher_read_Some)
qed

end

end
