(* ===== verification/Header.thy ===== *)
theory Header
  imports Cipher
begin

text \<open>
  The frame header on the wire: \<open>packHeader\<close> of \<open>websocket/transport.go\<close> writes it, \<open>ReadHeader\<close> of
  \<open>websocket/internal/wsutils/frame_reader.go\<close> reads it.  \<open>encode_header\<close> and \<open>parse_header\<close> are the
  format of RFC 6455 (section 5.2) as pure functions; the two routines are proved to implement them, on
  any buffer and on any reader, and the two specifications to be inverse to each other.
\<close>

section \<open>The header\<close>

text \<open>The fields of \<open>ws.Header\<close> that the sources read and write.\<close>

record header =
  h_fin :: bool
  h_rsv :: byte
  h_op :: byte
  h_masked :: bool
  h_mask :: mask
  h_length :: i64

definition zero_header :: header where
  "zero_header = \<lparr>h_fin = False, h_rsv = 0, h_op = 0, h_masked = False, h_mask = Mask 0 0 0 0, h_length = 0\<rparr>"

fun mask_bytes :: "mask \<Rightarrow> bytes" where
  "mask_bytes (Mask a b c d) = [a, b, c, d]"

text \<open>\<open>copy(h.Mask[:], bts)\<close> into the zero mask.\<close>

definition mask_of :: "bytes \<Rightarrow> mask" where
  "mask_of bs = (case bs @ [0, 0, 0, 0] of a # b # c # d # _ \<Rightarrow> Mask a b c d)"

text \<open>Go's \<open>copy(dst[off:], src)\<close> for \<open>off \<le> len(dst)\<close>: the destination afterwards.\<close>

definition go_copy :: "bytes \<Rightarrow> nat \<Rightarrow> bytes \<Rightarrow> bytes" where
  "go_copy dst off src = take off dst @ take (length dst - off) src @ drop (off + length src) dst"

lemma length_mask_bytes [simp]: "length (mask_bytes m) = 4"
  by (cases m) simp

lemma mask_of_bytes [simp]: "mask_of (mask_bytes m) = m"
  by (cases m) (simp add: mask_of_def)

lemma length_go_copy [simp]: "off + length src \<le> length dst \<Longrightarrow> length (go_copy dst off src) = length dst"
  by (simp add: go_copy_def)

lemma take_go_copy:
  "off + length src \<le> length dst \<Longrightarrow> take (off + length src) (go_copy dst off src) = take off dst @ src"
  by (simp add: go_copy_def)

section \<open>Writing a header\<close>

text \<open>
  \<open>client\<close> is \<open>t.state.ClientSide()\<close>, \<open>op\<close> is \<open>t.opCode\<close>.  The result is the buffer, the length \<open>n\<close> and the
  error.  The buffer is the caller's slice of a pooled buffer: its bytes are arbitrary before the call.
\<close>

definition packHeader ::
    "bool \<Rightarrow> byte \<Rightarrow> bytes \<Rightarrow> bool \<Rightarrow> mask \<Rightarrow> i64 \<Rightarrow> bool \<Rightarrow> bytes \<times> nat \<times> err option" where
  "packHeader client op bts fin msk len compressed =
     (let bts = bts[0 := op];
          bts = (if fin then bts[0 := bts ! 0 OR 0x80] else bts);
          bts = (if compressed then bts[0 := bts ! 0 OR 0x40] else bts);
          (bts, n, err) =
            (if sint len \<le> 125 then (bts[1 := ucast len], 2, None)
             else if sint len \<le> 65535 then (go_copy (bts[1 := 126]) 2 (be_enc 2 (unat (ucast len :: 16 word))), 4, None)
             else if sint len \<le> 0x7FFFFFFFFFFFFFFF then (go_copy (bts[1 := 127]) 2 (be_enc 8 (unat len)), 10, None)
             else (bts, 0, Some ErrHeaderLengthUnexpected))
      in if client then (go_copy (bts[1 := bts ! 1 OR 0x80]) n (mask_bytes msk), n + 4, err)
         else (bts, n, err))"

text \<open>The format, for a payload length below \<open>2^63\<close>.\<close>

definition length_code :: "nat \<Rightarrow> byte \<times> bytes" where
  "length_code len = (if len \<le> 125 then (word_of_nat len, [])
     else if len \<le> 65535 then (126, be_enc 2 len)
     else (127, be_enc 8 len))"

definition encode_header :: "bool \<Rightarrow> bool \<Rightarrow> byte \<Rightarrow> mask option \<Rightarrow> nat \<Rightarrow> bytes" where
  "encode_header fin rsv1 op m len =
     (case length_code len of (l, ext) \<Rightarrow>
       [op OR (if fin then 0x80 else 0) OR (if rsv1 then 0x40 else 0),
        l OR (if m = None then 0 else 0x80)]
       @ ext @ (case m of None \<Rightarrow> [] | Some k \<Rightarrow> mask_bytes k))"

lemma encode_header_length: "length (encode_header fin rsv1 op m len) \<le> 14"
  by (auto simp: encode_header_def length_code_def split: option.splits)

lemma sint_nonneg_unat:
  assumes "0 \<le> sint (x :: i64)" shows "sint x = int (unat x)"
proof -
  have "take_bit 64 (sint x) = sint x"
    using assms sint_lt [of x] by (simp add: take_bit_int_eq_self)
  then show ?thesis using uint_sint [of x] by simp
qed

lemma unat_i64_small: "n < 2 ^ 63 \<Longrightarrow> sint (word_of_nat n :: i64) = int n"
  by (simp add: signed_of_nat signed_take_bit_int_eq_self)

lemma unat_i64_of_nat: "n < 2 ^ 63 \<Longrightarrow> unat (word_of_nat n :: i64) = n"
  by (simp add: unat_of_nat)

text \<open>
  \<open>packHeader\<close> never fails on a length that is an \<open>int64\<close> (the \<open>default\<close> branch is dead), stays within
  the 14 bytes of the buffer, and writes exactly the format, whatever the buffer held.
\<close>

lemma packHeader_no_error:
  "packHeader client op bts fin m len compressed = (bts', n, e) \<Longrightarrow> e = None"
  using sint_lt [of len]
  by (auto simp: packHeader_def Let_def split: if_splits)

lemma list8: "length bts = 8 \<Longrightarrow> \<exists>a b c d e f g h. bts = [a,b,c,d,e,f,g,h]"
  by (auto simp: length_Suc_conv numeral_eq_Suc)

lemma list14: "length bts = 14 \<Longrightarrow> \<exists>a b c d e f g h i j k l m n. bts = [a,b,c,d,e,f,g,h,i,j,k,l,m,n]"
  by (auto simp: length_Suc_conv numeral_eq_Suc)

lemma packHeader_encodes:
  assumes "length bts = 14" and "len < 2 ^ 63"
    and "packHeader client op bts fin m (word_of_nat len) compressed = (bts', n, e)"
  shows "e = None \<and> length bts' = 14 \<and> n \<le> 14
    \<and> take n bts' = encode_header fin compressed op (if client then Some m else None) len"
proof -
  note sint = unat_i64_small [OF assms(2)] and unat = unat_i64_of_nat [OF assms(2)]
  have u16: "unat (ucast (word_of_nat len :: i64) :: 16 word) = len" if "len \<le> 65535"
    using that unat by (simp add: unsigned_ucast_eq take_bit_nat_eq_self)
  have u8: "ucast (word_of_nat len :: i64) = (word_of_nat len :: byte)" if "len \<le> 125"
    by (rule unsigned_word_eqI) (use that in \<open>simp add: unsigned_ucast_eq unsigned_of_nat take_bit_nat_eq_self\<close>)
  obtain a b c d e' f g h i j k l q r where bts: "bts = [a,b,c,d,e',f,g,h,i,j,k,l,q,r]"
    using list14 [OF assms(1)] by blast
  obtain m0 m1 m2 m3 where m: "m = Mask m0 m1 m2 m3" by (cases m)
  consider (7) "len \<le> 125" | (16) "125 < len" "len \<le> 65535" | (64) "65535 < len" by linarith
  then show ?thesis
  proof cases
    case 7
    then show ?thesis using assms(3)
      by (cases client) (auto simp: packHeader_def bts m Let_def sint u8 go_copy_def encode_header_def length_code_def or.assoc)
  next
    case 16
    have "be_enc 2 len = [word_of_nat (len div 256), word_of_nat len]" by (simp add: numeral_2_eq_2)
    with 16 show ?thesis using assms(3)
      by (cases client) (auto simp: packHeader_def bts m Let_def sint u16 go_copy_def encode_header_def length_code_def or.assoc)
  next
    case 64
    obtain x0 x1 x2 x3 x4 x5 x6 x7 where "be_enc 8 len = [x0,x1,x2,x3,x4,x5,x6,x7]"
      using list8 [of "be_enc 8 len"] by auto
    with 64 show ?thesis using assms(2,3)
      by (cases client) (auto simp: packHeader_def bts m Let_def sint unat go_copy_def encode_header_def length_code_def or.assoc)
  qed
qed

section \<open>Reading a header\<close>

text \<open>
  The header and its error.  \<open>extra\<close> is at most 12, the capacity of the slice the code cuts from its
  14-byte buffer (\<open>bts[: 2 : ws.MaxHeaderSize-2]\<close>), so \<open>bts[:extra]\<close> is in range.
\<close>

definition header_extra :: "byte \<Rightarrow> nat" where
  "header_extra b1 =
     (if b1 AND 0x80 \<noteq> 0 then 4 else 0) +
     (if b1 AND 0x7f = 126 then 2 else if b1 AND 0x7f = 127 then 8 else 0)"

definition ReadHeader :: "'s rd \<Rightarrow> 's \<Rightarrow> ('s \<times> header \<times> err option) option" where
  "ReadHeader rd s =
     Option.bind (read_full rd s 2) (\<lambda>(s, bts, e).
       case e of Some x \<Rightarrow> Some (s, zero_header, Some x)
       | None \<Rightarrow>
         (let h = zero_header\<lparr>h_fin := bts ! 0 AND 0x80 \<noteq> 0,
                              h_rsv := drop_bit 4 (bts ! 0 AND 0x70),
                              h_op := bts ! 0 AND 0x0f,
                              h_masked := bts ! 1 AND 0x80 \<noteq> 0\<rparr>;
              len = bts ! 1 AND 0x7f;
              extra = header_extra (bts ! 1)
          in if \<not> (len < 126 \<or> len = 126 \<or> len = 127) then Some (s, h, Some ErrHeaderLengthUnexpected)
             else let h = (if len < 126 then h\<lparr>h_length := ucast len\<rparr> else h)
             in if extra = 0 then Some (s, h, None)
             else Option.bind (read_full rd s extra) (\<lambda>(s, bts, e).
               case e of Some x \<Rightarrow> Some (s, h, Some x)
               | None \<Rightarrow>
                 (if len = 126 then
                    let h = h\<lparr>h_length := word_of_nat (be_dec (take 2 bts))\<rparr>
                    in Some (s, if h_masked h then h\<lparr>h_mask := mask_of (drop 2 bts)\<rparr> else h, None)
                  else if len = 127 then
                    (if bts ! 0 AND 0x80 \<noteq> 0 then Some (s, h, Some ErrHeaderLengthMSB)
                     else let h = h\<lparr>h_length := word_of_nat (be_dec (take 8 bts))\<rparr>
                     in Some (s, if h_masked h then h\<lparr>h_mask := mask_of (drop 8 bts)\<rparr> else h, None))
                  else Some (s, if h_masked h then h\<lparr>h_mask := mask_of bts\<rparr> else h, None)))))"

text \<open>
  The format read back: what the first bytes of a stream say.  \<open>Parsed h rest\<close> is a whole header and the
  bytes after it, \<open>TooShort\<close> a stream that ends inside the header, \<open>LengthMSB\<close> a 64-bit length with its
  top bit set.
\<close>

datatype parsed = Parsed header bytes | TooShort | LengthMSB

definition parse_header :: "bytes \<Rightarrow> parsed" where
  "parse_header bs =
     (case bs of
        b0 # b1 # r \<Rightarrow>
          let l = b1 AND 0x7f;
              lsz = (if l = 126 then 2 else if l = 127 then 8 else 0);
              ext = take lsz r;
              r1 = drop lsz r;
              msz = (if b1 AND 0x80 \<noteq> 0 then 4 else 0)
          in if length r < lsz + msz then TooShort
             else if l = 127 \<and> hd ext AND 0x80 \<noteq> 0 then LengthMSB
             else Parsed \<lparr>h_fin = b0 AND 0x80 \<noteq> 0, h_rsv = drop_bit 4 (b0 AND 0x70), h_op = b0 AND 0x0f,
                          h_masked = b1 AND 0x80 \<noteq> 0,
                          h_mask = (if b1 AND 0x80 \<noteq> 0 then mask_of (take 4 r1) else Mask 0 0 0 0),
                          h_length = (if lsz = 0 then ucast l else word_of_nat (be_dec ext))\<rparr>
                    (drop msz r1)
      | _ \<Rightarrow> TooShort)"

lemma header_extra_le: "header_extra b1 \<le> 12"
  by (simp add: header_extra_def)

lemma byte_7f_cases: "(b :: byte) AND 0x7f < 126 \<or> b AND 0x7f = 126 \<or> b AND 0x7f = 127"
proof -
  have "b AND 0x7f \<le> 0x7f" by (rule word_and_le1)
  then have "unat (b AND 0x7f) \<le> 127" by (simp add: word_le_nat_alt)
  then have "unat (b AND 0x7f) < 126 \<or> unat (b AND 0x7f) = 126 \<or> unat (b AND 0x7f) = 127" by arith
  then show ?thesis by (auto simp: word_less_nat_alt word_unat_eq_iff)
qed

lemma ReadHeader_keeps:
  assumes step: "\<And>s n s' bs e. \<lbrakk>I s; rd s n = Some (s', bs, e)\<rbrakk> \<Longrightarrow> I s'"
    and "ReadHeader rd s = Some (s', h, e)" and "I s"
  shows "I s'"
proof -
  have keep: "I s2" if "read_full rd s1 k = Some (s2, b, x)" "I s1" for s1 s2 k b x
    using step that by (rule read_full_keeps)
  obtain s1 b x where r: "read_full rd s 2 = Some (s1, b, x)"
    using assms(2) by (cases "read_full rd s 2") (auto simp: ReadHeader_def)
  have s': "s' = s1 \<or> (\<exists>k b2 x2. read_full rd s1 k = Some (s', b2, x2))"
    using assms(2) r by (auto simp: ReadHeader_def Let_def split: option.splits if_splits dest!: bind_eq_SomeD)
  from keep [OF r \<open>I s\<close>] s' show "I s'" using keep by blast
qed

context sticky_stream begin

text \<open>\<open>ReadHeader\<close> on a reader is \<open>parse_header\<close> on its content.\<close>

lemma ReadHeader_Parsed:
  assumes "ok s" and "parse_header (content s) = Parsed h rest"
  shows "\<exists>s'. ReadHeader rd s = Some (s', h, None) \<and> ok s' \<and> content s' = rest \<and> fin s' = fin s"
proof -
  obtain b0 b1 r where c: "content s = b0 # b1 # r"
    using assms(2) by (auto simp: parse_header_def split: list.splits)
  obtain s1 where r1: "read_full rd s 2 = Some (s1, [b0, b1], None)" and
    s1: "ok s1" "content s1 = r" "fin s1 = fin s"
    using read_full_enough [OF assms(1), of 2] c by auto
  let ?l = "b1 AND 0x7f"
  define lsz where "lsz = (if ?l = 126 then 2 else if ?l = 127 then 8 else (0::nat))"
  define msz where "msz = (if b1 AND 0x80 \<noteq> 0 then 4 else (0::nat))"
  have ex: "header_extra b1 = lsz + msz"
    by (simp add: header_extra_def lsz_def msz_def)
  from assms(2) c have long: "lsz + msz \<le> length r"
    and msb: "\<not> (?l = 127 \<and> hd (take lsz r) AND 0x80 \<noteq> 0)"
    and rest: "rest = drop (lsz + msz) r"
    by (auto simp: parse_header_def Let_def lsz_def msz_def add.commute split: if_splits)
  obtain s2 where r2: "read_full rd s1 (lsz + msz) = Some (s2, take (lsz + msz) r, None)" and
    s2: "ok s2" "content s2 = rest" "fin s2 = fin s"
    using read_full_enough [OF s1(1), of "lsz + msz"] long s1 rest by auto
  from assms(2) c long msb have h: "h = \<lparr>h_fin = b0 AND 0x80 \<noteq> 0, h_rsv = drop_bit 4 (b0 AND 0x70),
      h_op = b0 AND 0x0f, h_masked = b1 AND 0x80 \<noteq> 0,
      h_mask = (if b1 AND 0x80 \<noteq> 0 then mask_of (take 4 (drop lsz r)) else Mask 0 0 0 0),
      h_length = (if lsz = 0 then ucast ?l else word_of_nat (be_dec (take lsz r)))\<rparr>"
    by (auto simp: parse_header_def Let_def lsz_def msz_def split: if_splits)
  have mk: "drop lsz (take (lsz + 4) r) = take 4 (drop lsz r)" by (simp add: drop_take)
  have hd: "?l = 127 \<Longrightarrow> take (8 + n) r ! 0 AND 0x80 = 0" for n
    using msb long by (cases r) (simp_all add: lsz_def)
  consider (short) "?l < 126" "lsz = 0" | (two) "?l = 126" "lsz = 2" | (eight) "?l = 127" "lsz = 8"
    using byte_7f_cases [of b1] unfolding lsz_def by force
  then show ?thesis
  proof cases
    case short
    then show ?thesis using r1 r2 s1 s2 rest
      by (cases "msz = 0") (auto simp: ReadHeader_def Let_def ex h zero_header_def msz_def split: if_splits)
  next
    case two
    then show ?thesis using r1 r2 s2 mk
      by (auto simp: ReadHeader_def Let_def ex h zero_header_def msz_def min_def split: if_splits)
  next
    case eight
    then show ?thesis using r1 r2 s2 mk hd [of 0] hd [of 4]
      by (auto simp: ReadHeader_def Let_def ex h zero_header_def msz_def min_def split: if_splits)
  qed
qed

text \<open>A stream that ends inside the header, or a length with its top bit set, is an error.\<close>

lemma ReadHeader_TooShort:
  assumes "ok s" and "parse_header (content s) = TooShort"
  shows "\<exists>s' h x. x \<in> fin s \<and> ReadHeader rd s = Some (s', h, Some (if x = EOF \<and> length (content s) \<notin> {0, 2} then ErrUnexpectedEOF else x))"
proof (cases "length (content s) < 2")
  case True
  from read_full_short [OF assms(1) True] obtain s' x where x: "x \<in> fin s" and
    r: "read_full rd s 2 = Some (s', content s, Some (if content s \<noteq> [] \<and> x = EOF then ErrUnexpectedEOF else x))"
    by blast
  have "length (content s) \<notin> {0, 2} \<longleftrightarrow> content s \<noteq> []" using True by auto
  with x r show ?thesis by (intro exI [of _ s'] exI [of _ zero_header] exI [of _ x]) (auto simp: ReadHeader_def)
next
  case False
  then obtain b0 b1 r where c: "content s = b0 # b1 # r"
    by (cases "content s" rule: remdups_adj.cases) auto
  obtain s1 where r1: "read_full rd s 2 = Some (s1, [b0, b1], None)" and
    s1: "ok s1" "content s1 = r" "fin s1 = fin s"
    using read_full_enough [OF assms(1), of 2] c by auto
  have short: "length (content s1) < header_extra b1"
    using assms(2) c s1 by (auto simp: parse_header_def Let_def header_extra_def split: if_splits)
  from read_full_short [OF s1(1) short] obtain s2 x where x: "x \<in> fin s" and
    r2: "read_full rd s1 (header_extra b1) = Some (s2, r, Some (if r \<noteq> [] \<and> x = EOF then ErrUnexpectedEOF else x))"
    using s1 by auto
  have "length (content s) \<notin> {0, 2} \<longleftrightarrow> r \<noteq> []" using c by auto
  moreover have "header_extra b1 \<noteq> 0" using short by simp
  ultimately show ?thesis using r1 r2 x byte_7f_cases [of b1]
    by (intro exI [of _ s2] exI [of _ x]) (auto simp: ReadHeader_def Let_def)
qed

lemma ReadHeader_LengthMSB:
  assumes "ok s" and "parse_header (content s) = LengthMSB"
  shows "\<exists>s' h. ReadHeader rd s = Some (s', h, Some ErrHeaderLengthMSB)"
proof -
  obtain b0 b1 r where c: "content s = b0 # b1 # r"
    using assms(2) by (auto simp: parse_header_def split: list.splits)
  obtain s1 where r1: "read_full rd s 2 = Some (s1, [b0, b1], None)" and
    s1: "ok s1" "content s1 = r" "fin s1 = fin s"
    using read_full_enough [OF assms(1), of 2] c by auto
  from assms(2) c have l: "b1 AND 0x7f = 127" and msb: "hd (take 8 r) AND 0x80 \<noteq> 0"
    and long: "header_extra b1 \<le> length r"
    by (auto simp: parse_header_def Let_def header_extra_def split: if_splits)
  obtain s2 where r2: "read_full rd s1 (header_extra b1) = Some (s2, take (header_extra b1) r, None)"
    using read_full_enough [OF s1(1), of "header_extra b1"] long s1 by auto
  have "header_extra b1 = 8 \<or> header_extra b1 = 12" using l by (simp add: header_extra_def)
  then have "take (header_extra b1) r ! 0 AND 0x80 \<noteq> 0" "header_extra b1 \<noteq> 0"
    using msb long by (cases r; auto)+
  with r1 r2 l show ?thesis by (auto simp: ReadHeader_def Let_def)
qed

text \<open>So \<open>ReadHeader\<close> returns, whatever the bytes are.\<close>

lemma ReadHeader_returns:
  assumes "ok s" shows "\<exists>r. ReadHeader rd s = Some r"
  using ReadHeader_Parsed [OF assms] ReadHeader_TooShort [OF assms] ReadHeader_LengthMSB [OF assms]
  by (cases "parse_header (content s)") blast+

end

section \<open>Bits of a byte\<close>

lemma low_nibble_parts:
  assumes "(op :: byte) AND 0x0f = op"
  shows "op AND 0x80 = 0" "op AND 0x70 = 0"
proof -
  have "op AND 0x80 = op AND (0x0f AND 0x80)" and "op AND 0x70 = op AND (0x0f AND 0x70)"
    using assms by (metis and.assoc)+
  then show "op AND 0x80 = 0" "op AND 0x70 = 0" by simp_all
qed

lemma seven_bits:
  assumes "n < 128"
  shows "(word_of_nat n :: byte) AND 0x7f = word_of_nat n" "(word_of_nat n :: byte) AND 0x80 = 0"
proof -
  have "(word_of_nat n :: byte) AND mask 7 = take_bit 7 (word_of_nat n)"
    by (simp only: take_bit_eq_mask)
  also have "\<dots> = word_of_nat n"
    by (rule unsigned_word_eqI [where ?'a = nat])
       (use assms in \<open>simp add: unsigned_take_bit_eq unsigned_of_nat take_bit_nat_eq_self\<close>)
  finally show a: "(word_of_nat n :: byte) AND 0x7f = word_of_nat n"
    by (simp add: mask_eq_exp_minus_1)
  have "(word_of_nat n :: byte) AND 0x80 = word_of_nat n AND (0x7f AND 0x80)"
    by (metis a and.assoc)
  then show "(word_of_nat n :: byte) AND 0x80 = 0" by simp
qed

lemma msb_clear_less: "(b :: byte) AND 0x80 = 0 \<Longrightarrow> unat b < 128"
proof -
  assume "b AND 0x80 = 0"
  then have "b AND 0x7f = b AND (0x7f OR 0x80)" by (simp only: word_ao_dist2) simp
  also have "(0x7f OR 0x80 :: byte) = -1" by simp
  also have "b AND -1 = b" by simp
  finally have "b \<le> 0x7f" using word_and_le1 [of b "0x7f"] by metis
  then show "unat b < 128" by (simp add: word_le_nat_alt)
qed

text \<open>A parsed length is a non-negative \<open>int64\<close>.\<close>

lemma parse_header_length:
  assumes "parse_header bs = Parsed h rest" shows "0 \<le> sint (h_length h)"
proof -
  obtain b0 b1 r where bs: "bs = b0 # b1 # r"
    using assms by (auto simp: parse_header_def split: list.splits)
  have "b1 AND 0x7f \<le> 0x7f" by (rule word_and_le1)
  then have l7: "unat (b1 AND 0x7f) \<le> 127" by (simp add: word_le_nat_alt)
  have small: "\<exists>n < 2 ^ 63. h_length h = word_of_nat n"
  proof (cases "b1 AND 0x7f = 127")
    case True
    with assms bs have len: "8 \<le> length r" and msb: "hd (take 8 r) AND 0x80 = 0"
      and h: "h_length h = word_of_nat (be_dec (take 8 r))"
      by (auto simp: parse_header_def Let_def split: if_splits)
    from len obtain b r' where r: "take 8 r = b # r'" "length r' = 7"
      by (cases r) auto
    have "unat b < 128" using msb r by (intro msb_clear_less) simp
    then have "be_dec (take 8 r) < 2 ^ 63"
      using be_dec_less [of r'] r by (simp add: be_dec_Cons)
    with h show ?thesis by blast
  next
    case False
    show ?thesis
    proof (cases "b1 AND 0x7f = 126")
      case True
      with assms bs have len: "2 \<le> length r" and h: "h_length h = word_of_nat (be_dec (take 2 r))"
        by (auto simp: parse_header_def Let_def split: if_splits)
      have "be_dec (take 2 r) < 2 ^ 63"
        using be_dec_less [of "take 2 r"] len by simp
      with h show ?thesis by blast
    next
      case no: False
      with False assms bs have "h_length h = ucast (b1 AND 0x7f)"
        by (auto simp: parse_header_def Let_def split: if_splits)
      also have "\<dots> = word_of_nat (unat (b1 AND 0x7f))" by (simp add: unsigned_ucast_eq)
      finally show ?thesis using l7 by (intro exI [of _ "unat (b1 AND 0x7f)"]) simp
    qed
  qed
  then show ?thesis by (auto simp: unat_i64_small)
qed

section \<open>The two formats agree\<close>

lemma first_byte:
  fixes fin rsv1 :: bool
  assumes "(op :: byte) AND 0x0f = op"
  defines "b \<equiv> op OR (if fin then 0x80 else 0) OR (if rsv1 then 0x40 else 0)"
  shows "b AND 0x80 \<noteq> 0 \<longleftrightarrow> fin" "drop_bit 4 (b AND 0x70) = (if rsv1 then 4 else 0)" "b AND 0x0f = op"
  using low_nibble_parts [OF assms(1)] assms(1) by (simp_all add: b_def word_ao_dist)

lemma second_byte:
  fixes masked :: bool
  assumes "n < 128"
  defines "b \<equiv> (word_of_nat n :: byte) OR (if masked then 0x80 else 0)"
  shows "b AND 0x80 \<noteq> 0 \<longleftrightarrow> masked" "b AND 0x7f = word_of_nat n"
  using seven_bits [OF assms(1)] by (simp_all add: b_def word_ao_dist)

lemma parse_encode_header:
  assumes op: "op AND 0x0f = op" and len: "len < 2 ^ 63"
  shows "parse_header (encode_header fin rsv1 op m len @ rest) =
    Parsed \<lparr>h_fin = fin, h_rsv = (if rsv1 then 4 else 0), h_op = op, h_masked = (m \<noteq> None),
            h_mask = (case m of None \<Rightarrow> Mask 0 0 0 0 | Some k \<Rightarrow> k), h_length = word_of_nat len\<rparr> rest"
proof -
  obtain l ext where code: "length_code len = (word_of_nat l, ext)" and l: "l < 128"
    and kind: "l < 126 \<and> ext = [] \<and> l = len \<or> l = 126 \<and> ext = be_enc 2 len \<and> len < 65536
      \<or> l = 127 \<and> ext = be_enc 8 len"
    by (rule that [of "if len \<le> 125 then len else if len \<le> 65535 then 126 else 127" "snd (length_code len)"])
       (auto simp: length_code_def)
  have unat_l: "unat (word_of_nat l :: byte) = l" using l by (simp add: unsigned_of_nat take_bit_nat_eq_self)
  have eq126: "(word_of_nat l :: byte) = 126 \<longleftrightarrow> l = 126" and eq127: "(word_of_nat l :: byte) = 127 \<longleftrightarrow> l = 127"
    using unat_l by auto
  have msb: "hd (be_enc 8 len) AND 0x80 = 0"
    using hd_be_enc [of 7 len] seven_bits(2) [of "len div 256 ^ 7"] len by (simp add: less_mult_imp_div_less)
  have dec: "be_dec (be_enc 8 len) = len" "len < 65536 \<Longrightarrow> be_dec (be_enc 2 len) = len"
    using len by (simp_all add: be_dec_enc)
  have len7: "l < 126 \<Longrightarrow> ucast (word_of_nat l :: byte) = (word_of_nat l :: i64)"
    by (simp add: unsigned_of_nat take_bit_nat_eq_self)
  obtain b0 where b0: "b0 = op OR (if fin then 0x80 else 0) OR (if rsv1 then 0x40 else 0)" by simp
  obtain b1 where b1: "b1 = (word_of_nat l :: byte) OR (if m \<noteq> None then 0x80 else 0)" by simp
  note bits = first_byte [OF op, of fin rsv1, folded b0] second_byte [OF l, of "m \<noteq> None", folded b1]
  have "encode_header fin rsv1 op m len = b0 # b1 # ext @ (case m of None \<Rightarrow> [] | Some k \<Rightarrow> mask_bytes k)"
    by (simp add: encode_header_def code b0 b1)
  then have enc: "encode_header fin rsv1 op m len @ rest
      = b0 # b1 # ext @ (case m of None \<Rightarrow> [] | Some k \<Rightarrow> mask_bytes k) @ rest" by simp
  from kind consider (short) "l < 126" "ext = []" "len = l" | (two) "l = 126" "ext = be_enc 2 len" "len < 65536"
    | (eight) "l = 127" "ext = be_enc 8 len" by blast
  then show ?thesis
  proof cases
    case short
    then show ?thesis
      unfolding enc by (cases m) (simp_all add: parse_header_def Let_def bits eq126 eq127 len7 del: drop_bit_and)
  next
    case two
    then show ?thesis
      unfolding enc by (cases m) (simp_all add: parse_header_def Let_def bits dec del: drop_bit_and)
  next
    case eight
    then show ?thesis
      unfolding enc by (cases m) (simp_all add: parse_header_def Let_def bits dec msb del: drop_bit_and)
  qed
qed

end
