(* ===== verification/Flate.thy ===== *)
theory Flate
  imports Header
begin

text \<open>
  \<open>websocket/internal/wsutils/flate_wrapper.go\<close>: the wrappers that make a DEFLATE stream a
  permessage-deflate payload.  \<open>cbuf\<close> holds back the last four bytes of what the compressor writes, so
  that \<open>FlateWriter.Flush\<close> can check that they are \<open>00 00 ff ff\<close> and leave them out;
  \<open>suffixedReader\<close> puts them back behind the payload that \<open>FlateReader\<close> decompresses.

  The compressor and the decompressor are the interfaces \<open>Compressor\<close> and \<open>Decompressor\<close>; their
  implementations (\<open>compress/flate\<close>, \<open>klauspost/compress\<close>) come in through the constructor \<open>ctor\<close> and are
  parameters here: \<open>comp_ops\<close> and \<open>dec_ops\<close>.
\<close>

definition compressionTail :: bytes where
  "compressionTail = [0, 0, 0xff, 0xff]"

definition compressionReadTail :: bytes where
  "compressionReadTail = [0, 0, 0xff, 0xff]"

section \<open>cbuf\<close>

text \<open>
  \<open>cb_buf\<close> is Go's \<open>[4]byte\<close>.  The destination is a writer \<open>dw\<close> on a state \<open>'w\<close>.
\<close>

type_synonym 'w sink = "'w \<Rightarrow> bytes \<Rightarrow> 'w \<times> nat \<times> err option"

record cbuf =
  cb_buf :: bytes
  cb_n :: nat
  cb_err :: "err option"

definition cbuf_reset :: cbuf where
  "cbuf_reset = \<lparr>cb_buf = [0, 0, 0, 0], cb_n = 0, cb_err = None\<rparr>"

definition cbuf_split :: "bytes \<Rightarrow> bytes \<times> bytes" where
  "cbuf_split p = (if 4 < length p then (take (length p - 4) p, drop (length p - 4) p) else ([], p))"

definition cbuf_flush :: "'w sink \<Rightarrow> cbuf \<times> 'w \<Rightarrow> bytes \<Rightarrow> cbuf \<times> 'w" where
  "cbuf_flush dw = (\<lambda>(c, w) p.
     if cb_err c = None then (case dw w p of (w', _, e) \<Rightarrow> (c\<lparr>cb_err := e\<rparr>, w')) else (c, w))"

definition cbuf_write :: "'w sink \<Rightarrow> (cbuf \<times> 'w) sink" where
  "cbuf_write dw = (\<lambda>(c, w) p.
     if cb_err c \<noteq> None then ((c, w), 0, cb_err c)
     else
       (case cbuf_split p of (head, tail) \<Rightarrow>
         let n = cb_n c + length tail;
             (c, w) = (if 4 < n then
                 let x = n - 4;
                     (c, w) = cbuf_flush dw (c, w) (take x (cb_buf c))
                 in (c\<lparr>cb_buf := go_copy (cb_buf c) 0 (drop x (cb_buf c)), cb_n := cb_n c - x\<rparr>, w)
               else (c, w));
             (c, w) = (if 0 < length head then cbuf_flush dw (c, w) head else (c, w));
             c = c\<lparr>cb_buf := go_copy (cb_buf c) (cb_n c) tail,
                   cb_n := min (cb_n c + length tail) 4\<rparr>
         in ((c, w), length p, cb_err c)))"

text \<open>\<open>bytes.Buffer\<close>, the destination in this program, appends and never fails.\<close>

definition buffer_write :: "bytes sink" where
  "buffer_write w p = (w @ p, length p, None)"

text \<open>
  What \<open>cbuf\<close> keeps: all that came in is the destination followed by the buffered bytes, and the
  buffer holds the last four of them (all, if fewer, padded with zeros).
\<close>

definition cbuf_inv :: "bytes \<Rightarrow> cbuf \<times> bytes \<Rightarrow> bool" where
  "cbuf_inv tot = (\<lambda>(c, w). cb_err c = None \<and> cb_n c = min 4 (length tot)
     \<and> cb_buf c = drop (length tot - 4) tot @ replicate (4 - length tot) 0
     \<and> w = take (length tot - 4) tot)"

lemma replicate_upto_4:
  "replicate 4 x = [x, x, x, x]" "replicate 3 x = [x, x, x]" "replicate 2 x = [x, x]"
  by (simp_all add: numeral_eq_Suc)

lemma cbuf_inv_reset: "cbuf_inv [] (cbuf_reset, [])"
  by (simp add: cbuf_inv_def cbuf_reset_def numeral_eq_Suc)

lemma cbuf_write_inv:
  assumes "cbuf_inv tot (c, w)"
  shows "\<exists>c' w'. cbuf_write buffer_write (c, w) p = ((c', w'), length p, None) \<and> cbuf_inv (tot @ p) (c', w')"
proof (cases "4 < length p")
  case True
  then obtain p0 a b c' d where p: "p = p0 @ [a, b, c', d]"
    using last_4 [of p] by (metis less_imp_le_nat)
  with True have "p0 \<noteq> []" by auto
  then show ?thesis using assms
    by (cases tot rule: short_or_last_4)
       (auto simp: p cbuf_inv_def cbuf_write_def cbuf_split_def cbuf_flush_def buffer_write_def go_copy_def numeral_eq_Suc)
next
  case False
  then consider "p = []" | a where "p = [a]" | a b where "p = [a, b]" | a b c where "p = [a, b, c]"
    | a b c d where "p = [a, b, c, d]"
    by (cases p rule: short_or_last_4) auto
  then show ?thesis using assms
    by cases (cases tot rule: short_or_last_4;
      auto simp: cbuf_inv_def cbuf_write_def cbuf_split_def cbuf_flush_def buffer_write_def go_copy_def numeral_eq_Suc Let_def)+
qed

lemma cbuf_inv_append:
  assumes "cbuf_inv (tot @ p) (c, w)" and "length p = 4"
  shows "w = tot \<and> cb_buf c = p"
  using assms by (simp add: cbuf_inv_def)

text \<open>The buffer shows the tail exactly when the stream ends with it.\<close>

lemma cbuf_inv_tail:
  assumes "cbuf_inv tot (c, w)"
  shows "cb_buf c = compressionTail \<longleftrightarrow> tot = w @ compressionTail"
  using assms
  by (cases tot rule: short_or_last_4) (auto simp: cbuf_inv_def compressionTail_def replicate_upto_4)

section \<open>FlateWriter\<close>

text \<open>
  A compressor of type \<open>'c\<close>: what \<open>ctor\<close> returns (\<^term>\<open>None\<close> for the \<open>nil\<close> pointer that \<open>flate.NewWriter\<close> and
  \<open>NewWriterWindow\<close> return with an error, which the constructors of this repository drop), its \<open>Reset\<close> and
  \<open>Close\<close> if it has them, and for \<open>Write\<close>, \<open>Flush\<close> and \<open>Close\<close> the blocks it hands to the writer below.
\<close>

record 'c comp_ops =
  c_new :: "'c option"
  c_reset :: "('c \<Rightarrow> 'c) option"
  c_write :: "'c \<Rightarrow> bytes \<Rightarrow> 'c \<times> bytes list \<times> nat \<times> err option"
  c_flush :: "'c \<Rightarrow> 'c \<times> bytes list \<times> err option"
  c_close :: "('c \<Rightarrow> 'c \<times> bytes list \<times> err option) option"

text \<open>
  \<open>fw_c\<close> is the interface field \<open>c\<close>: \<^term>\<open>None\<close> before the first \<open>Reset\<close>, \<open>Some None\<close> if it holds a
  \<open>nil\<close> pointer (calling a method on it panics).
\<close>

record 'c flate_writer =
  fw_c :: "'c option option"
  fw_cbuf :: cbuf
  fw_err :: "err option"

definition fw_Err :: "'c flate_writer \<Rightarrow> err option" where
  "fw_Err w = fw_err w"

definition blocks_write :: "'w sink \<Rightarrow> cbuf \<times> 'w \<Rightarrow> bytes list \<Rightarrow> cbuf \<times> 'w" where
  "blocks_write dw cw bs = foldl (\<lambda>cw b. fst (cbuf_write dw cw b)) cw bs"

definition fw_reset :: "'c comp_ops \<Rightarrow> 'c flate_writer \<Rightarrow> 'c flate_writer option" where
  "fw_reset C fw =
     (let fw = fw\<lparr>fw_err := None, fw_cbuf := cbuf_reset\<rparr>
      in case (fw_c fw, c_reset C) of
           (Some (Some c), Some reset) \<Rightarrow> Some (fw\<lparr>fw_c := Some (Some (reset c))\<rparr>)
         | (Some None, Some reset) \<Rightarrow> None
         | _ \<Rightarrow> Some (fw\<lparr>fw_c := Some (c_new C)\<rparr>))"

definition NewFlateWriter :: "'c comp_ops \<Rightarrow> 'c flate_writer option" where
  "NewFlateWriter C = fw_reset C \<lparr>fw_c = None, fw_cbuf = cbuf_reset, fw_err = None\<rparr>"

definition fw_checkTail :: "'c flate_writer \<Rightarrow> 'c flate_writer" where
  "fw_checkTail fw =
     (if fw_err fw = None \<and> cb_buf (fw_cbuf fw) \<noteq> compressionTail
      then fw\<lparr>fw_err := Some (Errorf ''wsflate: bad compressor: unexpected stream tail'')\<rparr>
      else fw)"

definition fw_write :: "'c comp_ops \<Rightarrow> 'w sink \<Rightarrow> 'c flate_writer \<Rightarrow> 'w \<Rightarrow> bytes
    \<Rightarrow> ('c flate_writer \<times> 'w \<times> nat \<times> err option) option" where
  "fw_write C dw fw w p =
     (if fw_err fw \<noteq> None then Some (fw, w, 0, fw_err fw)
      else case fw_c fw of
        Some (Some c) \<Rightarrow>
          (case c_write C c p of (c', bs, n, e) \<Rightarrow>
             case blocks_write dw (fw_cbuf fw, w) bs of (cb, w') \<Rightarrow>
               Some (fw\<lparr>fw_c := Some (Some c'), fw_cbuf := cb, fw_err := e\<rparr>, w', n, e))
      | _ \<Rightarrow> None)"

definition fw_flush :: "'c comp_ops \<Rightarrow> 'w sink \<Rightarrow> 'c flate_writer \<Rightarrow> 'w
    \<Rightarrow> ('c flate_writer \<times> 'w \<times> err option) option" where
  "fw_flush C dw fw w =
     (if fw_err fw \<noteq> None then Some (fw, w, fw_err fw)
      else case fw_c fw of
        Some (Some c) \<Rightarrow>
          (case c_flush C c of (c', bs, e) \<Rightarrow>
             case blocks_write dw (fw_cbuf fw, w) bs of (cb, w') \<Rightarrow>
               let fw = fw_checkTail (fw\<lparr>fw_c := Some (Some c'), fw_cbuf := cb, fw_err := e\<rparr>)
               in Some (fw, w', fw_err fw))
      | _ \<Rightarrow> None)"

definition fw_close :: "'c comp_ops \<Rightarrow> 'w sink \<Rightarrow> 'c flate_writer \<Rightarrow> 'w
    \<Rightarrow> ('c flate_writer \<times> 'w \<times> err option) option" where
  "fw_close C dw fw w =
     (if fw_err fw \<noteq> None then Some (fw, w, fw_err fw)
      else case c_close C of
        None \<Rightarrow> (let fw = fw_checkTail fw in Some (fw, w, fw_err fw))
      | Some close \<Rightarrow>
        (case fw_c fw of
           Some (Some c) \<Rightarrow>
             (case close c of (c', bs, e) \<Rightarrow>
                case blocks_write dw (fw_cbuf fw, w) bs of (cb, w') \<Rightarrow>
                  let fw = fw_checkTail (fw\<lparr>fw_c := Some (Some c'), fw_cbuf := cb, fw_err := e\<rparr>)
                  in Some (fw, w', fw_err fw))
         | _ \<Rightarrow> None))"

lemma blocks_write_inv:
  assumes "cbuf_inv tot (c, w)" and "blocks_write buffer_write (c, w) bs = (c', w')"
  shows "cbuf_inv (tot @ concat bs) (c', w')"
  using assms
proof (induction bs arbitrary: tot c w)
  case Nil
  then show ?case by (simp add: blocks_write_def)
next
  case (Cons b bs)
  obtain c1 w1 where "cbuf_write buffer_write (c, w) b = ((c1, w1), length b, None)" "cbuf_inv (tot @ b) (c1, w1)"
    using cbuf_write_inv [OF Cons.prems(1)] by blast
  with Cons.IH [of "tot @ b" c1 w1] Cons.prems(2) show ?case by (simp add: blocks_write_def)
qed

text \<open>
  One message through \<open>Reset\<close>, \<open>Write\<close> and \<open>Flush\<close> with a buffer as destination.  \<open>Flush\<close> succeeds exactly when
  the compressor's stream ends with the tail, and then the buffer is the stream without it.
\<close>

definition compress_stream :: "'c comp_ops \<Rightarrow> 'c \<Rightarrow> bytes \<Rightarrow> bytes" where
  "compress_stream C c p =
     (case c_write C c p of (c', bs, _, _) \<Rightarrow> concat bs @ (case c_flush C c' of (_, bs', _) \<Rightarrow> concat bs'))"

lemma fw_message:
  assumes "fw_reset C fw = Some fw0" and "fw_c fw0 = Some (Some c)"
    and "fw_write C buffer_write fw0 [] p = Some (fw1, w1, n, None)"
    and "fw_flush C buffer_write fw1 w1 = Some (fw2, w2, e)"
    and "snd (snd (c_flush C (fst (c_write C c p)))) = None"
  shows "e = None \<longleftrightarrow> compress_stream C c p = w2 @ compressionTail"
    and "e = None \<or> (\<exists>t. e = Some (Errorf t))"
proof -
  from assms(1) have fw0: "fw_err fw0 = None" "fw_cbuf fw0 = cbuf_reset"
    by (auto simp: fw_reset_def Let_def split: option.splits)
  obtain c1 bs k ew where w: "c_write C c p = (c1, bs, k, ew)" by (metis prod_cases4)
  obtain c2 bs' where f: "c_flush C c1 = (c2, bs', None)"
    using assms(5) w by (cases "c_flush C c1") auto
  obtain cb cw where b: "blocks_write buffer_write (cbuf_reset, []) bs = (cb, cw)" by force
  from assms(2,3) fw0 w b have fw1: "fw_err fw1 = None" "fw_c fw1 = Some (Some c1)" "fw_cbuf fw1 = cb" "w1 = cw"
    by (auto simp: fw_write_def)
  obtain cb' cw' where b': "blocks_write buffer_write (cb, cw) bs' = (cb', cw')" by force
  have "cbuf_inv (concat bs @ concat bs') (cb', cw')"
    using blocks_write_inv [OF blocks_write_inv [OF cbuf_inv_reset b] b'] by simp
  then have tail: "cb_buf cb' = compressionTail \<longleftrightarrow> concat bs @ concat bs' = cw' @ compressionTail"
    by (rule cbuf_inv_tail)
  from assms(4) fw1 f b' have e: "w2 = cw'" "e = (if cb_buf cb' = compressionTail then None
      else Some (Errorf ''wsflate: bad compressor: unexpected stream tail''))"
    by (auto simp: fw_flush_def fw_checkTail_def Let_def split: if_splits)
  show "e = None \<longleftrightarrow> compress_stream C c p = w2 @ compressionTail"
    using e tail w f by (simp add: compress_stream_def)
  show "e = None \<or> (\<exists>t. e = Some (Errorf t))" using e by auto
qed

section \<open>suffixedReader\<close>

text \<open>
  \<open>sr_r\<close>: the field \<open>r\<close> is not \<open>nil\<close>.  The reader below is a parameter; \<open>br\<close> is its \<open>ReadByte\<close>, if it has one.
\<close>

record suffixed =
  sr_r :: bool
  sr_pos :: nat

definition suffixed_reset :: "bool \<Rightarrow> suffixed" where
  "suffixed_reset src = \<lparr>sr_r = src, sr_pos = 0\<rparr>"

definition suffixed_read :: "'s rd \<Rightarrow> (suffixed \<times> 's) rd" where
  "suffixed_read up = (\<lambda>(sr, s) n.
     if sr_r sr then
       Option.bind (up s n) (\<lambda>(s', bs, e).
         if e = Some EOF then Some ((sr\<lparr>sr_r := False\<rparr>, s'), bs, None)
         else Some ((sr, s'), bs, e))
     else if length compressionReadTail \<le> sr_pos sr then Some ((sr, s), [], Some EOF)
     else (let bs = take n (drop (sr_pos sr) compressionReadTail)
           in Some ((sr\<lparr>sr_pos := sr_pos sr + length bs\<rparr>, s), bs, None)))"

definition suffixed_read_byte ::
    "('s \<Rightarrow> ('s \<times> byte \<times> err option) option) option \<Rightarrow> suffixed \<times> 's
      \<Rightarrow> ((suffixed \<times> 's) \<times> byte \<times> err option) option" where
  "suffixed_read_byte br = (\<lambda>(sr, s).
     if sr_r sr then
       (case br of
          None \<Rightarrow> None
        | Some f \<Rightarrow> Option.bind (f s) (\<lambda>(s', b, e).
            if e = Some EOF then Some ((sr\<lparr>sr_r := False\<rparr>, s'), b, None)
            else Some ((sr, s'), b, e)))
     else if length compressionReadTail \<le> sr_pos sr then Some ((sr, s), 0, Some EOF)
     else Some ((sr\<lparr>sr_pos := sr_pos sr + 1\<rparr>, s), compressionReadTail ! sr_pos sr, None))"

text \<open>\<open>iface\<close> hands out \<open>ReadByte\<close> only where the reader below has it.\<close>

definition suffixed_iface :: "'b option \<Rightarrow> bool" where
  "suffixed_iface br = (br \<noteq> None)"

context sticky_stream begin

text \<open>On a reader that ends with \<^const>\<open>EOF\<close>, the suffixed reader is the same content and the four bytes.\<close>

lemma suffixed_sticky:
  "sticky_stream (suffixed_read rd)
     (\<lambda>(sr, s). ok s \<and> fin s = {EOF} \<and> (sr_r sr \<longrightarrow> sr_pos sr = 0))
     (\<lambda>(sr, s). if sr_r sr then content s @ compressionReadTail else drop (sr_pos sr) compressionReadTail)
     (\<lambda>(sr, s). {EOF}) (\<lambda>(sr, s). if sr_r sr then Suc (stall s) else 0)"
proof (unfold_locales, goal_cases)
  case (1 srs n)
  obtain sr s where srs: "srs = (sr, s)" by force
  with 1 have "ok s" by simp
  then obtain s' bs e where "rd s n = Some (s', bs, e)" by (rule rd_answers)
  then show ?case by (simp add: srs suffixed_read_def Let_def)
next
  case (2 srs n s' bs e)
  then show ?case using rd_len
    by (cases srs) (fastforce simp: suffixed_read_def Let_def split: if_splits dest!: bind_eq_SomeD)
next
  case (3 srs n s' bs)
  obtain sr s where srs: "srs = (sr, s)" by force
  show ?case
  proof (cases "sr_r sr")
    case True
    with 3 srs have ok: "ok s" "fin s = {EOF}" "sr_pos sr = 0" by auto
    with 3 srs True obtain s1 e where r: "rd s n = Some (s1, bs, e)" and
      s': "e = None \<and> s' = (sr, s1) \<or> e = Some EOF \<and> s' = (sr\<lparr>sr_r := False\<rparr>, s1)"
      by (auto simp: suffixed_read_def split: if_splits dest!: bind_eq_SomeD)
    from s' show ?thesis
    proof (elim disjE conjE)
      assume "e = None" "s' = (sr, s1)"
      with rd_more [OF ok(1)] r ok True show ?thesis by (simp add: srs)
    next
      assume e: "e = Some EOF" and s': "s' = (sr\<lparr>sr_r := False\<rparr>, s1)"
      from rd_err [OF ok(1)] rd_sticky [OF ok(1)] r e ok True show ?thesis by (simp add: srs s')
    qed
  next
    case False
    define X where "X = drop (sr_pos sr) compressionReadTail"
    have "suffixed_read rd (sr, s) n = Some (s', bs, None)" using 3(2) srs by simp
    then have "sr_pos sr < length compressionReadTail \<and> bs = take n X \<and> s' = (sr\<lparr>sr_pos := sr_pos sr + length bs\<rparr>, s)"
      using False by (auto simp: suffixed_read_def Let_def X_def [symmetric] split: if_splits)
    then have pos: "sr_pos sr < length compressionReadTail" and bs: "bs = take n X"
      and s': "s' = (sr\<lparr>sr_pos := sr_pos sr + length bs\<rparr>, s)" by blast+
    have "X = bs @ drop (length bs) X" unfolding bs by (cases "n \<le> length X") simp_all
    also have "drop (length bs) X = drop (sr_pos sr + length bs) compressionReadTail"
      by (simp add: X_def add.commute)
    finally have split: "drop (sr_pos sr) compressionReadTail = bs @ drop (sr_pos sr + length bs) compressionReadTail"
      by (simp only: X_def)
    have "X \<noteq> []" using pos by (simp add: X_def)
    then have "bs = [] \<longrightarrow> 0 < n \<longrightarrow> False" by (auto simp: bs)
    moreover have "ok s" "fin s = {EOF}" using 3(1) srs by simp_all
    ultimately show ?thesis using False unfolding srs s' by (simp del: drop_drop) (rule split)
  qed
next
  case (4 srs n s' bs x)
  obtain sr s where srs: "srs = (sr, s)" by force
  show ?case
  proof (cases "sr_r sr")
    case True
    with 4 srs have ok: "ok s" "fin s = {EOF}" by auto
    with 4 srs True rd_err [OF ok(1)] show ?thesis
      by (auto simp: suffixed_read_def split: if_splits dest!: bind_eq_SomeD)
  next
    case False
    have "suffixed_read rd (sr, s) n = Some (s', bs, Some x)" using 4(2) srs by simp
    then have "s' = (sr, s) \<and> bs = [] \<and> x = EOF \<and> length compressionReadTail \<le> sr_pos sr"
      using False by (simp add: suffixed_read_def Let_def split: if_splits)
    with False 4(1) srs show ?thesis by simp
  qed
next
  case (5 srs n s' bs x)
  obtain sr s where srs: "srs = (sr, s)" by force
  show ?case
  proof (cases "sr_r sr")
    case True
    with 5 srs have ok: "ok s" "fin s = {EOF}" by auto
    with 5 srs True rd_err [OF ok(1)] show ?thesis
      by (auto simp: suffixed_read_def split: if_splits dest!: bind_eq_SomeD)
  next
    case False
    have "suffixed_read rd (sr, s) n = Some (s', bs, Some x)" using 5(2) srs by simp
    then have "s' = (sr, s) \<and> bs = [] \<and> x = EOF \<and> length compressionReadTail \<le> sr_pos sr"
      using False by (simp add: suffixed_read_def Let_def split: if_splits)
    with False 5(1) srs show ?thesis by simp
  qed
qed

end

section \<open>FlateReader\<close>

text \<open>
  A decompressor of type \<open>'d\<close> over the reader below it (state \<open>'u\<close>): what \<open>ctor\<close> returns, its \<open>Reset\<close> with a
  \<open>nil\<close> dictionary if it is a \<open>ReadResetter\<close>, its \<open>Read\<close>, which may read from below, and its \<open>Close\<close>.
\<close>

record ('d, 'u) dec_ops =
  d_new :: 'd
  d_reset :: "('d \<Rightarrow> 'd) option"
  d_read :: "'u rd \<Rightarrow> 'd \<Rightarrow> 'u \<Rightarrow> nat \<Rightarrow> ('d \<times> 'u \<times> bytes \<times> err option) option"
  d_close :: "('d \<Rightarrow> 'd \<times> err option) option"

record 'd flate_reader =
  fl_d :: "'d option"
  fl_sr :: suffixed
  fl_err :: "err option"

definition fl_Err :: "'d flate_reader \<Rightarrow> err option" where
  "fl_Err r = fl_err r"

definition fl_reset :: "('d, 'u) dec_ops \<Rightarrow> 'd flate_reader \<Rightarrow> bool \<Rightarrow> 'd flate_reader" where
  "fl_reset D fl src =
     (let fl = fl\<lparr>fl_err := None, fl_sr := suffixed_reset src\<rparr>
      in case (fl_d fl, d_reset D) of
           (Some d, Some reset) \<Rightarrow> fl\<lparr>fl_d := Some (reset d)\<rparr>
         | _ \<Rightarrow> fl\<lparr>fl_d := Some (d_new D)\<rparr>)"

definition NewFlateReader :: "('d, 'u) dec_ops \<Rightarrow> bool \<Rightarrow> 'd flate_reader" where
  "NewFlateReader D src = fl_reset D \<lparr>fl_d = None, fl_sr = suffixed_reset src, fl_err = None\<rparr> src"

definition fl_read :: "('d, suffixed \<times> 's) dec_ops \<Rightarrow> 's rd \<Rightarrow> 'd flate_reader \<Rightarrow> 's \<Rightarrow> nat
    \<Rightarrow> ('d flate_reader \<times> 's \<times> bytes \<times> err option) option" where
  "fl_read D up fl s n =
     (if fl_err fl \<noteq> None then Some (fl, s, [], fl_err fl)
      else case fl_d fl of
        None \<Rightarrow> None
      | Some d \<Rightarrow> Option.bind (d_read D (suffixed_read up) d (fl_sr fl, s) n) (\<lambda>(d', (sr', s'), bs, e).
          Some (fl\<lparr>fl_d := Some d', fl_sr := sr'\<rparr>, s', bs, e)))"

definition fl_close :: "('d, 'u) dec_ops \<Rightarrow> 'd flate_reader \<Rightarrow> ('d flate_reader \<times> err option) option" where
  "fl_close D fl =
     (if fl_err fl \<noteq> None then Some (fl, fl_err fl)
      else case d_close D of
        None \<Rightarrow> Some (fl, fl_err fl)
      | Some close \<Rightarrow>
          (case fl_d fl of
             None \<Rightarrow> None
           | Some d \<Rightarrow> (case close d of (d', e) \<Rightarrow> Some (fl\<lparr>fl_d := Some d', fl_err := e\<rparr>, e))))"

text \<open>
  \<open>Reset\<close> passes \<open>nil\<close> as the dictionary.  Where the decompressor's \<open>Reset\<close> does what \<open>flate.Resetter\<close> documents
  (as if newly made), a reader kept between messages is the same as a new one.
\<close>

lemma fl_reset_fresh:
  assumes "\<And>reset d. d_reset D = Some reset \<Longrightarrow> reset d = d_new D"
  shows "fl_reset D fl src = NewFlateReader D src"
  using assms by (auto simp: fl_reset_def NewFlateReader_def Let_def split: option.splits)

end
