(* ===== verification/WsLib.thy ===== *)
theory WsLib
  imports Flate
begin

text \<open>
  What the sources use of \<open>github.com/gobwas/ws\<close>, \<open>ws/wsutil\<close> and \<open>ws/wsflate\<close>.  None of it is code of this
  repository: its constants and functions are the fields of the parameter \<open>ws_lib\<close>, and what a theorem
  relies on is one of the named laws below, which state documented behaviour.  \<open>rfc_lib\<close> is a concrete
  library that satisfies the laws; the witnesses run on it.
\<close>

section \<open>The library as a parameter\<close>

text \<open>
  \<open>'x\<close> is the state of a \<open>wsutil.UTF8Reader\<close>, \<open>'cw\<close> that of the writer of \<open>wsutil.NewControlWriterBuffer\<close>.
  \<open>utf8_post\<close> is what \<open>UTF8Reader.Read\<close> makes of one answer of its source.
\<close>

record ('x, 'cw) ws_lib =
  OpContinuation :: byte
  OpText :: byte
  OpBinary :: byte
  OpClose :: byte
  OpPing :: byte
  OpPong :: byte
  StateServerSide :: byte
  StateClientSide :: byte
  StateExtended :: byte
  StateFragmented :: byte
  st_server :: "byte \<Rightarrow> bool"
  st_client :: "byte \<Rightarrow> bool"
  st_fragmented :: "byte \<Rightarrow> bool"
  st_set :: "byte \<Rightarrow> byte \<Rightarrow> byte"
  st_clear :: "byte \<Rightarrow> byte \<Rightarrow> byte"
  is_control :: "byte \<Rightarrow> bool"
  check_header :: "header \<Rightarrow> byte \<Rightarrow> err option"
  is_compressed :: "header \<Rightarrow> bool \<times> err option"
  header_size :: "i64 \<Rightarrow> bool \<Rightarrow> nat"
  ws_write_header :: "conn \<Rightarrow> header \<Rightarrow> conn \<times> err option"
  ws_write_frame :: "conn \<Rightarrow> header \<Rightarrow> bytes \<Rightarrow> conn \<times> err option"
  new_close_header :: "bytes \<Rightarrow> header"
  close_body :: "16 word \<Rightarrow> bytes \<Rightarrow> bytes"
  parse_close :: "bytes \<Rightarrow> 16 word \<times> bytes"
  check_close :: "16 word \<Rightarrow> bytes \<Rightarrow> err option"
  mask_payload :: "bytes \<Rightarrow> bytes"
  err_text :: "err \<Rightarrow> bytes"
  StatusProtocolError :: "16 word"
  StatusNoStatusRcvd :: "16 word"
  StatusUnsupportedData :: "16 word"
  ws_cipher :: "bytes \<Rightarrow> mask \<Rightarrow> nat \<Rightarrow> bytes"
  utf8_zero :: 'x
  utf8_post :: "'x \<Rightarrow> bytes \<Rightarrow> err option \<Rightarrow> 'x \<times> bytes \<times> err option"
  utf8_valid :: "'x \<Rightarrow> bool"
  utf8_accepted :: "'x \<Rightarrow> nat"
  cw_new :: "byte \<Rightarrow> byte \<Rightarrow> nat \<Rightarrow> 'cw"
  cw_write :: "'cw \<Rightarrow> conn \<Rightarrow> bytes \<Rightarrow> 'cw \<times> conn \<times> nat \<times> err option"
  cw_flush :: "'cw \<Rightarrow> conn \<Rightarrow> 'cw \<times> conn \<times> err option"

section \<open>The laws\<close>

text \<open>The opcodes and the two roles: the numbers of RFC 6455, and \<open>State\<close> as a set of flags.\<close>

definition opcode_laws :: "('x, 'cw) ws_lib \<Rightarrow> bool" where
  "opcode_laws L \<longleftrightarrow> OpContinuation L = 0 \<and> OpText L = 1 \<and> OpBinary L = 2 \<and> OpClose L = 8 \<and> OpPing L = 9
     \<and> OpPong L = 10 \<and> (\<forall>op. is_control L op \<longleftrightarrow> 8 \<le> op)"

definition state_laws :: "('x, 'cw) ws_lib \<Rightarrow> bool" where
  "state_laws L \<longleftrightarrow>
     (\<forall>s. st_fragmented L (st_set L s (StateFragmented L)) \<and> \<not> st_fragmented L (st_clear L s (StateFragmented L))
        \<and> st_clear L (st_set L s (StateFragmented L)) (StateFragmented L) = st_clear L s (StateFragmented L)
        \<and> (\<not> st_fragmented L s \<longrightarrow> st_clear L s (StateFragmented L) = s)
        \<and> st_client L (st_set L s (StateFragmented L)) = st_client L s
        \<and> st_client L (st_clear L s (StateFragmented L)) = st_client L s
        \<and> st_server L (st_set L s (StateFragmented L)) = st_server L s
        \<and> st_server L (st_clear L s (StateFragmented L)) = st_server L s)
     \<and> st_server L (StateServerSide L) \<and> \<not> st_client L (StateServerSide L)
     \<and> st_client L (StateClientSide L) \<and> \<not> st_server L (StateClientSide L)
     \<and> st_server L (StateServerSide L OR StateExtended L) \<and> \<not> st_client L (StateServerSide L OR StateExtended L)
     \<and> st_client L (StateClientSide L OR StateExtended L) \<and> \<not> st_server L (StateClientSide L OR StateExtended L)
     \<and> \<not> st_fragmented L (StateServerSide L OR StateExtended L)
     \<and> \<not> st_fragmented L (StateClientSide L OR StateExtended L)"

text \<open>
  A single unfragmented data frame of the peer passes \<open>CheckHeader\<close>: masked when we are the server,
  unmasked when we are the client, with no reserved bits.
\<close>

definition check_laws :: "('x, 'cw) ws_lib \<Rightarrow> bool" where
  "check_laws L \<longleftrightarrow>
     (\<forall>h s. h_op h \<in> {OpText L, OpBinary L} \<longrightarrow> h_rsv h = 0 \<longrightarrow> 0 \<le> sint (h_length h) \<longrightarrow>
        \<not> st_fragmented L s \<longrightarrow> (st_server L s \<longrightarrow> h_masked h) \<longrightarrow> (st_client L s \<longrightarrow> \<not> h_masked h) \<longrightarrow>
        check_header L h s = None)"

text \<open>
  Only RSV1 on the first frame of a data message marks compression; on a continuation or a control frame
  it is an error.
\<close>

definition compression_laws :: "('x, 'cw) ws_lib \<Rightarrow> bool" where
  "compression_laws L \<longleftrightarrow>
     (\<forall>h. (h_rsv h AND 4 = 0 \<longrightarrow> is_compressed L h = (False, None))
        \<and> (h_rsv h AND 4 \<noteq> 0 \<longrightarrow> h_op h \<in> {OpText L, OpBinary L} \<longrightarrow> is_compressed L h = (True, None)))"

section \<open>A concrete library\<close>

text \<open>
  A library for the witnesses: RFC 6455 flags and checks, no UTF-8 reader (every payload is valid) and a
  control writer that collects the payload and writes one frame.
\<close>

definition rfc_check :: "header \<Rightarrow> byte \<Rightarrow> err option" where
  "rfc_check h s =
     (if h_op h \<notin> {0, 1, 2, 8, 9, 10} then Some (ErrForeign 1)
      else if 8 \<le> h_op h \<and> (125 < sint (h_length h) \<or> \<not> h_fin h) then Some (ErrForeign 2)
      else if h_rsv h \<noteq> 0 \<and> s AND 4 = 0 then Some (ErrForeign 3)
      else if s AND 8 \<noteq> 0 \<and> h_op h \<in> {1, 2} then Some (ErrForeign 4)
      else if s AND 8 = 0 \<and> h_op h = 0 then Some (ErrForeign 5)
      else if s AND 1 \<noteq> 0 \<and> \<not> h_masked h then Some (ErrForeign 6)
      else if s AND 2 \<noteq> 0 \<and> h_masked h then Some (ErrForeign 7)
      else None)"

definition rfc_header_bytes :: "header \<Rightarrow> bytes" where
  "rfc_header_bytes h = encode_header (h_fin h) (h_rsv h AND 4 \<noteq> 0) (h_op h)
     (if h_masked h then Some (h_mask h) else None) (unat (h_length h))"

definition rfc_write :: "conn \<Rightarrow> bytes \<Rightarrow> conn \<times> err option" where
  "rfc_write c p = (case conn_write c p of (c', _, e) \<Rightarrow> (c', e))"

definition rfc_lib :: "(unit, byte \<times> byte \<times> bytes \<times> nat) ws_lib" where
  "rfc_lib = \<lparr>OpContinuation = 0, OpText = 1, OpBinary = 2, OpClose = 8, OpPing = 9, OpPong = 10,
     StateServerSide = 1, StateClientSide = 2, StateExtended = 4, StateFragmented = 8,
     st_server = (\<lambda>s. s AND 1 \<noteq> 0), st_client = (\<lambda>s. s AND 2 \<noteq> 0), st_fragmented = (\<lambda>s. s AND 8 \<noteq> 0),
     st_set = (OR), st_clear = (\<lambda>s v. s AND NOT v), is_control = (\<lambda>op. 8 \<le> op),
     check_header = rfc_check,
     is_compressed = (\<lambda>h. if h_op h \<in> {1, 2} then (h_rsv h AND 4 \<noteq> 0, None)
                          else if h_rsv h AND 4 \<noteq> 0 then (False, Some (ErrForeign 8)) else (False, None)),
     header_size = (\<lambda>n m. 2 + (if sint n \<le> 125 then 0 else if sint n \<le> 65535 then 2 else 8) + (if m then 4 else 0)),
     ws_write_header = (\<lambda>c h. rfc_write c (rfc_header_bytes h)),
     ws_write_frame = (\<lambda>c h p. rfc_write c (rfc_header_bytes h @ p)),
     new_close_header = (\<lambda>p. zero_header\<lparr>h_fin := True, h_op := 8, h_length := word_of_nat (length p)\<rparr>),
     close_body = (\<lambda>code reason. be_enc 2 (unat code) @ reason),
     parse_close = (\<lambda>p. if length p < 2 then (1005, []) else (word_of_nat (be_dec (take 2 p)), drop 2 p)),
     check_close = (\<lambda>code reason. if code < 1000 \<or> code = 1005 then Some (ErrForeign 9) else None),
     mask_payload = (\<lambda>p. cipher_spec (Mask 1 2 3 4) 0 p), err_text = (\<lambda>_. []),
     StatusProtocolError = 1002, StatusNoStatusRcvd = 1005, StatusUnsupportedData = 1003,
     ws_cipher = (\<lambda>p m off. cipher_spec m off p),
     utf8_zero = (), utf8_post = (\<lambda>x bs e. (x, bs, e)), utf8_valid = (\<lambda>_. True), utf8_accepted = (\<lambda>_. 0),
     cw_new = (\<lambda>s op n. (s, op, [], n - (if s AND 2 \<noteq> 0 then 6 else 2))),
     cw_write = (\<lambda>(s, op, p, k) c bs.
       if k < length p + length bs then ((s, op, p, k), c, 0, Some (ErrForeign 10))
       else ((s, op, p @ bs, k), c, length bs, None)),
     cw_flush = (\<lambda>(s, op, p, k) c.
       (case rfc_write c (rfc_header_bytes \<lparr>h_fin = True, h_rsv = 0, h_op = op, h_masked = (s AND 2 \<noteq> 0),
            h_mask = Mask 1 2 3 4, h_length = word_of_nat (length p)\<rparr>
          @ (if s AND 2 \<noteq> 0 then cipher_spec (Mask 1 2 3 4) 0 p else p)) of (c', e) \<Rightarrow> ((s, op, [], k), c', e)))\<rparr>"

lemma rfc_opcode_laws: "opcode_laws rfc_lib"
  by (simp add: opcode_laws_def rfc_lib_def)

lemma rfc_state_bit: "s AND 8 = 0 \<Longrightarrow> s AND NOT 8 = s" for s :: "8 word"
  by (metis and.right_neutral bit.conj_cancel_right bit.conj_disj_distrib bit.disj_cancel_right or.left_neutral)

lemma rfc_state_laws: "state_laws rfc_lib"
  by (auto simp: state_laws_def rfc_lib_def word_ao_dist and.assoc rfc_state_bit [simplified])

lemma rfc_check_laws: "check_laws rfc_lib"
  by (auto simp: check_laws_def rfc_lib_def rfc_check_def word_le_nat_alt)

lemma rfc_compression_laws: "compression_laws rfc_lib"
  by (auto simp: compression_laws_def rfc_lib_def)

end
