(* ===== verification/FrameReader.thy ===== *)
theory FrameReader
  imports WsLib
begin

text \<open>
  \<open>websocket/internal/wsutils/frame_reader.go\<close>: the reader that turns a stream of frames into messages.

  The Go struct points to other objects: \<open>frame\<close> is \<open>&r.raw\<close>, \<open>r.cipherReader\<close>, \<open>r.flateReader\<close> or
  \<open>&r.utf8\<close>, each reading from the one before.  The model keeps the objects in the record and the pointers as
  values of \<open>base_ref\<close>, \<open>inner_ref\<close> and \<open>reader_ref\<close>.  \<open>FlateReader\<close>s are shared through a pool, so they live in a
  store (\<open>flate_store\<close>) and are named by their address.
\<close>

section \<open>State\<close>

datatype base_ref = RRaw | RCipher
datatype inner_ref = RBase base_ref | RFlate
datatype reader_ref = RInner inner_ref | RUtf8

text \<open>\<open>Source\<close>, the counter of \<open>raw\<close> (an \<open>io.LimitedReader\<close> on \<open>Source\<close>) and \<open>cipherReader\<close>.\<close>

record lower =
  lw_src :: conn
  lw_n :: int
  lw_cipher :: "cipher_reader option"

text \<open>
  The \<open>FlateReader\<close> objects, what each one's source is, the free addresses, the pool
  (\<open>Options.flateReaderPool\<close>) and the transport's \<open>persistentFlateReader\<close>.
\<close>

record 'd flate_store =
  fs_obj :: "nat \<Rightarrow> 'd flate_reader"
  fs_src :: "nat \<Rightarrow> base_ref"
  fs_next :: nat
  fs_pool :: "nat list"
  fs_persistent :: "nat option"

record ('d, 'x) frame_reader =
  fr_low :: lower
  fr_state :: byte
  fr_SkipHeaderCheck :: bool
  fr_CheckUTF8 :: bool
  fr_Extensions :: "(header \<Rightarrow> header \<times> err option) list"
  fr_MaxFrameSize :: i64
  fr_GetFlateReader :: "('d flate_store \<Rightarrow> base_ref \<Rightarrow> ('d flate_store \<times> nat) option) option"
  fr_PutFlateReader :: "('d flate_store \<Rightarrow> nat \<Rightarrow> 'd flate_store) option"
  fr_opCode :: byte
  fr_frame :: "reader_ref option"
  fr_utf8 :: 'x
  fr_utf8_src :: "inner_ref option"
  fr_flateReader :: "nat option"
  fr_store :: "'d flate_store"

text \<open>A frame handler (\<open>wsutil.FrameHandlerFunc\<close>) gets the header and a reader on the state it may change.\<close>

type_synonym 'r handler = "header \<Rightarrow> 'r rd \<Rightarrow> 'r \<Rightarrow> ('r \<times> err option) option"

type_synonym 'd dec = "('d, suffixed \<times> lower) dec_ops"

section \<open>The readers below a frame\<close>

definition raw_read :: "lower rd" where
  "raw_read = via (\<lambda>l. (lw_src l, lw_n l)) (\<lambda>(c, n) l. l\<lparr>lw_src := c, lw_n := n\<rparr>) (limited_read conn_read)"

definition ciph_read :: "lower rd" where
  "ciph_read l n =
     (case lw_cipher l of
        None \<Rightarrow> None
      | Some c \<Rightarrow> Option.bind (cipher_read raw_read (c, l) n) (\<lambda>((c', l'), bs, e).
          Some (l'\<lparr>lw_cipher := Some c'\<rparr>, bs, e)))"

fun base_read :: "base_ref \<Rightarrow> lower rd" where
  "base_read RRaw = raw_read"
| "base_read RCipher = ciph_read"

fun inner_read :: "'d dec \<Rightarrow> inner_ref \<Rightarrow> ('d, 'x) frame_reader rd" where
  "inner_read D (RBase b) r n =
     Option.bind (base_read b (fr_low r) n) (\<lambda>(l, bs, e). Some (r\<lparr>fr_low := l\<rparr>, bs, e))"
| "inner_read D RFlate r n =
     (case fr_flateReader r of
        None \<Rightarrow> None
      | Some a \<Rightarrow>
          Option.bind (fl_read D (base_read (fs_src (fr_store r) a)) (fs_obj (fr_store r) a) (fr_low r) n)
            (\<lambda>(fl, l, bs, e).
              Some (r\<lparr>fr_low := l, fr_store := (fr_store r)\<lparr>fs_obj := (fs_obj (fr_store r))(a := fl)\<rparr>\<rparr>, bs, e)))"

fun frame_read :: "('x, 'cw) ws_lib \<Rightarrow> 'd dec \<Rightarrow> reader_ref \<Rightarrow> ('d, 'x) frame_reader rd" where
  "frame_read L D (RInner i) r n = inner_read D i r n"
| "frame_read L D RUtf8 r n =
     (case fr_utf8_src r of
        None \<Rightarrow> None
      | Some i \<Rightarrow> Option.bind (inner_read D i r n) (\<lambda>(r', bs, e).
          case utf8_post L (fr_utf8 r') bs e of (x, bs', e') \<Rightarrow> Some (r'\<lparr>fr_utf8 := x\<rparr>, bs', e')))"

section \<open>The operations\<close>

definition fragmented :: "('x, 'cw) ws_lib \<Rightarrow> ('d, 'x) frame_reader \<Rightarrow> bool" where
  "fragmented L r = st_fragmented L (fr_state r)"

definition low_detach :: "lower \<Rightarrow> lower" where
  "low_detach l = l\<lparr>lw_n := 0,
     lw_cipher := map_option (\<lambda>c. cipher_reset c False (Mask 0 0 0 0)) (lw_cipher l)\<rparr>"

definition resetFragment :: "('d, 'x) frame_reader \<Rightarrow> ('d, 'x) frame_reader" where
  "resetFragment r = r\<lparr>fr_low := low_detach (fr_low r), fr_frame := None, fr_utf8_src := None\<rparr>"

definition reset :: "('x, 'cw) ws_lib \<Rightarrow> ('d, 'x) frame_reader \<Rightarrow> ('d, 'x) frame_reader" where
  "reset L r =
     (let r = r\<lparr>fr_low := low_detach (fr_low r), fr_frame := None, fr_utf8 := utf8_zero L, fr_utf8_src := None,
                fr_opCode := 0\<rparr>
      in case fr_flateReader r of
           None \<Rightarrow> r
         | Some a \<Rightarrow> r\<lparr>fr_flateReader := None,
             fr_store := (case fr_PutFlateReader r of None \<Rightarrow> fr_store r | Some put \<Rightarrow> put (fr_store r) a)\<rparr>)"

fun unset_bits :: "(header \<Rightarrow> header \<times> err option) list \<Rightarrow> header \<Rightarrow> header \<times> err option" where
  "unset_bits [] h = (h, None)"
| "unset_bits (x # xs) h = (case x h of (h', Some e) \<Rightarrow> (h', Some e) | (h', None) \<Rightarrow> unset_bits xs h')"

definition attach_raw :: "header \<Rightarrow> lower \<Rightarrow> lower \<times> base_ref" where
  "attach_raw h l =
     (let l = l\<lparr>lw_n := sint (h_length h)\<rparr>
      in if h_masked h then
           (l\<lparr>lw_cipher := Some (case lw_cipher l of None \<Rightarrow> NewCipherReader (h_mask h)
                                 | Some c \<Rightarrow> cipher_reset c True (h_mask h))\<rparr>, RCipher)
         else (l, RRaw))"

text \<open>The end of \<open>NextFrame\<close>, for a frame that is part of a data message or stands alone.\<close>

definition install_frame ::
    "('x, 'cw) ws_lib \<Rightarrow> 'd dec \<Rightarrow> ('d, 'x) frame_reader handler option \<Rightarrow> header \<Rightarrow> inner_ref
      \<Rightarrow> ('d, 'x) frame_reader \<Rightarrow> (('d, 'x) frame_reader \<times> header \<times> err option) option" where
  "install_frame L D onC h i r =
     (let (r, f) =
            (if fr_CheckUTF8 r \<and> (h_op h = OpText L \<or> fragmented L r \<and> fr_opCode r = OpText L)
             then (r\<lparr>fr_utf8_src := Some i\<rparr>, RUtf8) else (r, RInner i));
          r = r\<lparr>fr_frame := Some f\<rparr>
      in Option.bind
           (case onC of
              Some cb \<Rightarrow> if h_op h = OpContinuation L then cb h (frame_read L D f) r else Some (r, None)
            | None \<Rightarrow> Some (r, None))
           (\<lambda>(r, e).
             Some (r\<lparr>fr_state := (if h_fin h then st_clear L (fr_state r) (StateFragmented L)
                                 else st_set L (fr_state r) (StateFragmented L))\<rparr>, h, e)))"

definition discard_raw :: "('d, 'x) frame_reader \<Rightarrow> (('d, 'x) frame_reader \<times> err option) option" where
  "discard_raw r = Option.bind (io_discard raw_read (fr_low r)) (\<lambda>(l, e). Some (r\<lparr>fr_low := l\<rparr>, e))"

definition NextFrame ::
    "('x, 'cw) ws_lib \<Rightarrow> 'd dec \<Rightarrow> ('d, 'x) frame_reader handler option \<Rightarrow> ('d, 'x) frame_reader handler option
      \<Rightarrow> ('d, 'x) frame_reader \<Rightarrow> (('d, 'x) frame_reader \<times> header \<times> err option) option" where
  "NextFrame L D onI onC r =
     Option.bind (ReadHeader conn_read (lw_src (fr_low r))) (\<lambda>(c, h, e).
       let r = r\<lparr>fr_low := (fr_low r)\<lparr>lw_src := c\<rparr>\<rparr>;
           e = (if e = Some EOF \<and> fragmented L r then Some ErrUnexpectedEOF else e);
           e = (if e = None \<and> \<not> fr_SkipHeaderCheck r then check_header L h (fr_state r) else e)
       in case e of Some x \<Rightarrow> Some (r, h, Some x)
       | None \<Rightarrow>
         (if 0 < sint (fr_MaxFrameSize r) \<and> sint (fr_MaxFrameSize r) < sint (h_length h)
          then Some (r, h, Some ErrFrameTooLarge)
          else (case attach_raw h (fr_low r) of (l, b) \<Rightarrow>
            let r = r\<lparr>fr_low := l\<rparr>
            in case is_compressed L h of
                 (_, Some x) \<Rightarrow> Some (r, h, Some x)
               | (compressed, None) \<Rightarrow>
                 Option.bind
                   (if compressed then
                      (case fr_GetFlateReader r of
                         None \<Rightarrow> Some (r, RBase b, Some (Errorf ''required `GetFlateReader`''))
                       | Some get \<Rightarrow> Option.bind (get (fr_store r) b) (\<lambda>(st, a).
                           Some (r\<lparr>fr_store := st, fr_flateReader := Some a\<rparr>, RFlate, None)))
                    else Some (r, RBase b, None))
                   (\<lambda>(r, i, e).
                     case e of Some x \<Rightarrow> Some (r, h, Some x)
                     | None \<Rightarrow>
                       (case unset_bits (fr_Extensions r) h of
                          (h, Some x) \<Rightarrow> Some (r, h, Some x)
                        | (h, None) \<Rightarrow>
                          (if fragmented L r then
                             if is_control L (h_op h) then
                               Option.bind
                                 (case onI of Some cb \<Rightarrow> cb h (inner_read D i) r | None \<Rightarrow> Some (r, None))
                                 (\<lambda>(r, e).
                                   case e of Some x \<Rightarrow> Some (r, h, Some x)
                                   | None \<Rightarrow> Option.bind (discard_raw r) (\<lambda>(r, e). Some (r, h, e)))
                             else install_frame L D onC h i r
                           else install_frame L D onC h i (r\<lparr>fr_opCode := h_op h\<rparr>)))))))"

definition read_body ::
    "('x, 'cw) ws_lib \<Rightarrow> 'd dec \<Rightarrow> reader_ref \<Rightarrow> ('d, 'x) frame_reader rd" where
  "read_body L D f r n =
     Option.bind (frame_read L D f r n) (\<lambda>(r, bs, e).
       if e \<noteq> None \<and> e \<noteq> Some EOF then Some (r, bs, e)
       else if e = None \<and> lw_n (fr_low r) \<noteq> 0 then Some (r, bs, None)
       else if lw_n (fr_low r) \<noteq> 0 then Some (r, bs, Some ErrUnexpectedEOF)
       else if fragmented L r then Some (resetFragment r, bs, None)
       else if fr_CheckUTF8 r \<and> \<not> utf8_valid L (fr_utf8 r)
         then Some (r, take (utf8_accepted L (fr_utf8 r)) bs, Some ErrInvalidUTF8)
       else Some (reset L r, bs, Some EOF))"

definition FrameReader_Read ::
    "('x, 'cw) ws_lib \<Rightarrow> 'd dec \<Rightarrow> ('d, 'x) frame_reader handler option \<Rightarrow> ('d, 'x) frame_reader handler option
      \<Rightarrow> ('d, 'x) frame_reader rd" where
  "FrameReader_Read L D onI onC r n =
     (case fr_frame r of
        Some f \<Rightarrow> read_body L D f r n
      | None \<Rightarrow>
          if \<not> fragmented L r then Some (r, [], Some ErrNoFrameAdvance)
          else Option.bind (NextFrame L D onI onC r) (\<lambda>(r, h, e).
            case e of Some x \<Rightarrow> Some (r, [], Some x)
            | None \<Rightarrow>
              (case fr_frame r of
                 None \<Rightarrow> Some (r, [], None)
               | Some f \<Rightarrow> read_body L D f r n)))"

partial_function (option) discard_loop ::
    "('x, 'cw) ws_lib \<Rightarrow> 'd dec \<Rightarrow> ('d, 'x) frame_reader handler option \<Rightarrow> ('d, 'x) frame_reader handler option
      \<Rightarrow> ('d, 'x) frame_reader \<Rightarrow> (('d, 'x) frame_reader \<times> err option) option" where
  [code]: "discard_loop L D onI onC r =
     Option.bind (discard_raw r) (\<lambda>(r, e).
       if e \<noteq> None then Some (r, e)
       else if \<not> fragmented L r then Some (r, None)
       else Option.bind (NextFrame L D onI onC r) (\<lambda>(r, h, e).
         if e \<noteq> None then Some (r, e) else discard_loop L D onI onC r))"

definition Discard ::
    "('x, 'cw) ws_lib \<Rightarrow> 'd dec \<Rightarrow> ('d, 'x) frame_reader handler option \<Rightarrow> ('d, 'x) frame_reader handler option
      \<Rightarrow> ('d, 'x) frame_reader \<Rightarrow> (('d, 'x) frame_reader \<times> err option) option" where
  "Discard L D onI onC r = Option.bind (discard_loop L D onI onC r) (\<lambda>(r, e). Some (reset L r, e))"

text \<open>\<open>NewFrameReader\<close>: every other field has its zero value.\<close>

definition NewFrameReader :: "('x, 'cw) ws_lib \<Rightarrow> 'd flate_store \<Rightarrow> conn \<Rightarrow> byte \<Rightarrow> ('d, 'x) frame_reader" where
  "NewFrameReader L st c s =
     \<lparr>fr_low = \<lparr>lw_src = c, lw_n = 0, lw_cipher = None\<rparr>, fr_state = s, fr_SkipHeaderCheck = False,
      fr_CheckUTF8 = False, fr_Extensions = [], fr_MaxFrameSize = 0, fr_GetFlateReader = None,
      fr_PutFlateReader = None, fr_opCode = 0, fr_frame = None, fr_utf8 = utf8_zero L, fr_utf8_src = None,
      fr_flateReader = None, fr_store = st\<rparr>"

definition NextReader ::
    "('x, 'cw) ws_lib \<Rightarrow> 'd dec \<Rightarrow> 'd flate_store \<Rightarrow> conn \<Rightarrow> byte
      \<Rightarrow> (header \<times> ('d, 'x) frame_reader option \<times> err option) option" where
  "NextReader L D st c s =
     Option.bind (NextFrame L D None None (NewFrameReader L st c s)) (\<lambda>(r, h, e).
       case e of Some x \<Rightarrow> Some (h, None, Some x) | None \<Rightarrow> Some (h, Some r, None))"

end
