(* ===== verification/FrameStream.thy ===== *)
theory FrameStream
  imports FrameReader
begin

text \<open>
  The frame reader as a reader: the readers below a frame satisfy the contract of \<open>io.Reader\<close>, and so does
  \<open>FrameReader.Read\<close> on a data message, whose content is the concatenation of its unmasked fragments.
\<close>

section \<open>The readers below a frame\<close>

definition raw_content :: "lower \<Rightarrow> bytes" where
  "raw_content l = take (nat (lw_n l)) (conn_content (lw_src l))"

definition raw_fin :: "lower \<Rightarrow> err set" where
  "raw_fin l = limited_fin (length (conn_content (lw_src l))) (nat (lw_n l)) {in_err (lw_src l)}"

definition raw_stall :: "lower \<Rightarrow> nat" where
  "raw_stall l = length (in_chunks (lw_src l))"

interpretation raw: sticky_stream raw_read "\<lambda>_. True" raw_content raw_fin raw_stall
proof -
  have "sticky_stream raw_read
      (\<lambda>l. case (lw_src l, lw_n l) of (s, N) \<Rightarrow> True)
      (\<lambda>l. case (lw_src l, lw_n l) of (s, N) \<Rightarrow> take (nat N) (conn_content s))
      (\<lambda>l. case (lw_src l, lw_n l) of (s, N) \<Rightarrow> limited_fin (length (conn_content s)) (nat N) {in_err s})
      (\<lambda>l. case (lw_src l, lw_n l) of (s, N) \<Rightarrow> length (in_chunks s))"
    unfolding raw_read_def
    by (rule sticky_stream.via_sticky [OF net.limited_sticky]) (simp split: prod.split)
  then show "sticky_stream raw_read (\<lambda>_. True) raw_content raw_fin raw_stall"
    by (simp add: raw_content_def [abs_def] raw_fin_def [abs_def] raw_stall_def [abs_def])
qed

lemma raw_read_frame:
  assumes "raw_read l n = Some (l', bs, e)"
  shows "lw_cipher l' = lw_cipher l"
    and "0 \<le> lw_n l \<Longrightarrow> lw_n l' = lw_n l - int (length bs) \<and> 0 \<le> lw_n l'"
    and "drop (nat (lw_n l')) (conn_content (lw_src l')) = drop (nat (lw_n l)) (conn_content (lw_src l))"
    and "length (in_chunks (lw_src l')) \<le> length (in_chunks (lw_src l))"
    and "conn_env (lw_src l') = conn_env (lw_src l)"
    and "conn_content (lw_src l) = bs @ conn_content (lw_src l')"
proof -
  from assms obtain c N where r: "limited_read conn_read (lw_src l, lw_n l) n = Some ((c, N), bs, e)"
    and l': "l' = l\<lparr>lw_src := c, lw_n := N\<rparr>"
    by (auto simp: raw_read_def via_def dest!: bind_eq_SomeD)
  have *: "c = lw_src l \<and> N = lw_n l \<and> bs = [] \<and> lw_n l \<le> 0
      \<or> 0 < lw_n l \<and> N = lw_n l - int (length bs)
        \<and> conn_read (lw_src l) (if lw_n l < int n then nat (lw_n l) else n) = Some (c, bs, e)"
    using r by (auto simp: limited_read_def split: if_splits dest!: bind_eq_SomeD)
  have len: "length bs \<le> nat (lw_n l)" if "0 < lw_n l"
    using * net.rd_len [OF TrueI] that by (fastforce split: if_splits)
  show "lw_cipher l' = lw_cipher l" by (simp add: l')
  show "lw_n l' = lw_n l - int (length bs) \<and> 0 \<le> lw_n l'" if "0 \<le> lw_n l"
    using * len that by (auto simp: l')
  have c: "conn_content (lw_src l) = bs @ conn_content c"
    using * by (elim disjE conjE) (simp, rule conn_read_content)
  show "drop (nat (lw_n l')) (conn_content (lw_src l')) = drop (nat (lw_n l)) (conn_content (lw_src l))"
    using *
  proof (elim disjE conjE)
    assume "0 < lw_n l" "N = lw_n l - int (length bs)"
    moreover from this have "nat N = nat (lw_n l) - length bs" by linarith
    ultimately show ?thesis using len by (simp add: l' c)
  qed (simp add: l')
  show "length (in_chunks (lw_src l')) \<le> length (in_chunks (lw_src l))"
    using * by (auto simp: l' dest: conn_read_chunks)
  show "conn_env (lw_src l') = conn_env (lw_src l)"
    using * conn_read_env by (auto simp: l')
  show "conn_content (lw_src l) = bs @ conn_content (lw_src l')" by (simp add: l' c [symmetric])
qed

text \<open>The masked frame: the same bytes, unmasked.\<close>

lemma ciph_read_Some:
  "ciph_read l n = Some (l', bs', e) \<longleftrightarrow>
     (\<exists>c l1 bs. lw_cipher l = Some c \<and> c_r c \<and> raw_read l n = Some (l1, bs, e)
       \<and> bs' = cipher_spec (c_m c) (c_pos c) bs
       \<and> l' = l1\<lparr>lw_cipher := Some (if bs = [] then c else c\<lparr>c_pos := (c_pos c + length bs) mod 4\<rparr>)\<rparr>)"
  by (cases "lw_cipher l") (auto simp: ciph_read_def cipher_read_Some bind_eq_Some_conv)

fun base_ok :: "base_ref \<Rightarrow> lower \<Rightarrow> bool" where
  "base_ok RRaw l = True"
| "base_ok RCipher l = (case lw_cipher l of None \<Rightarrow> False | Some c \<Rightarrow> c_r c)"

fun base_content :: "base_ref \<Rightarrow> lower \<Rightarrow> bytes" where
  "base_content RRaw l = raw_content l"
| "base_content RCipher l =
     (case lw_cipher l of None \<Rightarrow> [] | Some c \<Rightarrow> cipher_spec (c_m c) (c_pos c) (raw_content l))"

lemma raw_content_cipher [simp]: "raw_content (l\<lparr>lw_cipher := c\<rparr>) = raw_content l"
  and raw_fin_cipher [simp]: "raw_fin (l\<lparr>lw_cipher := c\<rparr>) = raw_fin l"
  and raw_stall_cipher [simp]: "raw_stall (l\<lparr>lw_cipher := c\<rparr>) = raw_stall l"
  by (simp_all add: raw_content_def raw_fin_def raw_stall_def)

lemma ciph_sticky:
  "sticky_stream ciph_read (base_ok RCipher) (base_content RCipher) raw_fin raw_stall"
proof (unfold_locales, goal_cases)
  case (1 l n)
  obtain l' bs e where "raw_read l n = Some (l', bs, e)" by (rule raw.rd_answers [OF TrueI])
  with 1 show ?case by (auto simp: ciph_read_def cipher_read_def split: option.splits)
next
  case (2 l n l' bs e)
  then show ?case using raw.rd_len [OF TrueI] by (auto simp: ciph_read_Some)
next
  case (3 l n l' bs)
  then obtain c l1 b where c: "lw_cipher l = Some c" "c_r c" and r: "raw_read l n = Some (l1, b, None)"
    and bs: "bs = cipher_spec (c_m c) (c_pos c) b"
    and l': "l' = l1\<lparr>lw_cipher := Some (if b = [] then c else c\<lparr>c_pos := (c_pos c + length b) mod 4\<rparr>)\<rparr>"
    by (auto simp: ciph_read_Some)
  from raw.rd_more [OF TrueI r] c show ?case
    by (cases b) (simp_all add: l' bs cipher_spec_append)
next
  case (4 l n l' bs x)
  then show ?case using raw.rd_err [OF TrueI] by (fastforce simp: ciph_read_Some)
next
  case (5 l n l' bs x)
  then show ?case using raw.rd_sticky [OF TrueI] by (fastforce simp: ciph_read_Some)
qed

interpretation base: sticky_stream "base_read b" "base_ok b" "base_content b" raw_fin raw_stall for b
proof (cases b)
  case RRaw
  have "base_read RRaw = raw_read" "base_ok RRaw = (\<lambda>_. True)" "base_content RRaw = raw_content"
    by (simp_all add: fun_eq_iff)
  then show "sticky_stream (base_read b) (base_ok b) (base_content b) raw_fin raw_stall"
    using RRaw raw.sticky_stream_axioms by simp
next
  case RCipher
  have "base_read RCipher = ciph_read" by (simp add: fun_eq_iff)
  then show "sticky_stream (base_read b) (base_ok b) (base_content b) raw_fin raw_stall"
    using RCipher ciph_sticky by simp
qed

lemma base_read_frame:
  assumes "base_read b l n = Some (l', bs, e)"
  shows "0 \<le> lw_n l \<Longrightarrow> lw_n l' = lw_n l - int (length bs) \<and> 0 \<le> lw_n l'"
    and "drop (nat (lw_n l')) (conn_content (lw_src l')) = drop (nat (lw_n l)) (conn_content (lw_src l))"
    and "length (in_chunks (lw_src l')) \<le> length (in_chunks (lw_src l))"
    and "conn_env (lw_src l') = conn_env (lw_src l)"
    and "length (conn_content (lw_src l)) = length bs + length (conn_content (lw_src l'))"
proof -
  obtain l1 bs1 where r: "raw_read l n = Some (l1, bs1, e)" and len: "length bs1 = length bs"
    and l': "lw_src l' = lw_src l1" "lw_n l' = lw_n l1"
    using assms by (cases b) (auto simp: ciph_read_Some)
  note facts = raw_read_frame [OF r]
  show "0 \<le> lw_n l \<Longrightarrow> lw_n l' = lw_n l - int (length bs) \<and> 0 \<le> lw_n l'"
    using facts(2) by (simp add: l' len)
  show "drop (nat (lw_n l')) (conn_content (lw_src l')) = drop (nat (lw_n l)) (conn_content (lw_src l))"
    and "length (in_chunks (lw_src l')) \<le> length (in_chunks (lw_src l))"
    and "conn_env (lw_src l') = conn_env (lw_src l)"
    using facts(3-5) by (simp_all add: l')
  show "length (conn_content (lw_src l)) = length bs + length (conn_content (lw_src l'))"
    using facts(6) by (simp add: l' len [symmetric])
qed

text \<open>A reader whose frame is complete ends with \<^const>\<open>EOF\<close>, unless an eager error comes with its last bytes.\<close>

definition frame_complete :: "lower \<Rightarrow> bool" where
  "frame_complete l \<longleftrightarrow> 0 \<le> lw_n l \<and> nat (lw_n l) \<le> length (conn_content (lw_src l))"

lemma base_read_error:
  assumes "base_read b l n = Some (l', bs, Some x)" and "frame_complete l"
  shows "x = EOF \<or> x = in_err (lw_src l) \<and> in_eager (lw_src l) \<and> conn_content (lw_src l') = []"
proof -
  obtain l1 bs1 where r: "raw_read l n = Some (l1, bs1, Some x)" and l': "lw_src l' = lw_src l1"
    using assms(1) by (cases b) (auto simp: ciph_read_Some)
  show ?thesis
  proof (cases "lw_n l \<le> 0")
    case True
    with r show ?thesis by (simp add: raw_read_def via_def limited_read_def)
  next
    case False
    with r have c: "conn_read (lw_src l) (if lw_n l < int n then nat (lw_n l) else n) = Some (lw_src l1, bs1, Some x)"
      by (auto simp: raw_read_def via_def limited_read_def split: if_splits dest!: bind_eq_SomeD)
    have "conn_content (lw_src l) \<noteq> []" using False assms(2) by (auto simp: frame_complete_def)
    then have "in_chunks (lw_src l) \<noteq> []" by (auto simp: conn_content_def)
    with conn_read_error [OF c] l' show ?thesis by simp
  qed
qed

lemma base_read_complete:
  assumes "base_read b l n = Some (l', bs, e)" and "frame_complete l"
  shows "frame_complete l'"
  using base_read_frame(1,5) [OF assms(1)] assms(2) by (auto simp: frame_complete_def)

end
