(* ===== verification/FrameMessage.thy ===== *)
theory FrameMessage
  imports FrameStream
begin

text \<open>
  A data message is a first frame and, unless that frame is final, continuation frames up to a final one,
  with control frames in between.  \<open>frags\<close> says what the bytes after the first frame hold, \<open>msg_content\<close> what
  \<open>FrameReader.Read\<close> still has to deliver; the interpretation \<open>msg\<close> shows that \<open>Read\<close> delivers exactly that.
\<close>

definition quiet :: "conn \<Rightarrow> bool" where
  "quiet c \<longleftrightarrow> w_faults c = [] \<and> f_faults c = []"

definition unmask :: "header \<Rightarrow> bytes \<Rightarrow> bytes" where
  "unmask h p = (if h_masked h then cipher_spec (h_mask h) 0 p else p)"

type_synonym cfg = "bool \<times> i64 \<times> (header \<Rightarrow> header \<times> err option) list"

definition fr_cfg :: "('d, 'x) frame_reader \<Rightarrow> cfg" where
  "fr_cfg r = (fr_SkipHeaderCheck r, fr_MaxFrameSize r, fr_Extensions r)"

text \<open>The checks of \<open>NextFrame\<close>: header, size, no compression, no reserved bits left.\<close>

definition frame_passes :: "('x, 'cw) ws_lib \<Rightarrow> cfg \<Rightarrow> byte \<Rightarrow> header \<Rightarrow> bool" where
  "frame_passes L = (\<lambda>(skip, max, exts) st h.
     (skip \<or> check_header L h st = None) \<and> \<not> (0 < sint max \<and> sint max < sint (h_length h))
     \<and> is_compressed L h = (False, None) \<and> unset_bits exts h = (h, None))"

lemma parse_header_shorter: "parse_header bs = Parsed h rest \<Longrightarrow> length rest + 2 \<le> length bs"
  by (auto simp: parse_header_def Let_def split: list.splits if_splits)

text \<open>The payload of the remaining frames of a message, and the bytes after it.\<close>

function frags :: "('x, 'cw) ws_lib \<Rightarrow> cfg \<Rightarrow> byte \<Rightarrow> bytes \<Rightarrow> (bytes \<times> bytes) option" where
  "frags L cfg st bs =
     (case parse_header bs of
        Parsed h rest \<Rightarrow>
          (let n = nat (sint (h_length h))
           in if frame_passes L cfg st h \<and> n \<le> length rest then
                (if is_control L (h_op h) then
                   (if h_op h \<in> {OpPing L, OpPong L} \<and> n \<le> 125 then frags L cfg st (drop n rest) else None)
                 else if h_fin h then Some (unmask h (take n rest), drop n rest)
                 else map_option (\<lambda>(q, z). (unmask h (take n rest) @ q, z))
                        (frags L cfg (st_set L st (StateFragmented L)) (drop n rest)))
              else None)
      | _ \<Rightarrow> None)"
  by pat_completeness auto
termination
  by (relation "measure (\<lambda>(L, cfg, st, bs). length bs)") (auto dest: parse_header_shorter)

declare frags.simps [simp del]

text \<open>
  What a handler of ping and pong frames may do, when the frame (at most 125 bytes) is there and more follows:
  read of the frame's payload what it wants, write to the connection, and return no error.
\<close>

definition handler_polite :: "('x, 'cw) ws_lib \<Rightarrow> 'd dec \<Rightarrow> ('d, 'x) frame_reader handler option \<Rightarrow> bool" where
  "handler_polite L D onI \<longleftrightarrow>
     (\<forall>h b r. h_op h \<in> {OpPing L, OpPong L} \<longrightarrow> base_ok b (fr_low r) \<longrightarrow> frame_complete (fr_low r)
        \<longrightarrow> sint (h_length h) = lw_n (fr_low r) \<longrightarrow> sint (h_length h) \<le> 125 \<longrightarrow> quiet (lw_src (fr_low r))
        \<longrightarrow> drop (nat (lw_n (fr_low r))) (conn_content (lw_src (fr_low r))) \<noteq> [] \<longrightarrow>
        (\<exists>l. (case onI of Some cb \<Rightarrow> cb h (inner_read D (RBase b)) r | None \<Rightarrow> Some (r, None))
               = Some (r\<lparr>fr_low := l\<rparr>, None)
           \<and> frame_complete l \<and> quiet (lw_src l)
           \<and> drop (nat (lw_n l)) (conn_content (lw_src l)) = drop (nat (lw_n (fr_low r))) (conn_content (lw_src (fr_low r)))
           \<and> length (in_chunks (lw_src l)) \<le> length (in_chunks (lw_src (fr_low r)))
           \<and> in_err (lw_src l) = in_err (lw_src (fr_low r)) \<and> in_eager (lw_src l) = in_eager (lw_src (fr_low r))))"

definition pending :: "('x, 'cw) ws_lib \<Rightarrow> ('d, 'x) frame_reader \<Rightarrow> (bytes \<times> bytes) option" where
  "pending L r =
     (let bs = drop (nat (lw_n (fr_low r))) (conn_content (lw_src (fr_low r)))
      in if fragmented L r then frags L (fr_cfg r) (fr_state r) bs else Some ([], bs))"

text \<open>
  A flate reader that was taken for an earlier fragment is given back at the end of the message, which leaves the
  transport's persistent one alone.
\<close>

definition put_keeps :: "('d, 'x) frame_reader \<Rightarrow> bool" where
  "put_keeps r \<longleftrightarrow> fr_flateReader r = None
     \<or> (\<forall>put st a. fr_PutFlateReader r = Some put \<longrightarrow> fs_persistent (put st a) = fs_persistent st)"

definition msg_ok ::
    "('x, 'cw) ws_lib \<Rightarrow> 'd dec \<Rightarrow> ('d, 'x) frame_reader handler option \<Rightarrow> ('d, 'x) frame_reader \<Rightarrow> bool" where
  "msg_ok L D onI r \<longleftrightarrow> handler_polite L D onI \<and> state_laws L \<and> \<not> fr_CheckUTF8 r \<and> put_keeps r
     \<and> quiet (lw_src (fr_low r))
     \<and> frame_complete (fr_low r) \<and> pending L r \<noteq> None
     \<and> (case fr_frame r of None \<Rightarrow> fragmented L r \<and> lw_n (fr_low r) = 0
        | Some f \<Rightarrow> \<exists>b. f = RInner (RBase b) \<and> base_ok b (fr_low r))"

definition msg_content :: "('x, 'cw) ws_lib \<Rightarrow> ('d, 'x) frame_reader \<Rightarrow> bytes" where
  "msg_content L r =
     (case fr_frame r of Some (RInner (RBase b)) \<Rightarrow> base_content b (fr_low r) | _ \<Rightarrow> [])
     @ fst (the (pending L r))"

definition msg_rest :: "('x, 'cw) ws_lib \<Rightarrow> ('d, 'x) frame_reader \<Rightarrow> bytes" where
  "msg_rest L r = snd (the (pending L r))"

definition msg_fin :: "('x, 'cw) ws_lib \<Rightarrow> ('d, 'x) frame_reader \<Rightarrow> err set" where
  "msg_fin L r = (if in_eager (lw_src (fr_low r)) \<and> msg_rest L r = []
     then {EOF, in_err (lw_src (fr_low r))} else {EOF})"

definition msg_stall :: "('d, 'x) frame_reader \<Rightarrow> nat" where
  "msg_stall r = length (conn_content (lw_src (fr_low r))) + length (in_chunks (lw_src (fr_low r)))
     + (if fr_frame r = None then 0 else 1)"

text \<open>
  What the reading of a message does not change, and two states of it: the second has the first's bytes but
  \<open>bs\<close> to deliver.
\<close>

definition fr_setup :: "('x, 'cw) ws_lib \<Rightarrow> ('d, 'x) frame_reader \<Rightarrow> _" where
  "fr_setup L r = (fr_cfg r, fr_CheckUTF8 r, fr_GetFlateReader r, fr_PutFlateReader r, fs_persistent (fr_store r),
     st_clear L (fr_state r) (StateFragmented L), in_err (lw_src (fr_low r)), in_eager (lw_src (fr_low r)))"

definition msg_step :: "('x, 'cw) ws_lib \<Rightarrow> bytes \<Rightarrow> ('d, 'x) frame_reader \<Rightarrow> ('d, 'x) frame_reader \<Rightarrow> bool" where
  "msg_step L bs r r' \<longleftrightarrow> msg_content L r = bs @ msg_content L r' \<and> msg_rest L r' = msg_rest L r
     \<and> fr_setup L r' = fr_setup L r"

text \<open>The state after the message: no frame, and the connection just behind the message.\<close>

definition msg_end :: "('x, 'cw) ws_lib \<Rightarrow> ('d, 'x) frame_reader \<Rightarrow> ('d, 'x) frame_reader \<Rightarrow> bool" where
  "msg_end L r r' \<longleftrightarrow> fr_frame r' = None \<and> \<not> fragmented L r' \<and> fr_flateReader r' = None
     \<and> lw_n (fr_low r') = 0 \<and> quiet (lw_src (fr_low r'))
     \<and> conn_content (lw_src (fr_low r')) = msg_rest L r \<and> fr_setup L r' = fr_setup L r"

lemma fr_setup_fields:
  assumes "fr_setup L r' = fr_setup L r"
  shows "in_err (lw_src (fr_low r')) = in_err (lw_src (fr_low r))"
    "in_eager (lw_src (fr_low r')) = in_eager (lw_src (fr_low r))"
    "fr_cfg r' = fr_cfg r" "fr_CheckUTF8 r' = fr_CheckUTF8 r"
    "st_clear L (fr_state r') (StateFragmented L) = st_clear L (fr_state r) (StateFragmented L)"
  using assms by (simp_all add: fr_setup_def)

lemma pending_low:
  assumes "fr_state r' = fr_state r" "fr_cfg r' = fr_cfg r"
    and "drop (nat (lw_n (fr_low r'))) (conn_content (lw_src (fr_low r')))
       = drop (nat (lw_n (fr_low r))) (conn_content (lw_src (fr_low r)))"
  shows "pending L r' = pending L r"
  using assms by (simp add: pending_def fragmented_def Let_def)

lemma state_laws_clear:
  assumes "state_laws L"
  shows "st_clear L (st_clear L s (StateFragmented L)) (StateFragmented L) = st_clear L s (StateFragmented L)"
    "st_clear L (st_set L s (StateFragmented L)) (StateFragmented L) = st_clear L s (StateFragmented L)"
    "\<not> st_fragmented L s \<Longrightarrow> st_clear L s (StateFragmented L) = s"
  using assms by (simp_all add: state_laws_def)

lemma frags_Nil [simp]: "frags L cfg st [] = None"
  by (simp add: frags.simps parse_header_def)

lemma base_content_length: "base_ok b l \<Longrightarrow> frame_complete l \<Longrightarrow> length (base_content b l) = nat (lw_n l)"
  by (cases b) (auto simp: raw_content_def frame_complete_def split: option.splits)

lemma base_content_empty: "lw_n l = 0 \<Longrightarrow> base_content b l = []"
  by (cases b) (auto simp: raw_content_def split: option.splits)

lemma quiet_env: "conn_env c' = conn_env c \<Longrightarrow> quiet c' = quiet c"
  by (simp add: quiet_def conn_env_def)

section \<open>Reading the frame at hand\<close>

lemma read_body_msg:
  fixes D :: "'d dec" and r :: "('d, 'x) frame_reader" and L :: "('x, 'cw) ws_lib"
  assumes ok: "msg_ok L D onI r" and f: "fr_frame r = Some f"
  shows "\<exists>r' bs e. read_body L D f r n = Some (r', bs, e) \<and> length bs \<le> n
    \<and> (e = None \<longrightarrow> msg_ok L D onI r' \<and> msg_step L bs r r' \<and> (bs = [] \<longrightarrow> 0 < n \<longrightarrow> msg_stall r' < msg_stall r))
    \<and> (\<forall>x. e = Some x \<longrightarrow> msg_content L r = bs \<and> x \<in> msg_fin L r \<and> (x = EOF \<longrightarrow> msg_end L r r'))"
proof -
  obtain b where fb: "f = RInner (RBase b)" and bok: "base_ok b (fr_low r)"
    using ok f by (auto simp: msg_ok_def)
  let ?l = "fr_low r"
  from ok have complete: "frame_complete ?l" and pend: "pending L r \<noteq> None" and utf8: "\<not> fr_CheckUTF8 r"
    and pol: "handler_polite L D onI" and laws: "state_laws L" and quiet: "quiet (lw_src ?l)"
    by (auto simp: msg_ok_def)
  obtain l bs e where rd: "base_read b ?l n = Some (l, bs, e)" by (rule base.rd_answers [OF bok])
  note len = base.rd_len [OF bok rd]
  note fr = base_read_frame [OF rd]
  have n: "lw_n l = lw_n ?l - int (length bs)" "0 \<le> lw_n l"
    using fr(1) complete by (auto simp: frame_complete_def)
  note complete' = base_read_complete [OF rd complete]
  have clen: "length (base_content b ?l) = nat (lw_n ?l)" by (rule base_content_length [OF bok complete])
  have last: "e \<noteq> None \<Longrightarrow> lw_n l = 0"
    using base.rd_err [OF bok] rd clen n complete by (cases e) (auto simp: frame_complete_def)
  have all: "lw_n l = 0 \<Longrightarrow> base_content b ?l = bs"
    using base.rd_err [OF bok] base.rd_more [OF bok] rd by (cases e) (auto simp: base_content_empty)
  let ?r = "r\<lparr>fr_low := l\<rparr>"
  have env: "quiet (lw_src l)" "in_err (lw_src l) = in_err (lw_src ?l)" "in_eager (lw_src l) = in_eager (lw_src ?l)"
    using quiet_env [OF fr(4)] quiet conn_env_fields [OF fr(4)] by simp_all
  have content: "msg_content L r = base_content b ?l @ fst (the (pending L r))"
    by (simp add: msg_content_def f fb)
  have frame_rd: "frame_read L D f r n = Some (?r, bs, e)" by (simp add: fb rd)
  show ?thesis
  proof (cases "lw_n l = 0")
    case False
    with last have e: "e = None" by blast
    note more = base.rd_more [OF bok, of n l bs] rd [unfolded e]
    have p: "pending L ?r = pending L r"
      by (rule pending_low) (use fr(2) in \<open>simp_all add: fr_cfg_def\<close>)
    have "msg_ok L D onI ?r"
      using ok f fb more complete' env p by (auto simp: msg_ok_def put_keeps_def)
    moreover have "msg_step L bs r ?r"
      using more env by (simp add: msg_step_def content msg_rest_def p fr_setup_def fr_cfg_def) (simp add: msg_content_def f fb p)
    moreover have "bs = [] \<longrightarrow> 0 < n \<longrightarrow> msg_stall ?r < msg_stall r"
      using more fr(5) by (auto simp: msg_stall_def raw_stall_def f)
    moreover have "read_body L D f r n = Some (?r, bs, None)"
      by (simp add: read_body_def frame_rd e False)
    ultimately show ?thesis using len by blast
  next
    case True
    note bs = all [OF True]
    consider (err) x where "e = Some x" "x \<noteq> EOF" | (frag) "e = None \<or> e = Some EOF" "fragmented L r"
      | (fin) "e = None \<or> e = Some EOF" "\<not> fragmented L r"
      by (cases e) auto
    then show ?thesis
    proof cases
      case err
      with base_read_error [OF _ complete, of b n l bs x] rd
      have x: "x = in_err (lw_src ?l)" "in_eager (lw_src ?l)" "conn_content (lw_src l) = []" by auto
      with fr(2) have rest: "drop (nat (lw_n ?l)) (conn_content (lw_src ?l)) = []" by simp
      with pend have nf: "\<not> fragmented L r" by (auto simp: pending_def)
      with rest have "pending L r = Some ([], [])" by (simp add: pending_def)
      moreover have "read_body L D f r n = Some (?r, bs, Some x)"
        using err by (simp add: read_body_def frame_rd)
      ultimately show ?thesis using len bs x err(2) by (auto simp: content msg_fin_def msg_rest_def)
    next
      case frag
      let ?r' = "resetFragment ?r"
      have p: "pending L ?r' = pending L r"
        by (rule pending_low) (use fr(2) True in \<open>simp_all add: fr_cfg_def resetFragment_def low_detach_def\<close>)
      have "msg_ok L D onI ?r'"
        using ok frag env p by (simp add: msg_ok_def put_keeps_def resetFragment_def low_detach_def frame_complete_def fragmented_def)
      moreover have "msg_content L ?r' = fst (the (pending L r))"
        using p by (simp add: msg_content_def resetFragment_def)
      then have "msg_step L bs r ?r'"
        using env bs p by (simp add: msg_step_def content msg_rest_def)
          (simp add: resetFragment_def low_detach_def fr_setup_def fr_cfg_def)
      moreover have "bs = [] \<longrightarrow> 0 < n \<longrightarrow> msg_stall ?r' < msg_stall r"
        using fr(3,5) f by (simp add: msg_stall_def resetFragment_def low_detach_def)
      moreover have "read_body L D f r n = Some (?r', bs, None)"
        using frag True by (auto simp: read_body_def frame_rd fragmented_def)
      ultimately show ?thesis using len by blast
    next
      case fin
      then have "fst (the (pending L r)) = []" by (simp add: pending_def)
      moreover have "msg_end L r (reset L ?r)"
        using fin fr(2) True env ok
        by (auto simp: msg_end_def reset_def Let_def msg_ok_def put_keeps_def fragmented_def low_detach_def fr_setup_def fr_cfg_def
            msg_rest_def pending_def split: option.split)
      moreover have "read_body L D f r n = Some (reset L ?r, bs, Some EOF)"
        using fin True utf8 by (auto simp: read_body_def frame_rd fragmented_def)
      ultimately show ?thesis using len bs by (auto simp: content msg_fin_def)
    qed
  qed
qed

section \<open>Advancing to the next frame\<close>

text \<open>The header of the next frame, read from the connection.\<close>

lemma conn_ReadHeader:
  assumes "parse_header (conn_content c) = Parsed h rest"
  obtains c' where "ReadHeader conn_read c = Some (c', h, None)" "conn_content c' = rest"
    "conn_env c' = conn_env c" "length (in_chunks c') \<le> length (in_chunks c)"
proof -
  obtain c' where r: "ReadHeader conn_read c = Some (c', h, None)" and c': "conn_content c' = rest"
    using net.ReadHeader_Parsed [OF TrueI assms] by blast
  have "conn_env c' = conn_env c"
    using r by (rule ReadHeader_keeps [where I = "\<lambda>s. conn_env s = conn_env c", rotated]) (auto dest: conn_read_env)
  moreover have "length (in_chunks c') \<le> length (in_chunks c)"
    using r by (rule ReadHeader_keeps [where I = "\<lambda>s. length (in_chunks s) \<le> length (in_chunks c)", rotated])
      (auto dest: conn_read_chunks)
  ultimately show thesis using r c' that by blast
qed

lemma attach_raw_facts:
  assumes "attach_raw h l = (l', b)" and "0 \<le> sint (h_length h)"
    and "nat (sint (h_length h)) \<le> length (conn_content (lw_src l))"
  shows "lw_src l' = lw_src l" "lw_n l' = sint (h_length h)" "base_ok b l'" "frame_complete l'"
    "base_content b l' = unmask h (take (nat (sint (h_length h))) (conn_content (lw_src l)))"
  using assms
  by (auto simp: attach_raw_def Let_def frame_complete_def unmask_def raw_content_def
      NewCipherReader_def cipher_reset_def split: if_splits option.splits)

text \<open>The rest of a frame's payload is thrown away, and only that.\<close>

lemma discard_raw_rest:
  assumes complete: "frame_complete (fr_low r)" and "frags L cfg st (drop (nat (lw_n (fr_low r))) (conn_content (lw_src (fr_low r)))) \<noteq> None"
  shows "\<exists>l. discard_raw r = Some (r\<lparr>fr_low := l\<rparr>, None) \<and> lw_n l = 0
    \<and> conn_content (lw_src l) = drop (nat (lw_n (fr_low r))) (conn_content (lw_src (fr_low r)))
    \<and> conn_env (lw_src l) = conn_env (lw_src (fr_low r))
    \<and> length (in_chunks (lw_src l)) \<le> length (in_chunks (lw_src (fr_low r)))"
proof -
  let ?l = "fr_low r"
  define I where "I l \<longleftrightarrow> frame_complete l
    \<and> drop (nat (lw_n l)) (conn_content (lw_src l)) = drop (nat (lw_n ?l)) (conn_content (lw_src ?l))
    \<and> conn_env (lw_src l) = conn_env (lw_src ?l) \<and> length (in_chunks (lw_src l)) \<le> length (in_chunks (lw_src ?l))" for l
  have step: "I l'" if "I l" "raw_read l n = Some (l', bs, e)" for l n l' bs e
    using that base_read_frame [of RRaw l n l' bs e] base_read_complete [of RRaw l n l' bs e]
    by (auto simp: I_def)
  have I: "I ?l" using complete by (simp add: I_def)
  obtain l l0 bs x where d: "io_discard raw_read ?l = Some (l, if x = EOF then None else Some x)"
    and I0: "I l0" and r: "raw_read l0 8192 = Some (l, bs, Some x)"
    using raw.io_discard_last [where I = I, OF TrueI I] step by (metis (no_types, lifting))
  from step [OF I0 r] have I: "I l" .
  from raw.rd_sticky [OF TrueI r] have "raw_content l = []" by simp
  with I have n: "lw_n l = 0" by (auto simp: I_def raw_content_def frame_complete_def)
  with I have c: "conn_content (lw_src l) = drop (nat (lw_n ?l)) (conn_content (lw_src ?l))" by (simp add: I_def)
  have "x = EOF"
    using base_read_error [of RRaw l0 8192 l bs x] r I0 c assms(2) by (auto simp: I_def)
  with d n c I show ?thesis by (auto simp: discard_raw_def I_def)
qed

lemma NextFrame_msg:
  fixes D :: "'d dec" and r :: "('d, 'x) frame_reader" and L :: "('x, 'cw) ws_lib"
  assumes ok: "msg_ok L D onI r" and f: "fr_frame r = None"
  shows "\<exists>r' h. NextFrame L D onI None r = Some (r', h, None) \<and> msg_ok L D onI r' \<and> msg_step L [] r r'
    \<and> msg_stall r' < msg_stall r"
proof -
  let ?l = "fr_low r" and ?c = "lw_src (fr_low r)"
  from ok f have frag: "fragmented L r" and n0: "lw_n ?l = 0" and utf8: "\<not> fr_CheckUTF8 r"
    and pol: "handler_polite L D onI" and laws: "state_laws L" and quiet: "quiet ?c"
    and pend: "frags L (fr_cfg r) (fr_state r) (conn_content ?c) \<noteq> None"
    by (auto simp: msg_ok_def pending_def)
  then have pnd: "pending L r = frags L (fr_cfg r) (fr_state r) (conn_content ?c)" by (simp add: pending_def)
  obtain h rest where ph: "parse_header (conn_content ?c) = Parsed h rest"
    using pend by (subst (asm) frags.simps) (auto split: parsed.splits)
  let ?n = "nat (sint (h_length h))"
  from pend have "frame_passes L (fr_cfg r) (fr_state r) h \<and> ?n \<le> length rest"
    by (subst (asm) frags.simps) (simp add: ph Let_def split: if_splits)
  then have pass: "frame_passes L (fr_cfg r) (fr_state r) h" and enough: "?n \<le> length rest" by blast+
  note nonneg = parse_header_length [OF ph]
  obtain c1 where rh: "ReadHeader conn_read ?c = Some (c1, h, None)" and c1: "conn_content c1 = rest"
    "conn_env c1 = conn_env ?c" "length (in_chunks c1) \<le> length (in_chunks ?c)"
    by (rule conn_ReadHeader [OF ph])
  obtain l1 b where at: "attach_raw h (?l\<lparr>lw_src := c1\<rparr>) = (l1, b)" by force
  note l1 = attach_raw_facts [OF at nonneg, simplified, unfolded c1(1), OF enough]
  let ?r1 = "r\<lparr>fr_low := l1\<rparr>"
  have low: "r\<lparr>fr_low := ?l\<lparr>lw_src := c1\<rparr>, fr_low := l1\<rparr> = ?r1" by simp
  have fr1: "fragmented L ?r1 = fragmented L r" "fragmented L (r\<lparr>fr_low := l\<rparr>) = fragmented L r" for l
    by (simp_all add: fragmented_def)
  from pass have checks: "fr_SkipHeaderCheck r \<or> check_header L h (fr_state r) = None"
    "\<not> (0 < sint (fr_MaxFrameSize r) \<and> sint (fr_MaxFrameSize r) < sint (h_length h))"
    "is_compressed L h = (False, None)" "unset_bits (fr_Extensions r) h = (h, None)"
    by (auto simp: frame_passes_def fr_cfg_def)
  have nf: "NextFrame L D onI None r =
      (if is_control L (h_op h) then
         Option.bind (case onI of Some cb \<Rightarrow> cb h (inner_read D (RBase b)) ?r1 | None \<Rightarrow> Some (?r1, None))
           (\<lambda>(r, e). case e of Some x \<Rightarrow> Some (r, h, Some x)
             | None \<Rightarrow> Option.bind (discard_raw r) (\<lambda>(r, e). Some (r, h, e)))
       else install_frame L D None h (RBase b) ?r1)"
    using checks frag by (auto simp: NextFrame_def rh Let_def at fr1)
  have fg: "frags L (fr_cfg r) (fr_state r) (conn_content ?c) =
      (if is_control L (h_op h) then
         (if h_op h \<in> {OpPing L, OpPong L} \<and> ?n \<le> 125 then frags L (fr_cfg r) (fr_state r) (drop ?n rest) else None)
       else if h_fin h then Some (unmask h (take ?n rest), drop ?n rest)
       else map_option (\<lambda>(q, z). (unmask h (take ?n rest) @ q, z))
              (frags L (fr_cfg r) (st_set L (fr_state r) (StateFragmented L)) (drop ?n rest)))"
    by (subst frags.simps) (simp add: ph pass enough Let_def)
  have shorter: "length rest + 2 \<le> length (conn_content ?c)" by (rule parse_header_shorter [OF ph])
  have q1: "quiet (lw_src l1)" using quiet_env [OF c1(2)] quiet l1(1) by simp
  have err1: "in_err c1 = in_err ?c" "in_eager c1 = in_eager ?c" using conn_env_fields [OF c1(2)] by simp_all
  show ?thesis
  proof (cases "is_control L (h_op h)")
    case True
    with pend fg have op: "h_op h \<in> {OpPing L, OpPong L}"
      and small: "?n \<le> 125" and fg': "frags L (fr_cfg r) (fr_state r) (drop ?n rest) \<noteq> None"
      by (auto split: if_splits)
    then have small': "sint (h_length h) \<le> 125" by linarith
    from fg' have more: "drop ?n rest \<noteq> []" by (metis frags_Nil)
    from pol [unfolded handler_polite_def, rule_format, of h b ?r1] op l1 q1 small' more obtain l2 where
      h2: "(case onI of Some cb \<Rightarrow> cb h (inner_read D (RBase b)) ?r1 | None \<Rightarrow> Some (?r1, None))
          = Some (r\<lparr>fr_low := l2\<rparr>, None)" and
      l2: "frame_complete l2" "quiet (lw_src l2)" "drop (nat (lw_n l2)) (conn_content (lw_src l2)) = drop ?n rest"
        "length (in_chunks (lw_src l2)) \<le> length (in_chunks c1)"
        "in_err (lw_src l2) = in_err c1" "in_eager (lw_src l2) = in_eager c1"
      by (auto simp: c1)
    obtain l3 where d: "discard_raw (r\<lparr>fr_low := l2\<rparr>) = Some (r\<lparr>fr_low := l3\<rparr>, None)" and
      l3: "lw_n l3 = 0" "conn_content (lw_src l3) = drop ?n rest" "conn_env (lw_src l3) = conn_env (lw_src l2)"
        "length (in_chunks (lw_src l3)) \<le> length (in_chunks (lw_src l2))"
      using discard_raw_rest [of "r\<lparr>fr_low := l2\<rparr>" L "fr_cfg r" "fr_state r"] l2 fg' by auto
    let ?r3 = "r\<lparr>fr_low := l3\<rparr>"
    have "NextFrame L D onI None r = Some (?r3, h, None)" by (simp add: nf True h2 d)
    moreover have p: "pending L ?r3 = pending L r"
      using pnd fg True op small l3 frag by (simp add: pending_def fr1 fr_cfg_def)
    moreover have "msg_ok L D onI ?r3"
      using ok f p l3 quiet_env [OF l3(3)] l2 fr1 frag by (simp add: msg_ok_def put_keeps_def frame_complete_def)
    moreover have "msg_step L [] r ?r3"
      using f p conn_env_fields [OF l3(3)] l2 err1
      by (simp add: msg_step_def msg_content_def msg_rest_def fr_setup_def fr_cfg_def)
    moreover have "msg_stall ?r3 < msg_stall r"
      using f l3 l2 c1 shorter by (simp add: msg_stall_def)
    ultimately show ?thesis by blast
  next
    case False
    let ?st = "if h_fin h then st_clear L (fr_state r) (StateFragmented L) else st_set L (fr_state r) (StateFragmented L)"
    let ?r3 = "?r1\<lparr>fr_frame := Some (RInner (RBase b)), fr_state := ?st\<rparr>"
    have "NextFrame L D onI None r = Some (?r3, h, None)"
      by (simp add: nf False install_frame_def utf8)
    moreover have fr3: "fragmented L ?r3 \<longleftrightarrow> \<not> h_fin h" using laws by (auto simp: fragmented_def state_laws_def)
    have p: "pending L ?r3 = (if h_fin h then Some ([], drop ?n rest)
        else frags L (fr_cfg r) (st_set L (fr_state r) (StateFragmented L)) (drop ?n rest))"
      using fr3 l1 c1 by (simp add: pending_def fr_cfg_def)
    have pc: "fst (the (pending L r)) = base_content b l1 @ fst (the (pending L ?r3))"
      "snd (the (pending L r)) = snd (the (pending L ?r3))" "pending L ?r3 \<noteq> None"
      using pnd fg False p l1 c1 pend by (auto split: if_splits)
    moreover have "msg_ok L D onI ?r3"
      using pol laws utf8 q1 l1 pc ok by (simp add: msg_ok_def put_keeps_def)
    moreover have "msg_step L [] r ?r3"
      using f pc err1 l1 laws
      by (simp add: msg_step_def msg_content_def msg_rest_def fr_setup_def fr_cfg_def state_laws_clear)
    moreover have "msg_stall ?r3 < msg_stall r"
      using f l1 c1 shorter by (simp add: msg_stall_def)
    ultimately show ?thesis by blast
  qed
qed

section \<open>A message is a stream\<close>

lemma FrameReader_Read_msg:
  fixes D :: "'d dec" and r :: "('d, 'x) frame_reader" and L :: "('x, 'cw) ws_lib"
  assumes ok: "msg_ok L D onI r"
  shows "\<exists>r' bs e. FrameReader_Read L D onI None r n = Some (r', bs, e) \<and> length bs \<le> n
    \<and> (e = None \<longrightarrow> msg_ok L D onI r' \<and> msg_step L bs r r' \<and> (bs = [] \<longrightarrow> 0 < n \<longrightarrow> msg_stall r' < msg_stall r))
    \<and> (\<forall>x. e = Some x \<longrightarrow> msg_content L r = bs \<and> x \<in> msg_fin L r \<and> (x = EOF \<longrightarrow> msg_end L r r'))"
proof (cases "fr_frame r")
  case (Some f)
  then show ?thesis using read_body_msg [OF ok Some] by (simp add: FrameReader_Read_def)
next
  case None
  with ok have frag: "fragmented L r" by (simp add: msg_ok_def)
  obtain r1 h where nf: "NextFrame L D onI None r = Some (r1, h, None)" and
    r1: "msg_ok L D onI r1" "msg_step L [] r r1" "msg_stall r1 < msg_stall r"
    using NextFrame_msg [OF ok None] by blast
  have fin1: "msg_fin L r1 = msg_fin L r" "msg_content L r1 = msg_content L r"
    using r1(2) fr_setup_fields [of L r1 r] by (simp_all add: msg_step_def msg_fin_def)
  show ?thesis
  proof (cases "fr_frame r1")
    case None': None
    then have "FrameReader_Read L D onI None r n = Some (r1, [], None)"
      using None frag nf by (simp add: FrameReader_Read_def)
    with r1 show ?thesis by auto
  next
    case (Some f)
    then have "FrameReader_Read L D onI None r n = read_body L D f r1 n"
      using None frag nf by (simp add: FrameReader_Read_def)
    moreover have "msg_step L bs r r'" if "msg_step L bs r1 r'" for bs r'
      using that r1(2) by (simp add: msg_step_def)
    moreover obtain r' bs e where "read_body L D f r1 n = Some (r', bs, e)" "length bs \<le> n"
      "e = None \<Longrightarrow> msg_ok L D onI r' \<and> msg_step L bs r1 r' \<and> (bs = [] \<longrightarrow> 0 < n \<longrightarrow> msg_stall r' < msg_stall r1)"
      "\<And>x. e = Some x \<Longrightarrow> msg_content L r1 = bs \<and> x \<in> msg_fin L r1 \<and> (x = EOF \<longrightarrow> msg_end L r1 r')"
      using read_body_msg [OF r1(1) Some, of n] by blast
    moreover have "msg_stall r' < msg_stall r" if "msg_stall r' < msg_stall r1" for r' :: "('d, 'x) frame_reader"
      using that r1(3) by (rule less_trans)
    moreover have "msg_end L r1 r' = msg_end L r r'" for r'
      using r1(2) by (simp add: msg_end_def msg_step_def)
    ultimately show ?thesis unfolding fin1 by metis
  qed
qed

interpretation msg: byte_stream "FrameReader_Read L D onI None" "msg_ok L D onI" "msg_content L" "msg_fin L" msg_stall
  for L :: "('x, 'cw) ws_lib" and D :: "'d dec" and onI
proof (unfold_locales, goal_cases)
  case (1 r n)
  then show ?case using FrameReader_Read_msg [OF 1, of n] by auto
next
  case (2 r n r' bs e)
  then show ?case using FrameReader_Read_msg [OF 2(1), of n] by auto
next
  case (3 r n r' bs)
  then have "msg_ok L D onI r'" "msg_step L bs r r'" "bs = [] \<longrightarrow> 0 < n \<longrightarrow> msg_stall r' < msg_stall r"
    using FrameReader_Read_msg [OF 3(1), of n] by auto
  then show ?case using fr_setup_fields [of L r' r] by (simp add: msg_step_def msg_fin_def)
next
  case (4 r n r' bs x)
  then show ?case using FrameReader_Read_msg [OF 4(1), of n] by auto
qed

text \<open>
  \<open>io.ReadAll\<close> on the reader of a message: the whole payload, then \<open>EOF\<close> (or the connection's error, if the
  message ends the stream), and after \<open>EOF\<close> the reader is ready for the next message.
\<close>

lemma read_all_message:
  fixes r :: "('d, 'x) frame_reader" and L :: "('x, 'cw) ws_lib"
  assumes ok: "msg_ok L D onI r" and k: "\<And>i. 0 < k i"
  shows "\<exists>r' x. read_all (FrameReader_Read L D onI None) k r acc = Some (r', acc @ msg_content L r, x)
    \<and> x \<in> msg_fin L r \<and> (x = EOF \<longrightarrow> msg_end L r r')"
proof -
  define I where "I s \<longleftrightarrow> fr_setup L s = fr_setup L r \<and> msg_rest L s = msg_rest L r" for s :: "('d, 'x) frame_reader"
  have step: "I s'" if "msg_ok L D onI s" "I s" "FrameReader_Read L D onI None s n = Some (s', bs, None)" for s n s' bs
    using FrameReader_Read_msg [OF that(1), of n] that(2,3) by (simp add: I_def msg_step_def)
  have I0: "I r" by (simp add: I_def)
  obtain r' x s0 n bs where r: "read_all (FrameReader_Read L D onI None) k r acc = Some (r', acc @ msg_content L r, x)"
    "x \<in> msg_fin L r" and s0: "msg_ok L D onI s0" "I s0" "FrameReader_Read L D onI None s0 n = Some (r', bs, Some x)"
    using msg.read_all_last [where I = I and acc = acc and k = k and L = L and D = D and onI = onI, OF ok _ I0] k step
    by blast
  have "x = EOF \<longrightarrow> msg_end L s0 r'" using FrameReader_Read_msg [OF s0(1), of n] s0(3) by simp
  with s0(2) have "x = EOF \<longrightarrow> msg_end L r r'" by (simp add: msg_end_def I_def)
  with r show ?thesis by blast
qed

end
