(* ===== verification/Control.thy ===== *)
theory Control
  imports FrameMessage
begin

text \<open>
  \<open>websocket/internal/wsutils/cipher_handler.go\<close>: \<open>ControlHandler\<close>, which answers ping, pong and close frames.

  The handler reads the frame's payload from \<open>Src\<close> and writes to \<open>Dst\<close>; both end in the same connection, so both
  act on one state \<open>'r\<close>: \<open>ch_get\<close> and \<open>ch_put\<close> are the part of it that \<open>Dst\<close> is.  \<open>pbytes.Get\<close> returns a
  recycled buffer; \<open>ch_pool n\<close> is what the buffer of size \<open>n\<close> happens to hold.  The lock \<open>WriterLocker\<close> is held
  while the answer is produced (one call at a time is modelled here).
\<close>

record 'r control_handler =
  ch_Src :: "'r rd"
  ch_get :: "'r \<Rightarrow> conn"
  ch_put :: "conn \<Rightarrow> 'r \<Rightarrow> 'r"
  ch_State :: byte
  ch_DisableSrcCiphering :: bool
  ch_pool :: "nat \<Rightarrow> bytes"

section \<open>The operations\<close>

text \<open>
  The payload as the handler reads it: through \<open>wsutil.NewCipherReader\<close> when it has to unmask itself.  The number
  is that reader's position.
\<close>

definition ch_source :: "('x, 'cw) ws_lib \<Rightarrow> 'r control_handler \<Rightarrow> header \<Rightarrow> ('r \<times> nat) rd" where
  "ch_source L C h = (\<lambda>(r, pos) n.
     Option.bind (ch_Src C r n) (\<lambda>(r, bs, e).
       if st_server L (ch_State C) \<and> \<not> ch_DisableSrcCiphering C
       then Some ((r, pos + length bs), ws_cipher L bs (h_mask h) pos, e)
       else Some ((r, pos), bs, e)))"

text \<open>The control writer on \<open>Dst\<close>, as a writer of the common state.\<close>

definition ch_writer :: "('x, 'cw) ws_lib \<Rightarrow> 'r control_handler \<Rightarrow> ('cw, 'r \<times> nat) wr" where
  "ch_writer L C = (\<lambda>w (r, pos) bs.
     case cw_write L w (ch_get C r) bs of (w, c, n, e) \<Rightarrow> (w, (ch_put C c r, pos), n, e))"

definition ch_flush :: "('x, 'cw) ws_lib \<Rightarrow> 'r control_handler \<Rightarrow> 'cw \<Rightarrow> 'r \<Rightarrow> 'r \<times> err option" where
  "ch_flush L C w r = (case cw_flush L w (ch_get C r) of (_, c, e) \<Rightarrow> (ch_put C c r, e))"

definition empty_control :: "('x, 'cw) ws_lib \<Rightarrow> 'r control_handler \<Rightarrow> byte \<Rightarrow> header" where
  "empty_control L C op = zero_header\<lparr>h_fin := True, h_op := op, h_masked := st_client L (ch_State C)\<rparr>"

definition ch_bufSize :: "('x, 'cw) ws_lib \<Rightarrow> 'r control_handler \<Rightarrow> header \<Rightarrow> nat" where
  "ch_bufSize L C h = nat (sint (h_length h)) + header_size L (h_length h) (st_client L (ch_State C))"

definition HandlePing ::
    "('x, 'cw) ws_lib \<Rightarrow> 'r control_handler \<Rightarrow> header \<Rightarrow> 'r \<Rightarrow> ('r \<times> err option) option" where
  "HandlePing L C h r =
     (if h_length h = 0 then
        (case ws_write_header L (ch_get C r) (empty_control L C (OpPong L)) of (c, e) \<Rightarrow> Some (ch_put C c r, e))
      else
        Option.bind
          (io_copy (ch_writer L C) (ch_source L C h) (cw_new L (ch_State C) (OpPong L) (ch_bufSize L C h)) (r, 0))
          (\<lambda>(w, (r, _), e).
            case e of Some x \<Rightarrow> Some (r, Some x) | None \<Rightarrow> Some (ch_flush L C w r)))"

definition HandlePong ::
    "('x, 'cw) ws_lib \<Rightarrow> 'r control_handler \<Rightarrow> header \<Rightarrow> 'r \<Rightarrow> ('r \<times> err option) option" where
  "HandlePong L C h r = (if h_length h = 0 then Some (r, None) else io_discard (ch_Src C) r)"

definition closeWithProtocolError ::
    "('x, 'cw) ws_lib \<Rightarrow> 'r control_handler \<Rightarrow> err \<Rightarrow> 'r \<Rightarrow> 'r \<times> err option" where
  "closeWithProtocolError L C reason r =
     (let body = close_body L (StatusProtocolError L) (err_text L reason);
          payload = (if st_client L (ch_State C) then mask_payload L body else body)
      in case ws_write_frame L (ch_get C r) (new_close_header L body) payload of (c, e) \<Rightarrow> (ch_put C c r, e))"

text \<open>
  The reply echoes the first two bytes of the pooled buffer \<open>p\<close>, whose first \<open>h.Length\<close> bytes were just read; the
  writer's own buffer is \<open>p\<close> too, behind the room for the header.
\<close>

definition HandleClose ::
    "('x, 'cw) ws_lib \<Rightarrow> 'r control_handler \<Rightarrow> header \<Rightarrow> 'r \<Rightarrow> ('r \<times> err option) option" where
  "HandleClose L C h r =
     (if h_length h = 0 then
        (case ws_write_header L (ch_get C r) (empty_control L C (OpClose L)) of
           (c, Some e) \<Rightarrow> Some (ch_put C c r, Some e)
         | (c, None) \<Rightarrow> Some (ch_put C c r, Some (ClosedError (StatusNoStatusRcvd L) [])))
      else
        Option.bind (read_full (ch_source L C h) (r, 0) (nat (sint (h_length h)))) (\<lambda>((r, _), subp, e).
          case e of Some x \<Rightarrow> Some (r, Some x)
          | None \<Rightarrow>
            (case parse_close L subp of (code, reason) \<Rightarrow>
              (case check_close L code reason of
                 Some x \<Rightarrow> Some (fst (closeWithProtocolError L C x r), Some x)
               | None \<Rightarrow>
                 (let p = subp @ drop (length subp) (ch_pool C (ch_bufSize L C h))
                  in case ch_writer L C (cw_new L (ch_State C) (OpClose L) (ch_bufSize L C h)) (r, 0) (take 2 p) of
                       (w, (r, _), n, Some x) \<Rightarrow> Some (r, Some x)
                     | (w, (r, _), n, None) \<Rightarrow>
                         (case ch_flush L C w r of
                            (r, Some x) \<Rightarrow> Some (r, Some x)
                          | (r, None) \<Rightarrow> Some (r, Some (ClosedError code reason))))))))"

definition Handle ::
    "('x, 'cw) ws_lib \<Rightarrow> 'r control_handler \<Rightarrow> header \<Rightarrow> 'r \<Rightarrow> ('r \<times> err option) option" where
  "Handle L C h r =
     (if h_op h = OpPing L then HandlePing L C h r
      else if h_op h = OpPong L then HandlePong L C h r
      else if h_op h = OpClose L then HandleClose L C h r
      else Some (r, Some ErrNotControlFrame))"

definition ControlFrameHandler ::
    "('x, 'cw) ws_lib \<Rightarrow> ('r \<Rightarrow> conn) \<Rightarrow> (conn \<Rightarrow> 'r \<Rightarrow> 'r) \<Rightarrow> (nat \<Rightarrow> bytes) \<Rightarrow> byte \<Rightarrow> 'r handler" where
  "ControlFrameHandler L get put pool s = (\<lambda>h src r.
     Handle L \<lparr>ch_Src = src, ch_get = get, ch_put = put, ch_State = s, ch_DisableSrcCiphering = True,
               ch_pool = pool\<rparr> h r)"

section \<open>The laws of the control writer\<close>

text \<open>
  \<open>is_frame op masked p bs\<close>: the bytes are one final control frame with that payload.
\<close>

definition is_frame :: "byte \<Rightarrow> bool \<Rightarrow> bytes \<Rightarrow> bytes \<Rightarrow> bool" where
  "is_frame op masked p bs \<longleftrightarrow>
     (\<exists>h pl. parse_header bs = Parsed h pl \<and> h_fin h \<and> h_rsv h = 0 \<and> h_op h = op \<and> h_masked h = masked
        \<and> sint (h_length h) = int (length p) \<and> unmask h pl = p)"

text \<open>
  What \<open>wsutil.ControlWriter\<close> and \<open>ws.WriteHeader\<close> promise on a connection whose writes succeed.  \<open>held\<close> reads off
  a control writer its state, its opcode, its payload so far and the payload it has room for.
\<close>

definition writer_laws :: "('x, 'cw) ws_lib \<Rightarrow> ('cw \<Rightarrow> byte \<times> byte \<times> bytes \<times> nat) \<Rightarrow> bool" where
  "writer_laws L held \<longleftrightarrow>
     (\<forall>s op k. k \<le> 125 \<longrightarrow>
        held (cw_new L s op (k + header_size L (word_of_nat k) (st_client L s))) = (s, op, [], k))
     \<and> (\<forall>w c bs s op p k. held w = (s, op, p, k) \<longrightarrow> length p + length bs \<le> k \<longrightarrow>
        (\<exists>w'. cw_write L w c bs = (w', c, length bs, None) \<and> held w' = (s, op, p @ bs, k)))
     \<and> (\<forall>w c s op p k. held w = (s, op, p, k) \<longrightarrow> w_faults c = [] \<longrightarrow> op AND 0x0f = op \<longrightarrow> length p \<le> 125 \<longrightarrow>
        (\<exists>w' bs. cw_flush L w c = (w', c\<lparr>out := out c @ [bs]\<rparr>, None) \<and> is_frame op (st_client L s) p bs))
     \<and> (\<forall>c h. h_length h = 0 \<longrightarrow> h_rsv h = 0 \<longrightarrow> h_fin h \<longrightarrow> w_faults c = [] \<longrightarrow> h_op h AND 0x0f = h_op h \<longrightarrow>
        (\<exists>bs. ws_write_header L c h = (c\<lparr>out := out c @ [bs]\<rparr>, None) \<and> is_frame (h_op h) (h_masked h) [] bs))"

lemma writer_laws_write:
  assumes "writer_laws L held" and "held w = (s, op, p, k)" and "length p + length bs \<le> k"
  shows "\<exists>w'. cw_write L w c bs = (w', c, length bs, None) \<and> held w' = (s, op, p @ bs, k)"
  using assms unfolding writer_laws_def by blast

lemma writer_laws_flush:
  assumes "writer_laws L held" and "held w = (s, op, p, k)" and "w_faults c = []" and "op AND 0x0f = op" and "length p \<le> 125"
  shows "\<exists>w' bs. cw_flush L w c = (w', c\<lparr>out := out c @ [bs]\<rparr>, None) \<and> is_frame op (st_client L s) p bs"
  using assms unfolding writer_laws_def by blast

lemma writer_laws_header:
  assumes "writer_laws L held" and "h_length h = 0" "h_rsv h = 0" "h_fin h" "w_faults c = []" "h_op h AND 0x0f = h_op h"
  shows "\<exists>bs. ws_write_header L c h = (c\<lparr>out := out c @ [bs]\<rparr>, None) \<and> is_frame (h_op h) (h_masked h) [] bs"
  using assms unfolding writer_laws_def by blast

lemma writer_laws_new:
  assumes "writer_laws L held" and "0 \<le> sint (h_length h)" "sint (h_length h) \<le> 125"
  shows "held (cw_new L (ch_State C) op (ch_bufSize L C h)) = (ch_State C, op, [], nat (sint (h_length h)))"
proof -
  have "word_of_nat (nat (sint (h_length h))) = h_length h"
    using sint_nonneg_unat [OF assms(2)] by simp
  moreover have "nat (sint (h_length h)) \<le> 125" using assms(3) by simp
  ultimately show ?thesis using assms(1) unfolding writer_laws_def ch_bufSize_def by metis
qed

section \<open>Answering a control frame\<close>

lemma ch_source_plain:
  "ch_DisableSrcCiphering C \<Longrightarrow> ch_source L C h = via fst (\<lambda>r (_, pos). (r, pos)) (ch_Src C)"
  by (auto simp: ch_source_def via_def fun_eq_iff intro!: arg_cong [where f = "Option.bind _"])

context byte_stream begin

text \<open>
  A ping is answered by one pong with the same payload, once the reader has ended with \<open>EOF\<close>.  \<open>I\<close> is any
  property of the state that reading keeps, as long as it implies that writes succeed.
\<close>

lemma HandlePing_pong:
  assumes laws: "writer_laws L held" "opcode_laws L" and src: "ch_Src C = rd" "ch_DisableSrcCiphering C"
    and len: "0 \<le> sint (h_length h)" "sint (h_length h) \<le> 125" and ok: "ok r" and Ir: "I r"
    and content: "length (content r) = nat (sint (h_length h))"
    and put: "\<And>r. ch_put C (ch_get C r) r = r"
    and step: "\<And>s n s' bs e. \<lbrakk>ok s; I s; rd s n = Some (s', bs, e)\<rbrakk> \<Longrightarrow> I s'"
    and quiet: "\<And>s. I s \<Longrightarrow> w_faults (ch_get C s) = []"
  shows "\<exists>r' x fr. I r'
    \<and> (h_length h = 0 \<and> r' = r \<and> x = EOF \<or> (\<exists>s n bs. ok s \<and> I s \<and> rd s n = Some (r', bs, Some x)))
    \<and> HandlePing L C h r = Some (if x = EOF
          then (ch_put C ((ch_get C r')\<lparr>out := out (ch_get C r') @ [fr]\<rparr>) r', None) else (r', Some x))
    \<and> (x = EOF \<longrightarrow> is_frame (OpPong L) (st_client L (ch_State C)) (content r) fr)"
proof (cases "h_length h = 0")
  case True
  with content have "content r = []" by simp
  moreover obtain fr where "ws_write_header L (ch_get C r) (empty_control L C (OpPong L))
      = ((ch_get C r)\<lparr>out := out (ch_get C r) @ [fr]\<rparr>, None)"
    "is_frame (OpPong L) (st_client L (ch_State C)) [] fr"
    using writer_laws_header [OF laws(1), of "empty_control L C (OpPong L)"] quiet [OF Ir] laws(2)
    by (auto simp: empty_control_def zero_header_def opcode_laws_def)
  ultimately show ?thesis using Ir True by (intro exI [of _ r] exI [of _ EOF] exI [of _ fr]) (simp add: HandlePing_def)
next
  case False
  let ?k = "nat (sint (h_length h))"
  have k: "length (content r) \<le> ?k" "length (content r) \<le> 125" using content len(2) by simp_all
  define J where "J w p \<longleftrightarrow> held w = (ch_State C, OpPong L, p, ?k)" for w p
  define w0 where "w0 = cw_new L (ch_State C) (OpPong L) (ch_bufSize L C h)"
  let ?rd = "via fst (\<lambda>r (_, pos :: nat). (r, pos)) rd"
  have vs: "byte_stream ?rd (\<lambda>t. ok (fst t)) (\<lambda>t. content (fst t)) (\<lambda>t. fin (fst t)) (\<lambda>t. stall (fst t))"
    by (rule via_stream) (simp add: split_beta)
  have J0: "J w0 []" by (simp add: J_def w0_def writer_laws_new [OF laws(1) len])
  have takes: "\<exists>w'. ch_writer L C w s bs = (w', s, length bs, None) \<and> J w' (acc @ bs)"
    if Jw: "J w acc" and room: "length acc + length bs \<le> ?k" for w s acc bs
  proof -
    obtain w' where "cw_write L w (ch_get C (fst s)) bs = (w', ch_get C (fst s), length bs, None)" "J w' (acc @ bs)"
      using writer_laws_write [OF laws(1) Jw [unfolded J_def] room, of "ch_get C (fst s)"] by (auto simp: J_def)
    then show ?thesis by (simp add: ch_writer_def split_beta put)
  qed
  have step': "I (fst t')" if "ok (fst t)" "I (fst t)" "?rd t n = Some (t', bs, e)" for t n t' bs e
    using that step by (fastforce simp: via_def split_beta dest!: bind_eq_SomeD)
  have "\<exists>w' t' t0 n bs x. io_copy (ch_writer L C) ?rd w0 (r, 0) = Some (w', t', if x = EOF then None else Some x)
      \<and> J w' ([] @ content (fst (r, 0 :: nat))) \<and> ok (fst t0) \<and> I (fst t0) \<and> ?rd t0 n = Some (t', bs, Some x)"
  proof (rule byte_stream.io_copy_last [OF vs, where I = "\<lambda>t. I (fst t)" and J = J and K = ?k])
    show "length [] + length (content (fst (r, 0 :: nat))) \<le> ?k" using k by simp
  qed (use ok Ir J0 step' takes in auto)
  then obtain w' t' t0 n bs x where
    copy: "io_copy (ch_writer L C) ?rd w0 (r, 0) = Some (w', t', if x = EOF then None else Some x)"
    and J: "J w' (content r)" and t0: "ok (fst t0)" "I (fst t0)" "?rd t0 n = Some (t', bs, Some x)"
    by auto
  have I': "I (fst t')" by (rule step' [OF t0])
  have rd0: "rd (fst t0) n = Some (fst t', bs, Some x)"
    using t0(3) by (auto simp: via_def split_beta dest!: bind_eq_SomeD)
  obtain fr where fr: "ch_flush L C w' (fst t')
        = (ch_put C ((ch_get C (fst t'))\<lparr>out := out (ch_get C (fst t')) @ [fr]\<rparr>) (fst t'), None)"
    "is_frame (OpPong L) (st_client L (ch_State C)) (content r) fr"
    using writer_laws_flush [OF laws(1) J [unfolded J_def] quiet [OF I']] k len(2) laws(2)
    by (auto simp: ch_flush_def opcode_laws_def)
  have "HandlePing L C h r = Some (if x = EOF
          then (ch_put C ((ch_get C (fst t'))\<lparr>out := out (ch_get C (fst t')) @ [fr]\<rparr>) (fst t'), None)
          else (fst t', Some x))"
    using False src copy fr(1) by (simp add: HandlePing_def ch_source_plain w0_def split_beta)
  with I' rd0 t0 fr(2) show ?thesis by blast
qed

text \<open>A pong is read and dropped.\<close>

lemma HandlePong_drops:
  assumes src: "ch_Src C = rd" and ok: "ok r" and Ir: "I r" and content: "length (content r) = nat (sint (h_length h))"
    and step: "\<And>s n s' bs e. \<lbrakk>ok s; I s; rd s n = Some (s', bs, e)\<rbrakk> \<Longrightarrow> I s'"
  shows "\<exists>r' x. I r'
    \<and> (h_length h = 0 \<and> r' = r \<and> x = EOF \<or> (\<exists>s n bs. ok s \<and> I s \<and> rd s n = Some (r', bs, Some x)))
    \<and> HandlePong L C h r = Some (r', if x = EOF then None else Some x)"
proof (cases "h_length h = 0")
  case True
  then show ?thesis using Ir by (simp add: HandlePong_def)
next
  case False
  have "\<exists>s' s0 bs x. io_discard rd r = Some (s', if x = EOF then None else Some x)
      \<and> ok s0 \<and> I s0 \<and> rd s0 8192 = Some (s', bs, Some x)"
    by (rule io_discard_last [where I = I, OF ok Ir]) (rule step)
  with step False src show ?thesis unfolding HandlePong_def by (metis (no_types, lifting))
qed

text \<open>
  The payload of a close frame, as \<open>HandleClose\<close> reads it, and what it answers: the status code alone when the
  payload is valid, a protocol error otherwise; in both cases the transport's read ends with an error.
\<close>

lemma HandleClose_read:
  assumes src: "ch_Src C = rd" "ch_DisableSrcCiphering C" and ok: "ok r" and Ir: "I r"
    and content: "length (content r) = nat (sint (h_length h))"
    and step: "\<And>s n s' bs e. \<lbrakk>I s; rd s n = Some (s', bs, e)\<rbrakk> \<Longrightarrow> I s'"
  shows "\<exists>r' pos. I r' \<and> read_full (ch_source L C h) (r, 0) (nat (sint (h_length h))) = Some ((r', pos), content r, None)"
proof -
  let ?rd = "via fst (\<lambda>r (_, pos :: nat). (r, pos)) rd"
  have vs: "byte_stream ?rd (\<lambda>t. ok (fst t)) (\<lambda>t. content (fst t)) (\<lambda>t. fin (fst t)) (\<lambda>t. stall (fst t))"
    by (rule via_stream) (simp add: split_beta)
  obtain t where t: "read_full ?rd (r, 0) (nat (sint (h_length h))) = Some (t, content r, None)"
    using byte_stream.read_full_exact [OF vs, of "(r, 0)"] ok content by auto
  have step': "I (fst t')" if "I (fst t)" "?rd t n = Some (t', bs, e)" for t n t' bs e
    using that step by (fastforce simp: via_def split_beta dest!: bind_eq_SomeD)
  have "I (fst t)"
    by (rule read_full_keeps [where I = "\<lambda>t. I (fst t)", OF step' t]) (simp_all add: Ir)
  with t show ?thesis by (cases t) (auto simp: ch_source_plain src)
qed

lemma HandleClose_echo:
  assumes laws: "writer_laws L held" "opcode_laws L" and src: "ch_Src C = rd" "ch_DisableSrcCiphering C"
    and len: "2 \<le> sint (h_length h)" "sint (h_length h) \<le> 125" and ok: "ok r" and Ir: "I r"
    and content: "length (content r) = nat (sint (h_length h))"
    and valid: "parse_close L (content r) = (code, reason)" "check_close L code reason = None"
    and put: "\<And>r. ch_put C (ch_get C r) r = r"
    and step: "\<And>s n s' bs e. \<lbrakk>I s; rd s n = Some (s', bs, e)\<rbrakk> \<Longrightarrow> I s'"
    and quiet: "\<And>s. I s \<Longrightarrow> w_faults (ch_get C s) = []"
  shows "\<exists>r' fr. I r' \<and> is_frame (OpClose L) (st_client L (ch_State C)) (take 2 (content r)) fr
    \<and> HandleClose L C h r = Some (ch_put C ((ch_get C r')\<lparr>out := out (ch_get C r') @ [fr]\<rparr>) r',
        Some (ClosedError code reason))"
proof -
  obtain r' pos where r': "I r'"
    and rd: "read_full (ch_source L C h) (r, 0) (nat (sint (h_length h))) = Some ((r', pos), content r, None)"
    using HandleClose_read [where I = I and L = L, OF src ok Ir content] step by blast
  let ?w = "cw_new L (ch_State C) (OpClose L) (ch_bufSize L C h)" and ?p = "take 2 (content r)"
  have h0: "h_length h \<noteq> 0" and room: "2 \<le> nat (sint (h_length h))" using len by auto
  have two: "take 2 (content r @ q) = ?p" "length ?p = 2" for q using content len by auto
  note new = writer_laws_new [OF laws(1), of h C "OpClose L"]
  obtain w where w: "cw_write L ?w (ch_get C r') ?p = (w, ch_get C r', 2, None)"
    and held: "held w = (ch_State C, OpClose L, ?p, nat (sint (h_length h)))"
    using writer_laws_write [OF laws(1) new, of ?p "ch_get C r'"] two(2) len room by auto
  obtain w' fr where "cw_flush L w (ch_get C r') = (w', (ch_get C r')\<lparr>out := out (ch_get C r') @ [fr]\<rparr>, None)"
    and fr: "is_frame (OpClose L) (st_client L (ch_State C)) ?p fr"
    using writer_laws_flush [OF laws(1) held quiet [OF r']] laws(2) two(2) by (auto simp: opcode_laws_def)
  with w r' show ?thesis
    by (intro exI [of _ r'] exI [of _ fr])
      (simp add: HandleClose_def h0 rd valid two(1) ch_writer_def ch_flush_def put del: take_append)
qed

lemma HandleClose_invalid:
  assumes src: "ch_Src C = rd" "ch_DisableSrcCiphering C" and len: "h_length h \<noteq> 0" and ok: "ok r" and Ir: "I r"
    and content: "length (content r) = nat (sint (h_length h))"
    and invalid: "parse_close L (content r) = (code, reason)" "check_close L code reason = Some x"
    and step: "\<And>s n s' bs e. \<lbrakk>I s; rd s n = Some (s', bs, e)\<rbrakk> \<Longrightarrow> I s'"
  shows "\<exists>r'. I r' \<and> HandleClose L C h r = Some (fst (closeWithProtocolError L C x r'), Some x)"
proof -
  obtain r' pos where "I r'"
    and "read_full (ch_source L C h) (r, 0) (nat (sint (h_length h))) = Some ((r', pos), content r, None)"
    using HandleClose_read [where I = I and L = L, OF src ok Ir content] step by blast
  then show ?thesis using len invalid by (auto simp: HandleClose_def)
qed

end

text \<open>
  The handler that \<open>newWebsocketTransport\<close> installs may run in the middle of a message: it answers or drops the
  control frame and leaves the rest of the message alone.
\<close>

definition fr_dst :: "('d, 'x) frame_reader \<Rightarrow> conn" where
  "fr_dst r = lw_src (fr_low r)"

definition fr_set_dst :: "conn \<Rightarrow> ('d, 'x) frame_reader \<Rightarrow> ('d, 'x) frame_reader" where
  "fr_set_dst c r = r\<lparr>fr_low := (fr_low r)\<lparr>lw_src := c\<rparr>\<rparr>"

text \<open>
  A control frame that stands open: its payload is read through \<open>b\<close>, all of it has arrived or will, and the reader
  ends with \<open>EOF\<close> (more bytes follow, or the connection keeps its own error to a later call).
\<close>

definition control_open ::
    "('x, 'cw) ws_lib \<Rightarrow> header \<Rightarrow> base_ref \<Rightarrow> ('d, 'x) frame_reader \<Rightarrow> bool" where
  "control_open L h b r \<longleftrightarrow> base_ok b (fr_low r) \<and> frame_complete (fr_low r)
     \<and> sint (h_length h) = lw_n (fr_low r) \<and> sint (h_length h) \<le> 125 \<and> w_faults (lw_src (fr_low r)) = []
     \<and> (drop (nat (lw_n (fr_low r))) (conn_content (lw_src (fr_low r))) = [] \<longrightarrow> \<not> in_eager (lw_src (fr_low r)))"

text \<open>What reading the payload keeps: everything but the part of the stream that the frame covers.\<close>

definition reading :: "('d, 'x) frame_reader \<Rightarrow> ('d, 'x) frame_reader \<Rightarrow> bool" where
  "reading r q \<longleftrightarrow> (\<exists>l. q = r\<lparr>fr_low := l\<rparr> \<and> frame_complete l
     \<and> drop (nat (lw_n l)) (conn_content (lw_src l)) = drop (nat (lw_n (fr_low r))) (conn_content (lw_src (fr_low r)))
     \<and> length (in_chunks (lw_src l)) \<le> length (in_chunks (lw_src (fr_low r)))
     \<and> conn_env (lw_src l) = conn_env (lw_src (fr_low r)))"

lemma reading_refl: "frame_complete (fr_low r) \<Longrightarrow> reading r r"
  unfolding reading_def by (intro exI [of _ "fr_low r"]) simp

lemma reading_facts:
  assumes "reading r q"
  shows "out (fr_dst q) = out (fr_dst r)" "w_faults (fr_dst q) = w_faults (fr_dst r)"
    "f_faults (fr_dst q) = f_faults (fr_dst r)" "in_err (fr_dst q) = in_err (fr_dst r)" "in_eager (fr_dst q) = in_eager (fr_dst r)"
  using assms by (auto simp: reading_def fr_dst_def dest: conn_env_fields)

lemma inner_base_stream:
  fixes D :: "'d dec"
  shows "byte_stream (inner_read D (RBase b) :: ('d, 'x) frame_reader rd) (\<lambda>r. base_ok b (fr_low r))
     (\<lambda>r. base_content b (fr_low r)) (\<lambda>r. raw_fin (fr_low r)) (\<lambda>r. raw_stall (fr_low r))"
proof -
  have rd: "(inner_read D (RBase b) :: ('d, 'x) frame_reader rd) = via fr_low (\<lambda>l r. r\<lparr>fr_low := l\<rparr>) (base_read b)"
    by (simp add: fun_eq_iff via_def)
  show ?thesis unfolding rd by (rule base.via_stream) simp
qed

lemma reading_step:
  assumes "reading r q" and "inner_read D (RBase b) q n = Some (q', bs, e)"
  shows "reading r q'"
proof -
  from assms obtain l l' where q': "q' = r\<lparr>fr_low := l'\<rparr>" and rl: "base_read b l n = Some (l', bs, e)"
    and l: "frame_complete l"
      "drop (nat (lw_n l)) (conn_content (lw_src l)) = drop (nat (lw_n (fr_low r))) (conn_content (lw_src (fr_low r)))"
      "length (in_chunks (lw_src l)) \<le> length (in_chunks (lw_src (fr_low r)))"
      "conn_env (lw_src l) = conn_env (lw_src (fr_low r))"
    by (auto simp: reading_def dest!: bind_eq_SomeD)
  from base_read_frame(2,3,4) [OF rl] base_read_complete [OF rl l(1)] l show ?thesis
    by (auto simp: reading_def q')
qed

lemma reading_eof:
  assumes "control_open L h b r" and "reading r q" and "inner_read D (RBase b) q n = Some (q', bs, Some x)"
  shows "x = EOF"
proof -
  from assms(2,3) obtain l l' where rl: "base_read b l n = Some (l', bs, Some x)" and l: "frame_complete l"
      "drop (nat (lw_n l)) (conn_content (lw_src l)) = drop (nat (lw_n (fr_low r))) (conn_content (lw_src (fr_low r)))"
      "conn_env (lw_src l) = conn_env (lw_src (fr_low r))"
    by (auto simp: reading_def dest!: bind_eq_SomeD)
  from base_read_error [OF rl l(1)] base_read_frame(2) [OF rl] l assms(1) conn_env_fields(2) [OF l(3)] show ?thesis
    by (auto simp: control_open_def)
qed

abbreviation frame_control ::
    "('d, 'x) frame_reader rd \<Rightarrow> (nat \<Rightarrow> bytes) \<Rightarrow> byte \<Rightarrow> ('d, 'x) frame_reader control_handler" where
  "frame_control rd pool s \<equiv> \<lparr>ch_Src = rd, ch_get = fr_dst, ch_put = fr_set_dst, ch_State = s,
     ch_DisableSrcCiphering = True, ch_pool = pool\<rparr>"

lemma frame_control_put: "fr_set_dst (fr_dst q) q = q"
  by (simp add: fr_dst_def fr_set_dst_def)

lemma control_open_facts:
  assumes "control_open L h b r"
  shows "base_ok b (fr_low r)" "reading r r" "0 \<le> sint (h_length h)" "sint (h_length h) \<le> 125"
    "length (base_content b (fr_low r)) = nat (sint (h_length h))" "reading r q \<Longrightarrow> w_faults (fr_dst q) = []"
proof -
  have c: "base_ok b (fr_low r)" "frame_complete (fr_low r)" "sint (h_length h) = lw_n (fr_low r)"
    "sint (h_length h) \<le> 125" "w_faults (fr_dst r) = []"
    using assms by (auto simp: control_open_def fr_dst_def)
  then show "base_ok b (fr_low r)" "sint (h_length h) \<le> 125" by simp_all
  show "reading r r" by (rule reading_refl [OF c(2)])
  show "0 \<le> sint (h_length h)" using c(2,3) by (simp add: frame_complete_def)
  show "length (base_content b (fr_low r)) = nat (sint (h_length h))" using base_content_length [OF c(1,2)] c(3) by simp
  show "w_faults (fr_dst q) = []" if "reading r q" using reading_facts(2) [OF that] c(5) by simp
qed

text \<open>Ping: one pong with the payload.\<close>

lemma frame_ping:
  fixes D :: "'d dec" and L :: "('x, 'cw) ws_lib"
  assumes laws: "writer_laws L held" "opcode_laws L" and "control_open L h b r" and "h_op h = OpPing L"
  shows "\<exists>q fr. reading r q \<and> is_frame (OpPong L) (st_client L s) (base_content b (fr_low r)) fr
    \<and> ControlFrameHandler L fr_dst fr_set_dst pool s h (inner_read D (RBase b)) r
        = Some (fr_set_dst ((fr_dst q)\<lparr>out := out (fr_dst r) @ [fr]\<rparr>) q, None)"
proof -
  let ?rd = "inner_read D (RBase b) :: ('d, 'x) frame_reader rd"
  note f = control_open_facts [OF assms(3)]
  have "\<exists>q x fr. reading r q
      \<and> (h_length h = 0 \<and> q = r \<and> x = EOF \<or> (\<exists>s n bs. base_ok b (fr_low s) \<and> reading r s \<and> ?rd s n = Some (q, bs, Some x)))
      \<and> HandlePing L (frame_control ?rd pool s) h r = Some (if x = EOF
            then (ch_put (frame_control ?rd pool s) ((ch_get (frame_control ?rd pool s) q)
              \<lparr>out := out (ch_get (frame_control ?rd pool s) q) @ [fr]\<rparr>) q, None) else (q, Some x))
      \<and> (x = EOF \<longrightarrow> is_frame (OpPong L) (st_client L (ch_State (frame_control ?rd pool s))) (base_content b (fr_low r)) fr)"
    by (rule byte_stream.HandlePing_pong [where I = "reading r" and C = "frame_control ?rd pool s",
          OF inner_base_stream [of D] laws _ _ f(3,4,1,2,5) _ reading_step])
      (simp_all add: frame_control_put f(6))
  then obtain q x fr where q: "reading r q"
      "h_length h = 0 \<and> x = EOF \<or> (\<exists>s n bs. reading r s \<and> ?rd s n = Some (q, bs, Some x))"
      "HandlePing L (frame_control ?rd pool s) h r = Some (if x = EOF
          then (fr_set_dst ((fr_dst q)\<lparr>out := out (fr_dst q) @ [fr]\<rparr>) q, None) else (q, Some x))"
      "x = EOF \<longrightarrow> is_frame (OpPong L) (st_client L s) (base_content b (fr_low r)) fr"
    unfolding control_handler.simps by blast
  from q(2) reading_eof [OF assms(3)] have "x = EOF" by blast
  with q assms(4) reading_facts(1) [OF q(1)] show ?thesis by (auto simp: ControlFrameHandler_def Handle_def)
qed

text \<open>Pong: read and dropped.\<close>

lemma frame_pong:
  fixes D :: "'d dec" and L :: "('x, 'cw) ws_lib"
  assumes ops: "opcode_laws L" and "control_open L h b r" and "h_op h = OpPong L"
  shows "\<exists>q. reading r q
    \<and> ControlFrameHandler L fr_dst fr_set_dst pool s h (inner_read D (RBase b)) r = Some (q, None)"
proof -
  let ?rd = "inner_read D (RBase b) :: ('d, 'x) frame_reader rd"
  note f = control_open_facts [OF assms(2)]
  have "\<exists>q x. reading r q
      \<and> (h_length h = 0 \<and> q = r \<and> x = EOF \<or> (\<exists>s n bs. base_ok b (fr_low s) \<and> reading r s \<and> ?rd s n = Some (q, bs, Some x)))
      \<and> HandlePong L (frame_control ?rd pool s) h r = Some (q, if x = EOF then None else Some x)"
    by (rule byte_stream.HandlePong_drops [where I = "reading r", OF inner_base_stream [of D] _ f(1,2,5) reading_step]) simp_all
  then obtain q x where q: "reading r q"
      "h_length h = 0 \<and> x = EOF \<or> (\<exists>s n bs. reading r s \<and> ?rd s n = Some (q, bs, Some x))"
      "HandlePong L (frame_control ?rd pool s) h r = Some (q, if x = EOF then None else Some x)"
    by blast
  from q(2) reading_eof [OF assms(2)] have "x = EOF" by blast
  with q assms(3) ops show ?thesis by (auto simp: ControlFrameHandler_def Handle_def opcode_laws_def)
qed

text \<open>Close: the status code is echoed, or a protocol error is sent; in both cases with an error for the reader.\<close>

lemma frame_close:
  fixes D :: "'d dec" and L :: "('x, 'cw) ws_lib"
  assumes laws: "writer_laws L held" "opcode_laws L" and "control_open L h b r" and "h_op h = OpClose L"
    and valid: "2 \<le> sint (h_length h)" "parse_close L (base_content b (fr_low r)) = (code, reason)"
      "check_close L code reason = None"
  shows "\<exists>q fr. reading r q \<and> is_frame (OpClose L) (st_client L s) (take 2 (base_content b (fr_low r))) fr
    \<and> ControlFrameHandler L fr_dst fr_set_dst pool s h (inner_read D (RBase b)) r
        = Some (fr_set_dst ((fr_dst q)\<lparr>out := out (fr_dst r) @ [fr]\<rparr>) q, Some (ClosedError code reason))"
proof -
  let ?rd = "inner_read D (RBase b) :: ('d, 'x) frame_reader rd"
  note f = control_open_facts [OF assms(3)]
  have "\<exists>q fr. reading r q
      \<and> is_frame (OpClose L) (st_client L (ch_State (frame_control ?rd pool s))) (take 2 (base_content b (fr_low r))) fr
      \<and> HandleClose L (frame_control ?rd pool s) h r = Some (ch_put (frame_control ?rd pool s)
          ((ch_get (frame_control ?rd pool s) q)\<lparr>out := out (ch_get (frame_control ?rd pool s) q) @ [fr]\<rparr>) q,
          Some (ClosedError code reason))"
    by (rule byte_stream.HandleClose_echo [where I = "reading r" and C = "frame_control ?rd pool s",
          OF inner_base_stream [of D] laws _ _ valid(1) f(4,1,2,5) valid(2,3) _ reading_step])
      (simp_all add: frame_control_put f(6))
  then obtain q fr where q: "reading r q" "is_frame (OpClose L) (st_client L s) (take 2 (base_content b (fr_low r))) fr"
      "HandleClose L (frame_control ?rd pool s) h r
        = Some (fr_set_dst ((fr_dst q)\<lparr>out := out (fr_dst q) @ [fr]\<rparr>) q, Some (ClosedError code reason))"
    unfolding control_handler.simps by blast
  moreover have "OpClose L \<noteq> OpPing L" "OpClose L \<noteq> OpPong L" using laws(2) by (simp_all add: opcode_laws_def)
  ultimately show ?thesis using assms(4) reading_facts(1) [OF q(1)] by (auto simp: ControlFrameHandler_def Handle_def)
qed

lemma frame_close_invalid:
  fixes D :: "'d dec" and L :: "('x, 'cw) ws_lib"
  assumes ops: "opcode_laws L" and "control_open L h b r" and "h_op h = OpClose L"
    and invalid: "h_length h \<noteq> 0" "parse_close L (base_content b (fr_low r)) = (code, reason)"
      "check_close L code reason = Some x"
  shows "\<exists>q. reading r q \<and> ControlFrameHandler L fr_dst fr_set_dst pool s h (inner_read D (RBase b)) r
    = Some (fst (closeWithProtocolError L (frame_control (inner_read D (RBase b)) pool s) x q), Some x)"
proof -
  let ?rd = "inner_read D (RBase b) :: ('d, 'x) frame_reader rd"
  note f = control_open_facts [OF assms(2)]
  have "\<exists>q. reading r q \<and> HandleClose L (frame_control ?rd pool s) h r
      = Some (fst (closeWithProtocolError L (frame_control ?rd pool s) x q), Some x)"
    by (rule byte_stream.HandleClose_invalid [where I = "reading r", OF inner_base_stream [of D] _ _ invalid(1) f(1,2,5)
          invalid(2,3) reading_step]) simp_all
  with assms(3) ops show ?thesis by (auto simp: ControlFrameHandler_def Handle_def opcode_laws_def)
qed

text \<open>Ping and pong leave the rest of the message alone.\<close>

lemma ControlFrameHandler_polite:
  fixes D :: "'d dec" and L :: "('x, 'cw) ws_lib"
  assumes laws: "writer_laws L held" "opcode_laws L"
  shows "handler_polite L D (Some (ControlFrameHandler L fr_dst fr_set_dst pool s))"
  unfolding handler_polite_def
proof (intro allI impI)
  fix h :: header and b and r :: "('d, 'x) frame_reader"
  assume op: "h_op h \<in> {OpPing L, OpPong L}" and bok: "base_ok b (fr_low r)" and complete: "frame_complete (fr_low r)"
    and len: "sint (h_length h) = lw_n (fr_low r)" "sint (h_length h) \<le> 125" and quiet: "quiet (lw_src (fr_low r))"
    and more: "drop (nat (lw_n (fr_low r))) (conn_content (lw_src (fr_low r))) \<noteq> []"
  let ?l = "fr_low r" and ?rd = "inner_read D (RBase b) :: ('d, 'x) frame_reader rd"
  have co: "control_open L h b r" using bok complete len quiet more by (simp add: control_open_def quiet_def)
  obtain q c where q: "reading r q"
      "ControlFrameHandler L fr_dst fr_set_dst pool s h ?rd r = Some (fr_set_dst c q, None)"
      "in_chunks c = in_chunks (fr_dst q)" "in_err c = in_err (fr_dst q)" "in_eager c = in_eager (fr_dst q)" "quiet c"
  proof (cases "h_op h = OpPing L")
    case True
    from frame_ping [OF laws co True] obtain q fr where "reading r q"
      "ControlFrameHandler L fr_dst fr_set_dst pool s h ?rd r = Some (fr_set_dst ((fr_dst q)\<lparr>out := out (fr_dst r) @ [fr]\<rparr>) q, None)"
      by blast
    with reading_facts(2,3) [of r q] quiet show thesis
      by (intro that [of q "(fr_dst q)\<lparr>out := out (fr_dst r) @ [fr]\<rparr>"]) (simp_all add: quiet_def fr_dst_def)
  next
    case False
    with op have "h_op h = OpPong L" by simp
    from frame_pong [OF laws(2) co this] obtain q where "reading r q"
      "ControlFrameHandler L fr_dst fr_set_dst pool s h ?rd r = Some (q, None)"
      by blast
    with reading_facts(2,3) [of r q] quiet show thesis
      by (intro that [of q "fr_dst q"]) (simp_all add: frame_control_put, simp add: quiet_def fr_dst_def)
  qed
  from q(1) obtain l where l: "q = r\<lparr>fr_low := l\<rparr>" "frame_complete l"
      "drop (nat (lw_n l)) (conn_content (lw_src l)) = drop (nat (lw_n ?l)) (conn_content (lw_src ?l))"
      "length (in_chunks (lw_src l)) \<le> length (in_chunks (lw_src ?l))" "conn_env (lw_src l) = conn_env (lw_src ?l)"
    by (auto simp: reading_def)
  have d: "fr_dst q = lw_src l" "fr_set_dst c q = r\<lparr>fr_low := l\<lparr>lw_src := c\<rparr>\<rparr>"
    by (simp_all add: fr_dst_def fr_set_dst_def l(1))
  have cc: "conn_content c = conn_content (lw_src l)" using q(3) d(1) by (simp add: conn_content_def)
  show "\<exists>l. (case Some (ControlFrameHandler L fr_dst fr_set_dst pool s) of None \<Rightarrow> Some (r, None)
          | Some cb \<Rightarrow> cb h ?rd r) = Some (r\<lparr>fr_low := l\<rparr>, None)
      \<and> frame_complete l \<and> quiet (lw_src l)
      \<and> drop (nat (lw_n l)) (conn_content (lw_src l)) = drop (nat (lw_n ?l)) (conn_content (lw_src ?l))
      \<and> length (in_chunks (lw_src l)) \<le> length (in_chunks (lw_src ?l))
      \<and> in_err (lw_src l) = in_err (lw_src ?l) \<and> in_eager (lw_src l) = in_eager (lw_src ?l)"
    using q d cc l conn_env_fields [OF l(5)]
    by (intro exI [of _ "l\<lparr>lw_src := c\<rparr>"]) (simp add: frame_complete_def)
qed

section \<open>The laws hold for the concrete library\<close>

lemma rfc_frame:
  assumes "op AND 0x0f = op" and "length p \<le> 125"
  shows "is_frame op masked p (rfc_header_bytes \<lparr>h_fin = True, h_rsv = 0, h_op = op, h_masked = masked, h_mask = m,
      h_length = word_of_nat (length p)\<rparr> @ (if masked then cipher_spec m 0 p else p))"
proof -
  have l: "unat (word_of_nat (length p) :: i64) = length p" "sint (word_of_nat (length p) :: i64) = int (length p)"
    using assms(2) by (simp_all add: unat_i64_small unat_i64_of_nat)
  have "parse_header (encode_header True False op (if masked then Some m else None) (length p) @ rest)
      = Parsed \<lparr>h_fin = True, h_rsv = 0, h_op = op, h_masked = masked,
          h_mask = (if masked then m else Mask 0 0 0 0), h_length = word_of_nat (length p)\<rparr> rest" for rest
    using parse_encode_header [OF assms(1), of "length p" True False "if masked then Some m else None" rest] assms(2)
    by simp
  with l show ?thesis
    unfolding is_frame_def
    by (intro exI [of _ "\<lparr>h_fin = True, h_rsv = 0, h_op = op, h_masked = masked,
        h_mask = (if masked then m else Mask 0 0 0 0), h_length = word_of_nat (length p)\<rparr>"]
        exI [of _ "if masked then cipher_spec m 0 p else p"])
      (cases masked; simp add: rfc_header_bytes_def unmask_def)
qed

definition rfc_held :: "byte \<times> byte \<times> bytes \<times> nat \<Rightarrow> byte \<times> byte \<times> bytes \<times> nat" where
  "rfc_held w = w"

lemma rfc_writer_laws: "writer_laws rfc_lib rfc_held"
proof -
  have new: "rfc_held (cw_new rfc_lib s op (k + header_size rfc_lib (word_of_nat k) (st_client rfc_lib s))) = (s, op, [], k)"
    if "k \<le> 125" for s op k
    using that by (simp add: rfc_held_def rfc_lib_def unat_i64_small)
  have wr: "\<exists>w'. cw_write rfc_lib w c bs = (w', c, length bs, None) \<and> rfc_held w' = (s, op, p @ bs, k)"
    if "rfc_held w = (s, op, p, k)" "length p + length bs \<le> k" for w c bs s op p k
    using that by (simp add: rfc_held_def rfc_lib_def)
  have fl: "\<exists>w' bs. cw_flush rfc_lib w c = (w', c\<lparr>out := out c @ [bs]\<rparr>, None) \<and> is_frame op (st_client rfc_lib s) p bs"
    if "rfc_held w = (s, op, p, k)" "w_faults c = []" "op AND 0x0f = op" "length p \<le> 125" for w c s op p k
    using that rfc_frame [of op p "st_client rfc_lib s" "Mask 1 2 3 4"]
    by (cases "s AND 2 = 0") (auto simp: rfc_held_def rfc_lib_def rfc_write_def conn_write_def)
  have hd: "\<exists>bs. ws_write_header rfc_lib c h = (c\<lparr>out := out c @ [bs]\<rparr>, None) \<and> is_frame (h_op h) (h_masked h) [] bs"
    if "h_length h = 0" "h_rsv h = 0" "h_fin h" "w_faults c = []" "h_op h AND 0x0f = h_op h" for c h
    using that rfc_frame [of "h_op h" "[]" "h_masked h" "h_mask h"]
    by (cases h) (auto simp: rfc_lib_def rfc_write_def conn_write_def split: if_splits)
  show ?thesis
    unfolding writer_laws_def by (intro conjI allI impI; (rule new wr fl hd; assumption))
qed

end
