(* ===== verification/WsOptions.thy ===== *)
theory WsOptions
  imports Control
begin

text \<open>
  \<open>websocket/options.go\<close> and the negotiated parameters of \<open>websocket/transport.go\<close>: the options and what
  \<open>Apply\<close> makes of them, the pools of flate readers and writers, and \<open>parsePerMessageDeflate\<close>.
\<close>

section \<open>Options\<close>

text \<open>
  \<open>Upgrader.Negotiate\<close> and \<open>Dialer.Extensions\<close> are the caller's or the defaults that \<open>Apply\<close> installs.
\<close>

datatype negotiate = CustomNegotiate nat | DefaultNegotiate
datatype extensions = CustomExtensions nat | DefaultExtensions

text \<open>
  The options (\<open>'cert\<close>: \<open>tls.Certificate\<close>).  \<open>o_TLS\<close> is the list \<open>TLS.Certificates\<close>, \<^term>\<open>None\<close> if \<open>TLS\<close> is \<open>nil\<close>.
  The last two fields are the pools: \<open>o_readerPool\<close> whether \<open>flateReaderPool\<close> is there (its \<open>New\<close> then makes a
  \<open>FlateReader\<close> without source), \<open>o_writerPool\<close> the \<open>New\<close> of \<open>flateWriterPool\<close>: \<^term>\<open>None\<close> without a pool,
  \<open>Some None\<close> if the pool has no \<open>New\<close>, otherwise the compressor it makes.
\<close>

record ('cert, 'c) ws_options =
  o_CertFile :: string
  o_KeyFile :: string
  o_OpCode :: byte
  o_Routers :: "string list"
  o_CheckUTF8 :: bool
  o_MaxFrameSize :: i64
  o_ReadBufferSize :: int
  o_WriteBufferSize :: int
  o_Backlog :: int
  o_NoDelay :: bool
  o_CompressEnabled :: bool
  o_CompressLevel :: int
  o_CompressThreshold :: i64
  o_TLS :: "'cert list option"
  o_Negotiate :: "negotiate option"
  o_Extensions :: "extensions option"
  o_readerPool :: bool
  o_writerPool :: "'c comp_ops option option"

text \<open>
  The constructors of the two compression libraries: \<open>compress/flate.NewWriter\<close> at a level and
  \<open>klauspost/compress/flate.NewWriterWindow\<close> with a window size.
\<close>

record 'c flate_lib =
  flate_NewWriter :: "int \<Rightarrow> 'c comp_ops"
  kp_NewWriterWindow :: "int \<Rightarrow> 'c comp_ops"

text \<open>\<open>load\<close> is \<open>tls.LoadX509KeyPair\<close>.  A panic is \<^term>\<open>None\<close>: the key pair does not load, or \<open>TLS\<close> is \<open>nil\<close>.\<close>

definition Apply ::
    "'c flate_lib \<Rightarrow> (string \<Rightarrow> string \<Rightarrow> 'cert option) \<Rightarrow> ('cert, 'c) ws_options \<Rightarrow> ('cert, 'c) ws_options option" where
  "Apply F load o1 =
     (let o2 = o1\<lparr>o_readerPool := True, o_writerPool := Some None\<rparr>;
          o3 = (if o_CompressEnabled o2 then
                  o2\<lparr>o_writerPool := Some (Some (flate_NewWriter F (o_CompressLevel o2))),
                     o_Negotiate := (case o_Negotiate o2 of None \<Rightarrow> Some DefaultNegotiate | n \<Rightarrow> n),
                     o_Extensions := (case o_Extensions o2 of None \<Rightarrow> Some DefaultExtensions | e \<Rightarrow> e)\<rparr>
                else o2)
      in if o_CertFile o3 \<noteq> [] \<and> o_KeyFile o3 \<noteq> [] then
           (case (load (o_CertFile o3) (o_KeyFile o3), o_TLS o3) of
              (Some cer, Some certs) \<Rightarrow> Some (o3\<lparr>o_TLS := Some (certs @ [cer])\<rparr>)
            | _ \<Rightarrow> None)
         else Some o3)"

definition DefaultOptions :: "('x, 'cw) ws_lib \<Rightarrow> 'c flate_lib \<Rightarrow> ('cert, 'c) ws_options" where
  "DefaultOptions L F = the (Apply F (\<lambda>_ _. None)
     \<lparr>o_CertFile = [], o_KeyFile = [], o_OpCode = OpText L, o_Routers = [], o_CheckUTF8 = False, o_MaxFrameSize = 0,
      o_ReadBufferSize = 0, o_WriteBufferSize = 0, o_Backlog = 128, o_NoDelay = True, o_CompressEnabled = False,
      o_CompressLevel = 1, o_CompressThreshold = 512, o_TLS = None, o_Negotiate = None, o_Extensions = None,
      o_readerPool = False, o_writerPool = None\<rparr>)"

text \<open>
  A context value: what a \<open>context.Context\<close> holds under the package's \<open>contextKey\<close>.  \<open>WithOptions\<close> stores the
  options after \<open>Apply\<close>; \<open>FromContext\<close> reads them back or returns the default.
\<close>

definition WithOptions ::
    "'c flate_lib \<Rightarrow> (string \<Rightarrow> string \<Rightarrow> 'cert option) \<Rightarrow> ('cert, 'c) ws_options
      \<Rightarrow> ('cert, 'c) ws_options option \<Rightarrow> ('cert, 'c) ws_options option option" where
  "WithOptions F load opts ctx = map_option Some (Apply F load opts)"

definition FromContext ::
    "('cert, 'c) ws_options option \<Rightarrow> ('cert, 'c) ws_options \<Rightarrow> ('cert, 'c) ws_options" where
  "FromContext ctx def = (case ctx of Some v \<Rightarrow> v | None \<Rightarrow> def)"

section \<open>The pools\<close>

text \<open>
  A \<open>sync.Pool\<close> returns one of its items or makes a new one; the items are kept as a list here and the first is
  taken.  Both kinds of flate objects live in stores, by address.
\<close>

definition reader_reset :: "'d dec \<Rightarrow> 'd flate_store \<Rightarrow> nat \<Rightarrow> base_ref option \<Rightarrow> 'd flate_store" where
  "reader_reset D st a src =
     st\<lparr>fs_obj := (fs_obj st)(a := fl_reset D (fs_obj st a) (src \<noteq> None)),
        fs_src := (case src of None \<Rightarrow> fs_src st | Some b \<Rightarrow> (fs_src st)(a := b))\<rparr>"

definition reader_pool_get :: "'d dec \<Rightarrow> 'd flate_store \<Rightarrow> 'd flate_store \<times> nat" where
  "reader_pool_get D st =
     (case fs_pool st of
        a # as \<Rightarrow> (st\<lparr>fs_pool := as\<rparr>, a)
      | [] \<Rightarrow> (st\<lparr>fs_obj := (fs_obj st)(fs_next st := NewFlateReader D False), fs_next := Suc (fs_next st)\<rparr>, fs_next st))"

text \<open>The closures that \<open>newWebsocketTransport\<close> installs: with the pool, and with the persistent reader.\<close>

definition pool_GetFlateReader :: "'d dec \<Rightarrow> 'd flate_store \<Rightarrow> base_ref \<Rightarrow> ('d flate_store \<times> nat) option" where
  "pool_GetFlateReader D st b =
     (case reader_pool_get D st of (st, a) \<Rightarrow> Some (reader_reset D st a (Some b), a))"

definition pool_PutFlateReader :: "'d dec \<Rightarrow> 'd flate_store \<Rightarrow> nat \<Rightarrow> 'd flate_store" where
  "pool_PutFlateReader D st a = (let st = reader_reset D st a None in st\<lparr>fs_pool := a # fs_pool st\<rparr>)"

definition persistent_GetFlateReader :: "'d dec \<Rightarrow> 'd flate_store \<Rightarrow> base_ref \<Rightarrow> ('d flate_store \<times> nat) option" where
  "persistent_GetFlateReader D st b =
     (case fs_persistent st of None \<Rightarrow> None | Some a \<Rightarrow> Some (reader_reset D st a (Some b), a))"

definition persistent_PutFlateReader :: "'d flate_store \<Rightarrow> nat \<Rightarrow> 'd flate_store" where
  "persistent_PutFlateReader st a = st"

record 'c writer_store =
  wst_obj :: "nat \<Rightarrow> 'c comp_ops \<times> 'c flate_writer"
  wst_next :: nat
  wst_pool :: "nat list"

definition writer_alloc :: "'c writer_store \<Rightarrow> 'c comp_ops \<Rightarrow> ('c writer_store \<times> nat) option" where
  "writer_alloc st C = Option.bind (NewFlateWriter C) (\<lambda>fw.
     Some (st\<lparr>wst_obj := (wst_obj st)(wst_next st := (C, fw)), wst_next := Suc (wst_next st)\<rparr>, wst_next st))"

definition writer_pool_get ::
    "('cert, 'c) ws_options \<Rightarrow> 'c writer_store \<Rightarrow> ('c writer_store \<times> nat) option" where
  "writer_pool_get opts st =
     (case wst_pool st of
        a # as \<Rightarrow> Some (st\<lparr>wst_pool := as\<rparr>, a)
      | [] \<Rightarrow> (case o_writerPool opts of Some (Some C) \<Rightarrow> writer_alloc st C | _ \<Rightarrow> None))"

definition writer_reset :: "'c writer_store \<Rightarrow> nat \<Rightarrow> 'c writer_store option" where
  "writer_reset st a =
     (case wst_obj st a of (C, fw) \<Rightarrow> Option.bind (fw_reset C fw) (\<lambda>fw.
        Some (st\<lparr>wst_obj := (wst_obj st)(a := (C, fw))\<rparr>)))"

definition writer_pool_put :: "'c writer_store \<Rightarrow> nat \<Rightarrow> 'c writer_store option" where
  "writer_pool_put st a = Option.bind (writer_reset st a) (\<lambda>st. Some (st\<lparr>wst_pool := a # wst_pool st\<rparr>))"

section \<open>The negotiated parameters\<close>

record negotiated =
  n_enabled :: bool
  n_clientNoContextTake :: bool
  n_serverNoContextTake :: bool
  n_clientMaxWindowBits :: int
  n_serverMaxWindowBits :: int

definition no_negotiation :: negotiated where
  "no_negotiation = \<lparr>n_enabled = False, n_clientNoContextTake = False, n_serverNoContextTake = False,
     n_clientMaxWindowBits = 0, n_serverMaxWindowBits = 0\<rparr>"

text \<open>\<open>httphead.Option\<close>: a name and \<open>Parameters.Get\<close>.\<close>

record ext_option =
  eo_Name :: string
  eo_Get :: "string \<Rightarrow> string option"

text \<open>\<open>strconv.Atoi\<close>: an optional sign and decimal digits, within \<open>int64\<close>; any other string is an error.\<close>

definition digit_value :: "char \<Rightarrow> int option" where
  "digit_value c = (let n = of_char c :: int in if 48 \<le> n \<and> n \<le> 57 then Some (n - 48) else None)"

fun digits_value :: "int \<Rightarrow> string \<Rightarrow> int option" where
  "digits_value acc [] = Some acc"
| "digits_value acc (c # cs) = (case digit_value c of None \<Rightarrow> None | Some d \<Rightarrow> digits_value (10 * acc + d) cs)"

definition Atoi :: "string \<Rightarrow> int option" where
  "Atoi s =
     (let (sg, ds) = (case s of c # cs \<Rightarrow> if c = CHR ''-'' then (-1, cs) else if c = CHR ''+'' then (1, cs) else (1, s)
                      | [] \<Rightarrow> (1, []))
      in if ds = [] then None
         else (case digits_value 0 ds of None \<Rightarrow> None
               | Some v \<Rightarrow> if - (2 ^ 63) \<le> sg * v \<and> sg * v < 2 ^ 63 then Some (sg * v) else None))"

definition window_bits :: "ext_option \<Rightarrow> string \<Rightarrow> int \<Rightarrow> int" where
  "window_bits opt param old =
     (case eo_Get opt param of
        Some v \<Rightarrow> if 0 < length v then (case Atoi v of Some n \<Rightarrow> n | None \<Rightarrow> old) else old
      | None \<Rightarrow> old)"

fun parsePerMessageDeflate :: "ext_option list \<Rightarrow> negotiated \<Rightarrow> negotiated" where
  "parsePerMessageDeflate [] n = n"
| "parsePerMessageDeflate (opt # opts) n =
     (if eo_Name opt \<noteq> ''permessage-deflate'' then parsePerMessageDeflate opts n
      else
        (let n = n\<lparr>n_enabled := True\<rparr>;
             n = (if eo_Get opt ''client_no_context_takeover'' \<noteq> None then n\<lparr>n_clientNoContextTake := True\<rparr> else n);
             n = (if eo_Get opt ''server_no_context_takeover'' \<noteq> None then n\<lparr>n_serverNoContextTake := True\<rparr> else n);
             n = n\<lparr>n_clientMaxWindowBits := window_bits opt ''client_max_window_bits'' (n_clientMaxWindowBits n)\<rparr>;
             n = n\<lparr>n_serverMaxWindowBits := window_bits opt ''server_max_window_bits'' (n_serverMaxWindowBits n)\<rparr>
         in n))"

definition perMessageDeflateRecvExt :: "header \<Rightarrow> header \<times> err option" where
  "perMessageDeflateRecvExt h = (h\<lparr>h_rsv := h_rsv h AND NOT 4\<rparr>, None)"

end
