(* ===== verification/WsTransport.thy ===== *)
theory WsTransport
  imports WsOptions
begin

text \<open>
  \<open>websocket/transport.go\<close>: \<open>websocketTransport\<close>, one WebSocket connection.

  The embedded \<open>transport.Transport\<close> is the reader's \<open>Source\<close> and the destination of every write: the connection
  of the frame reader.  \<open>rand.Uint32\<close> and the recycled buffers of \<open>pbytes\<close> are environment: \<open>t_rand i\<close> is the
  \<open>i\<close>-th mask drawn and \<open>t_pool n\<close> what a buffer of size \<open>n\<close> holds when it is handed out.
\<close>

section \<open>State\<close>

text \<open>\<open>http.Request\<close>: what the transport hands out of it.\<close>

record request =
  rq_Path :: string
  rq_Header :: "(string \<times> string list) list"

record ('cert, 'c, 'd, 'x) ws_transport =
  t_options :: "('cert, 'c) ws_options"
  t_state :: byte
  t_opCode :: byte
  t_request :: request
  t_reader :: "('d, 'x) frame_reader"
  t_msgReader :: bool
  t_negotiated :: negotiated
  t_persistentFlateWriter :: "nat option"
  t_writers :: "'c writer_store"
  t_rand :: "nat \<Rightarrow> mask"
  t_draws :: nat
  t_pool :: "nat \<Rightarrow> bytes"

definition t_conn :: "('cert, 'c, 'd, 'x) ws_transport \<Rightarrow> conn" where
  "t_conn t = fr_dst (t_reader t)"

definition t_set_conn :: "conn \<Rightarrow> ('cert, 'c, 'd, 'x) ws_transport \<Rightarrow> ('cert, 'c, 'd, 'x) ws_transport" where
  "t_set_conn c t = t\<lparr>t_reader := fr_set_dst c (t_reader t)\<rparr>"

definition Route :: "('cert, 'c, 'd, 'x) ws_transport \<Rightarrow> string" where
  "Route t = rq_Path (t_request t)"

definition Header_of :: "('cert, 'c, 'd, 'x) ws_transport \<Rightarrow> (string \<times> string list) list" where
  "Header_of t = rq_Header (t_request t)"

definition Request_of :: "('cert, 'c, 'd, 'x) ws_transport \<Rightarrow> request" where
  "Request_of t = t_request t"

section \<open>Construction\<close>

text \<open>
  The network connection, as the type switch sees it, with the answer of its \<open>SetNoDelay\<close>: a TCP connection, a
  TLS connection (over TCP or not), or another one.
\<close>

datatype net_conn =
    TCPConn "bool \<Rightarrow> err option"
  | TLSConn "(bool \<Rightarrow> err option) option"
  | OtherConn

fun set_no_delay :: "net_conn \<Rightarrow> bool \<Rightarrow> err option" where
  "set_no_delay (TCPConn f) b = f b"
| "set_no_delay (TLSConn (Some f)) b = f b"
| "set_no_delay (TLSConn None) b = None"
| "set_no_delay OtherConn b = None"

text \<open>\<open>1 << uint(bits)\<close> in Go's 64-bit \<open>int\<close>.\<close>

definition window_size :: "int \<Rightarrow> int" where
  "window_size bits = sint (push_bit (nat bits) 1 :: i64)"

definition choose_opCode :: "('x, 'cw) ws_lib \<Rightarrow> ('cert, 'c) ws_options \<Rightarrow> byte" where
  "choose_opCode L opts = (if o_OpCode opts AND OpText L = 0 then OpBinary L else OpText L)"

definition base_transport ::
    "('x, 'cw) ws_lib \<Rightarrow> 'd dec \<Rightarrow> ('cert, 'c) ws_options \<Rightarrow> bool \<Rightarrow> request \<Rightarrow> ext_option list \<Rightarrow> conn
      \<Rightarrow> 'd flate_store \<Rightarrow> 'c writer_store \<Rightarrow> (nat \<Rightarrow> mask) \<Rightarrow> (nat \<Rightarrow> bytes) \<Rightarrow> ('cert, 'c, 'd, 'x) ws_transport" where
  "base_transport L D opts client req hs c fst0 wst rnd pool =
     (let state = (if client then StateClientSide L else StateServerSide L)
      in \<lparr>t_options = opts, t_state = state, t_opCode = choose_opCode L opts, t_request = req,
          t_reader = (NewFrameReader L (fst0\<lparr>fs_persistent := None\<rparr>) c (state OR StateExtended L))
             \<lparr>fr_CheckUTF8 := o_CheckUTF8 opts, fr_MaxFrameSize := o_MaxFrameSize opts,
              fr_GetFlateReader := Some (\<lambda>st b. if o_readerPool opts then pool_GetFlateReader D st b else None),
              fr_PutFlateReader := Some (pool_PutFlateReader D)\<rparr>,
          t_msgReader = False,
          t_negotiated = (if 0 < length hs then parsePerMessageDeflate hs no_negotiation else no_negotiation),
          t_persistentFlateWriter = None, t_writers = wst, t_rand = rnd, t_draws = 0, t_pool = pool\<rparr>)"

text \<open>The reader and the writer kept between messages; a panic (no pool, no \<open>New\<close>) is \<^term>\<open>None\<close>.\<close>

definition with_persistent_reader ::
    "('x, 'cw) ws_lib \<Rightarrow> 'd dec \<Rightarrow> ('cert, 'c, 'd, 'x) ws_transport \<Rightarrow> ('cert, 'c, 'd, 'x) ws_transport option" where
  "with_persistent_reader L D t =
     (let peerNoCtx = (if st_server L (t_state t) then n_clientNoContextTake (t_negotiated t)
                       else n_serverNoContextTake (t_negotiated t))
      in if peerNoCtx then Some t
         else if \<not> o_readerPool (t_options t) then None
         else (case reader_pool_get D (fr_store (t_reader t)) of (st, a) \<Rightarrow>
           Some (t\<lparr>t_reader := (t_reader t)
             \<lparr>fr_store := (reader_reset D st a None)\<lparr>fs_persistent := Some a\<rparr>,
              fr_GetFlateReader := Some (persistent_GetFlateReader D),
              fr_PutFlateReader := Some persistent_PutFlateReader\<rparr>\<rparr>)))"

definition with_persistent_writer ::
    "('x, 'cw) ws_lib \<Rightarrow> 'c flate_lib \<Rightarrow> ('cert, 'c, 'd, 'x) ws_transport \<Rightarrow> ('cert, 'c, 'd, 'x) ws_transport option" where
  "with_persistent_writer L F t =
     (let ourNoCtx = (if st_server L (t_state t) then n_serverNoContextTake (t_negotiated t)
                      else n_clientNoContextTake (t_negotiated t));
          ourWindowBits = (if st_server L (t_state t) then n_serverMaxWindowBits (t_negotiated t)
                           else n_clientMaxWindowBits (t_negotiated t))
      in if ourNoCtx then Some t
         else Option.bind
           (if 0 < ourWindowBits then writer_alloc (t_writers t) (kp_NewWriterWindow F (window_size ourWindowBits))
            else Option.bind (writer_pool_get (t_options t) (t_writers t)) (\<lambda>(st, a).
              Option.bind (writer_reset st a) (\<lambda>st. Some (st, a))))
           (\<lambda>(st, a). Some (t\<lparr>t_writers := st, t_persistentFlateWriter := Some a\<rparr>)))"

definition newWebsocketTransport ::
    "('x, 'cw) ws_lib \<Rightarrow> 'd dec \<Rightarrow> 'c flate_lib \<Rightarrow> net_conn \<Rightarrow> ('cert, 'c) ws_options \<Rightarrow> bool \<Rightarrow> request
      \<Rightarrow> ext_option list \<Rightarrow> conn \<Rightarrow> 'd flate_store \<Rightarrow> 'c writer_store \<Rightarrow> (nat \<Rightarrow> mask) \<Rightarrow> (nat \<Rightarrow> bytes)
      \<Rightarrow> (err + ('cert, 'c, 'd, 'x) ws_transport) option" where
  "newWebsocketTransport L D F nc opts client req hs c fst0 wst rnd pool =
     (case set_no_delay nc (o_NoDelay opts) of
        Some e \<Rightarrow> Some (Inl e)
      | None \<Rightarrow>
         (let t = base_transport L D opts client req hs c fst0 wst rnd pool
          in if o_CompressEnabled opts \<and> n_enabled (t_negotiated t) then
               map_option Inr
                 (Option.bind
                   (with_persistent_reader L D
                     (t\<lparr>t_reader := (t_reader t)\<lparr>fr_Extensions := [perMessageDeflateRecvExt]\<rparr>\<rparr>))
                   (with_persistent_writer L F))
             else Some (Inr t)))"

text \<open>\<open>OnIntermediate\<close>: the control handler on the transport's own connection, lock and role.\<close>

definition t_OnIntermediate ::
    "('x, 'cw) ws_lib \<Rightarrow> ('cert, 'c, 'd, 'x) ws_transport \<Rightarrow> ('d, 'x) frame_reader handler" where
  "t_OnIntermediate L t = ControlFrameHandler L fr_dst fr_set_dst (t_pool t) (t_state t)"

section \<open>Writing\<close>

definition draw_mask ::
    "('x, 'cw) ws_lib \<Rightarrow> ('cert, 'c, 'd, 'x) ws_transport \<Rightarrow> ('cert, 'c, 'd, 'x) ws_transport \<times> mask" where
  "draw_mask L t =
     (if st_client L (t_state t) then (t\<lparr>t_draws := Suc (t_draws t)\<rparr>, t_rand t (t_draws t)) else (t, Mask 0 0 0 0))"

text \<open>
  Header and payload in one recycled buffer, written with one \<open>Write\<close>.  \<open>n\<close> is what a success returns.
\<close>

definition write_packet ::
    "('x, 'cw) ws_lib \<Rightarrow> ('cert, 'c, 'd, 'x) ws_transport \<Rightarrow> mask \<Rightarrow> bytes \<Rightarrow> bool \<Rightarrow> nat
      \<Rightarrow> ('cert, 'c, 'd, 'x) ws_transport \<times> nat \<times> err option" where
  "write_packet L t msk p compressed n =
     (let buf = t_pool t (14 + length p)
      in case packHeader (st_client L (t_state t)) (t_opCode t) (take 14 buf) True msk (word_of_nat (length p)) compressed of
           (hdr, hn, Some e) \<Rightarrow> (t, 0, Some e)
         | (hdr, hn, None) \<Rightarrow>
             (let buf = go_copy (hdr @ drop 14 buf) hn p
              in case conn_write (t_conn t) (take (hn + length p) buf) of
                   (c, _, e) \<Rightarrow> (t_set_conn c t, if e = None then n else 0, e)))"

text \<open>
  \<open>writeCompress\<close> on the caller's bytes; \<open>put_back\<close> is the deferred return of a pooled writer.
\<close>

definition put_back ::
    "nat \<Rightarrow> ('cert, 'c, 'd, 'x) ws_transport \<Rightarrow> ('cert, 'c, 'd, 'x) ws_transport option" where
  "put_back a t =
     (if t_persistentFlateWriter t = Some a then Some t
      else Option.bind (writer_pool_put (t_writers t) a) (\<lambda>st. Some (t\<lparr>t_writers := st\<rparr>)))"

definition take_writer ::
    "('cert, 'c, 'd, 'x) ws_transport \<Rightarrow> ('c writer_store \<times> nat) option" where
  "take_writer t =
     (case t_persistentFlateWriter t of
        Some a \<Rightarrow> Some (t_writers t, a)
      | None \<Rightarrow> writer_pool_get (t_options t) (t_writers t))"

definition compress_payload ::
    "'c writer_store \<Rightarrow> nat \<Rightarrow> bytes \<Rightarrow> ('c writer_store \<times> bytes \<times> err option) option" where
  "compress_payload st a p =
     Option.bind (writer_reset st a) (\<lambda>st.
       case wst_obj st a of (C, fw) \<Rightarrow>
         Option.bind (fw_write C buffer_write fw [] p) (\<lambda>(fw, w, _, e).
           Option.bind (if e = None then fw_flush C buffer_write fw w else Some (fw, w, e)) (\<lambda>(fw, w, e).
             Some (st\<lparr>wst_obj := (wst_obj st)(a := (C, fw))\<rparr>, w, e))))"

definition compress_wanted :: "('cert, 'c, 'd, 'x) ws_transport \<Rightarrow> bytes \<Rightarrow> bool" where
  "compress_wanted t p \<longleftrightarrow>
     o_CompressEnabled (t_options t) \<and> sint (o_CompressThreshold (t_options t)) \<le> int (length p)"

definition writeCompress ::
    "('x, 'cw) ws_lib \<Rightarrow> ('cert, 'c, 'd, 'x) ws_transport \<Rightarrow> bytes
      \<Rightarrow> (('cert, 'c, 'd, 'x) ws_transport \<times> bytes \<times> nat \<times> err option) option" where
  "writeCompress L t p =
     (if compress_wanted t p then
        Option.bind (take_writer t) (\<lambda>(st, a).
          Option.bind (compress_payload st a p) (\<lambda>(st, z, e).
            let t = t\<lparr>t_writers := st\<rparr>
            in case e of
                 Some x \<Rightarrow> Option.bind (put_back a t) (\<lambda>t. Some (t, p, 0, Some x))
               | None \<Rightarrow>
                   (case draw_mask L t of (t, msk) \<Rightarrow>
                     let z = (if st_client L (t_state t) then FastCipher z msk 0 else z)
                     in case write_packet L t msk z True (length p) of (t, n, e) \<Rightarrow>
                          Option.bind (put_back a t) (\<lambda>t. Some (t, p, n, e)))))
      else
        (case draw_mask L t of (t, msk) \<Rightarrow>
          let q = (if st_client L (t_state t) then FastCipher p msk 0 else p)
          in case write_packet L t msk q False (length p) of (t, n, e) \<Rightarrow> Some (t, q, n, e)))"

text \<open>
  \<open>Write\<close> returns the transport, what the caller's slice \<open>p\<close> holds afterwards (a client masks it in place), the
  count and the error.
\<close>

definition Write ::
    "('x, 'cw) ws_lib \<Rightarrow> ('cert, 'c, 'd, 'x) ws_transport \<Rightarrow> bytes
      \<Rightarrow> (('cert, 'c, 'd, 'x) ws_transport \<times> bytes \<times> nat \<times> err option) option" where
  "Write L t p =
     (if o_CompressEnabled (t_options t) \<and> n_enabled (t_negotiated t)
         \<and> sint (o_CompressThreshold (t_options t)) \<le> int (length p)
      then writeCompress L t p
      else
        (case draw_mask L t of (t, msk) \<Rightarrow>
          let q = (if st_client L (t_state t) then FastCipher p msk 0 else p)
          in case write_packet L t msk q False (length p) of (t, n, e) \<Rightarrow> Some (t, q, n, e)))"

text \<open>\<open>Writev\<close> returns the buffers as they are afterwards, too.\<close>

fun Writev_loop ::
    "('x, 'cw) ws_lib \<Rightarrow> ('cert, 'c, 'd, 'x) ws_transport \<Rightarrow> bytes list \<Rightarrow> nat
      \<Rightarrow> (('cert, 'c, 'd, 'x) ws_transport \<times> bytes list \<times> nat \<times> err option) option" where
  "Writev_loop L t [] writeSize = Some (t, [], writeSize, None)"
| "Writev_loop L t (pkt # pkts) writeSize =
     Option.bind (Write L t pkt) (\<lambda>(t, q, _, e).
       case e of
         Some x \<Rightarrow> Some (t, q # pkts, 0, Some x)
       | None \<Rightarrow> Option.bind (Writev_loop L t pkts (writeSize + length pkt)) (\<lambda>(t, qs, n, e). Some (t, q # qs, n, e)))"

definition Writev ::
    "('x, 'cw) ws_lib \<Rightarrow> ('cert, 'c, 'd, 'x) ws_transport \<Rightarrow> bytes list
      \<Rightarrow> (('cert, 'c, 'd, 'x) ws_transport \<times> bytes list \<times> nat \<times> err option) option" where
  "Writev L t buffs = Writev_loop L t buffs 0"

definition WriteClose ::
    "('x, 'cw) ws_lib \<Rightarrow> ('cert, 'c, 'd, 'x) ws_transport \<Rightarrow> 16 word \<Rightarrow> bytes
      \<Rightarrow> ('cert, 'c, 'd, 'x) ws_transport \<times> err option" where
  "WriteClose L t code reason =
     (let body = close_body L code reason;
          h = new_close_header L body;
          (t, msk) = draw_mask L t;
          (h, body) = (if st_client L (t_state t) then (h\<lparr>h_masked := True, h_mask := msk\<rparr>, FastCipher body msk 0)
                       else (h, body))
      in case ws_write_frame L (t_conn t) h body of
           (c, Some e) \<Rightarrow> (t_set_conn c t, Some e)
         | (c, None) \<Rightarrow> (case conn_flush c of (c, e) \<Rightarrow> (t_set_conn c t, e)))"

definition Flush :: "('cert, 'c, 'd, 'x) ws_transport \<Rightarrow> ('cert, 'c, 'd, 'x) ws_transport \<times> err option" where
  "Flush t = (case conn_flush (t_conn t) of (c, e) \<Rightarrow> (t_set_conn c t, e))"

text \<open>Closing the embedded transport: the second time it is an error.\<close>

definition conn_close :: "conn \<Rightarrow> conn \<times> err option" where
  "conn_close c = (if closed c then (c, Some (ErrForeign 0)) else (c\<lparr>closed := True\<rparr>, None))"

definition close_reader ::
    "'d dec \<Rightarrow> ('cert, 'c, 'd, 'x) ws_transport \<Rightarrow> ('cert, 'c, 'd, 'x) ws_transport" where
  "close_reader D t =
     (case fs_persistent (fr_store (t_reader t)) of
        None \<Rightarrow> t
      | Some a \<Rightarrow> t\<lparr>t_reader := (t_reader t)
          \<lparr>fr_store := (pool_PutFlateReader D (fr_store (t_reader t)) a)\<lparr>fs_persistent := None\<rparr>\<rparr>\<rparr>)"

definition close_writer ::
    "('cert, 'c, 'd, 'x) ws_transport \<Rightarrow> ('cert, 'c, 'd, 'x) ws_transport option" where
  "close_writer t =
     (case t_persistentFlateWriter t of
        None \<Rightarrow> Some t
      | Some a \<Rightarrow> Option.bind (writer_pool_put (t_writers t) a) (\<lambda>st.
          Some (t\<lparr>t_writers := st, t_persistentFlateWriter := None\<rparr>)))"

definition Close ::
    "'d dec \<Rightarrow> ('cert, 'c, 'd, 'x) ws_transport \<Rightarrow> (('cert, 'c, 'd, 'x) ws_transport \<times> err option) option" where
  "Close D t = Option.bind (close_writer (close_reader D t)) (\<lambda>t.
     case conn_close (t_conn t) of (c, e) \<Rightarrow> Some (t_set_conn c t, e))"

section \<open>Reading\<close>

text \<open>The loop of \<open>Read\<close>: advance to the next data message that the options accept.\<close>

definition eof_unexpected :: "err \<Rightarrow> err" where
  "eof_unexpected e = (if e = EOF then ErrUnexpectedEOF else e)"

definition unsupported_reason :: bytes where
  "unsupported_reason = map of_char ''unsupported data type''"

partial_function (option) next_message ::
    "('x, 'cw) ws_lib \<Rightarrow> 'd dec \<Rightarrow> ('cert, 'c, 'd, 'x) ws_transport
      \<Rightarrow> (('cert, 'c, 'd, 'x) ws_transport \<times> err option) option" where
  [code]: "next_message L D t =
     Option.bind (NextFrame L D (Some (t_OnIntermediate L t)) None (t_reader t)) (\<lambda>(r, h, e).
       case e of
         Some x \<Rightarrow> Some (t\<lparr>t_reader := r\<rparr>, Some (eof_unexpected x))
       | None \<Rightarrow>
           if is_control L (h_op h) then
             Option.bind (t_OnIntermediate L t h (FrameReader_Read L D (Some (t_OnIntermediate L t)) None) r) (\<lambda>(r, e).
               case e of
                 Some x \<Rightarrow> Some (t\<lparr>t_reader := r\<rparr>, Some x)
               | None \<Rightarrow> next_message L D (t\<lparr>t_reader := r\<rparr>))
           else if h_op h AND o_OpCode (t_options t) = 0 then
             Option.bind (Discard L D (Some (t_OnIntermediate L t)) None r) (\<lambda>(r, e).
               case e of
                 Some x \<Rightarrow> Some (t\<lparr>t_reader := r\<rparr>, Some (eof_unexpected x))
               | None \<Rightarrow> next_message L D (fst (WriteClose L (t\<lparr>t_reader := r\<rparr>) (StatusUnsupportedData L) unsupported_reason)))
           else Some (t\<lparr>t_reader := r, t_msgReader := True\<rparr>, None))"

definition read_message ::
    "('x, 'cw) ws_lib \<Rightarrow> 'd dec \<Rightarrow> ('cert, 'c, 'd, 'x) ws_transport rd" where
  "read_message L D t n =
     Option.bind (FrameReader_Read L D (Some (t_OnIntermediate L t)) None (t_reader t) n) (\<lambda>(r, bs, e).
       Some (if e = Some EOF then t\<lparr>t_reader := r, t_msgReader := False\<rparr> else t\<lparr>t_reader := r\<rparr>, bs, e))"

definition Read :: "('x, 'cw) ws_lib \<Rightarrow> 'd dec \<Rightarrow> ('cert, 'c, 'd, 'x) ws_transport rd" where
  "Read L D t n =
     (if t_msgReader t then read_message L D t n
      else Option.bind (next_message L D t) (\<lambda>(t, e).
        case e of Some x \<Rightarrow> Some (t, [], Some x) | None \<Rightarrow> read_message L D t n))"

end
