(* ===== verification/WsWrite.thy ===== *)
theory WsWrite
  imports WsTransport
begin

text \<open>
  What \<open>Write\<close>, \<open>writeCompress\<close> and \<open>Writev\<close> put on the wire: one frame per message, as one block, with the
  header of RFC 6455 for the payload that follows it.
\<close>

section \<open>Frames on the wire\<close>

text \<open>The frame of a payload: the format of \<open>Header\<close> and the payload, masked for a client.\<close>

definition wire_frame :: "bool \<Rightarrow> byte \<Rightarrow> mask \<Rightarrow> bool \<Rightarrow> bytes \<Rightarrow> bytes" where
  "wire_frame client op msk compressed p =
     encode_header True compressed op (if client then Some msk else None) (length p)
       @ (if client then cipher_spec msk 0 p else p)"

definition pool_ok :: "('cert, 'c, 'd, 'x) ws_transport \<Rightarrow> bool" where
  "pool_ok t \<longleftrightarrow> (\<forall>n. length (t_pool t n) = n)"

definition next_mask :: "('x, 'cw) ws_lib \<Rightarrow> ('cert, 'c, 'd, 'x) ws_transport \<Rightarrow> mask" where
  "next_mask L t = snd (draw_mask L t)"

definition after_mask :: "('x, 'cw) ws_lib \<Rightarrow> ('cert, 'c, 'd, 'x) ws_transport \<Rightarrow> ('cert, 'c, 'd, 'x) ws_transport" where
  "after_mask L t = fst (draw_mask L t)"

lemma after_mask_simps [simp]:
  "t_conn (after_mask L t) = t_conn t" "t_state (after_mask L t) = t_state t" "t_opCode (after_mask L t) = t_opCode t"
  "t_pool (after_mask L t) = t_pool t" "t_options (after_mask L t) = t_options t" "t_reader (after_mask L t) = t_reader t"
  "t_negotiated (after_mask L t) = t_negotiated t" "pool_ok (after_mask L t) = pool_ok t"
  "t_writers (after_mask L t) = t_writers t" "t_persistentFlateWriter (after_mask L t) = t_persistentFlateWriter t"
  "t_msgReader (after_mask L t) = t_msgReader t"
  by (auto simp: after_mask_def draw_mask_def t_conn_def pool_ok_def)

lemma t_set_conn_simps [simp]:
  "t_conn (t_set_conn c t) = c" "t_state (t_set_conn c t) = t_state t" "t_opCode (t_set_conn c t) = t_opCode t"
  "t_pool (t_set_conn c t) = t_pool t" "t_options (t_set_conn c t) = t_options t"
  "t_negotiated (t_set_conn c t) = t_negotiated t" "pool_ok (t_set_conn c t) = pool_ok t"
  "t_writers (t_set_conn c t) = t_writers t" "t_persistentFlateWriter (t_set_conn c t) = t_persistentFlateWriter t"
  "t_msgReader (t_set_conn c t) = t_msgReader t"
  by (auto simp: t_set_conn_def t_conn_def fr_dst_def fr_set_dst_def pool_ok_def)

text \<open>
  Whatever the recycled buffer held, the block written is the header and the payload \<open>q\<close>, and the only call on
  the connection is one \<open>Write\<close> of it.
\<close>

lemma write_packet_block:
  assumes pool: "pool_ok t" and len: "length q < 2 ^ 63"
  shows "write_packet L t msk q compressed n =
    (case conn_write (t_conn t) (encode_header True compressed (t_opCode t)
            (if st_client L (t_state t) then Some msk else None) (length q) @ q) of
       (c, _, e) \<Rightarrow> (t_set_conn c t, if e = None then n else 0, e))"
proof -
  let ?buf = "t_pool t (14 + length q)"
  have buf: "length (take 14 ?buf) = 14" "length (drop 14 ?buf) = length q" using pool by (simp_all add: pool_ok_def)
  obtain hdr hn e where ph: "packHeader (st_client L (t_state t)) (t_opCode t) (take 14 ?buf) True msk
      (word_of_nat (length q)) compressed = (hdr, hn, e)" by (metis prod_cases3)
  note h = packHeader_encodes [OF buf(1) len ph]
  have "take (hn + length q) (go_copy (hdr @ drop 14 ?buf) hn q) = take hn hdr @ q"
    using h buf(2) by (subst take_go_copy) simp_all
  with h ph show ?thesis by (simp add: write_packet_def Let_def)
qed

section \<open>Write without compression\<close>

definition compresses :: "('cert, 'c, 'd, 'x) ws_transport \<Rightarrow> bytes \<Rightarrow> bool" where
  "compresses t p \<longleftrightarrow> n_enabled (t_negotiated t) \<and> compress_wanted t p"

definition masked_for :: "('x, 'cw) ws_lib \<Rightarrow> ('cert, 'c, 'd, 'x) ws_transport \<Rightarrow> bytes \<Rightarrow> bytes" where
  "masked_for L t p = (if st_client L (t_state t) then cipher_spec (next_mask L t) 0 p else p)"

lemma length_masked_for [simp]: "length (masked_for L t p) = length p"
  by (simp add: masked_for_def)

lemma Write_plain:
  assumes "\<not> compresses t p" and "pool_ok t" and "length p < 2 ^ 63"
  shows "Write L t p =
    (case conn_write (t_conn t) (wire_frame (st_client L (t_state t)) (t_opCode t) (next_mask L t) False p) of
       (c, _, e) \<Rightarrow> Some (t_set_conn c (after_mask L t), masked_for L t p, if e = None then length p else 0, e))"
proof -
  have dm: "draw_mask L t = (after_mask L t, next_mask L t)" by (simp add: after_mask_def next_mask_def)
  have q: "(if st_client L (t_state t) then FastCipher p (next_mask L t) 0 else p) = masked_for L t p"
    by (simp add: masked_for_def FastCipher_eq)
  have w: "wire_frame (st_client L (t_state t)) (t_opCode t) (next_mask L t) False p =
      encode_header True False (t_opCode t) (if st_client L (t_state t) then Some (next_mask L t) else None)
        (length (masked_for L t p)) @ masked_for L t p"
    by (simp add: wire_frame_def masked_for_def)
  obtain c k e where cw: "conn_write (t_conn t) (wire_frame (st_client L (t_state t)) (t_opCode t) (next_mask L t) False p)
      = (c, k, e)" by (metis prod_cases3)
  have "write_packet L (after_mask L t) (next_mask L t) (masked_for L t p) False (length p)
      = (t_set_conn c (after_mask L t), if e = None then length p else 0, e)"
    using assms write_packet_block [of "after_mask L t" "masked_for L t p" L "next_mask L t" False "length p"] cw
    by (simp add: w)
  moreover have "\<not> (o_CompressEnabled (t_options t) \<and> n_enabled (t_negotiated t)
      \<and> sint (o_CompressThreshold (t_options t)) \<le> int (length p))"
    using assms(1) by (auto simp: compresses_def compress_wanted_def)
  ultimately show ?thesis by (simp only: Write_def dm cw prod.case if_False Let_def q after_mask_simps)
qed

text \<open>On a connection whose writes succeed.\<close>

lemma conn_write_quiet: "w_faults c = [] \<Longrightarrow> conn_write c p = (c\<lparr>out := out c @ [p]\<rparr>, length p, None)"
  by (simp add: conn_write_def)

lemma Write_plain_quiet:
  assumes "\<not> compresses t p" "pool_ok t" "length p < 2 ^ 63" "w_faults (t_conn t) = []"
  shows "Write L t p = Some
    (t_set_conn ((t_conn t)\<lparr>out := out (t_conn t)
       @ [wire_frame (st_client L (t_state t)) (t_opCode t) (next_mask L t) False p]\<rparr>) (after_mask L t),
     masked_for L t p, length p, None)"
  by (simp add: Write_plain [OF assms(1-3)] conn_write_quiet [OF assms(4)])

text \<open>The frame parses back to the message.\<close>

lemma parse_wire_frame:
  assumes "op AND 0x0f = op" and "length p < 2 ^ 63"
  shows "parse_header (wire_frame client op msk cmp p @ rest) =
    Parsed \<lparr>h_fin = True, h_rsv = (if cmp then 4 else 0), h_op = op, h_masked = client,
            h_mask = (if client then msk else Mask 0 0 0 0), h_length = word_of_nat (length p)\<rparr>
      ((if client then cipher_spec msk 0 p else p) @ rest)"
  using parse_encode_header [OF assms(1,2), of True cmp "if client then Some msk else None"]
  by (simp add: wire_frame_def)

section \<open>writeCompress\<close>

text \<open>
  A compressed message: the payload of the frame is the compressor's stream without the four bytes that a
  sync flush ends with, the caller's slice is unchanged, and a pooled writer is returned.
\<close>

lemma compress_payload_stream:
  assumes "compress_payload st a p = Some (st', z, None)" and obj: "wst_obj st a = (C, fw0)"
  shows "\<exists>fw c. fw_reset C fw0 = Some fw \<and> fw_c fw = Some (Some c) \<and> compress_stream C c p = z @ compressionTail"
proof -
  obtain fw where fw: "fw_reset C fw0 = Some fw"
    using assms by (auto simp: compress_payload_def writer_reset_def dest!: bind_eq_SomeD)
  with assms obtain fw1 w1 n e1 fw2 where w: "fw_write C buffer_write fw [] p = Some (fw1, w1, n, e1)"
    and f: "(if e1 = None then fw_flush C buffer_write fw1 w1 else Some (fw1, w1, e1)) = Some (fw2, z, None)"
    by (auto simp: compress_payload_def writer_reset_def dest!: bind_eq_SomeD)
  then have e1: "e1 = None" and f: "fw_flush C buffer_write fw1 w1 = Some (fw2, z, None)"
    by (auto split: if_splits)
  have "fw_err fw = None" using fw by (auto simp: fw_reset_def Let_def split: option.splits)
  then obtain c where c: "fw_c fw = Some (Some c)" and "fw_c fw1 = Some (Some (fst (c_write C c p)))" "fw_err fw1 = None"
    using w e1 by (auto simp: fw_write_def split: option.splits prod.splits)
  then have "snd (snd (c_flush C (fst (c_write C c p)))) = None"
    using f by (auto simp: fw_flush_def fw_checkTail_def Let_def split: option.splits prod.splits if_splits)
  from fw_message(1) [OF fw c w [unfolded e1] f this] fw c show ?thesis by simp
qed

lemma writeCompress_frame:
  assumes want: "compress_wanted t p" and pool: "pool_ok t" and quiet: "w_faults (t_conn t) = []"
    and tw: "take_writer t = Some (st, a)" and cp: "compress_payload st a p = Some (st', z, None)"
    and len: "length z < 2 ^ 63"
    and put: "put_back a (t_set_conn ((t_conn t)\<lparr>out := out (t_conn t)
       @ [wire_frame (st_client L (t_state t)) (t_opCode t) (next_mask L t) True z]\<rparr>)
         (after_mask L (t\<lparr>t_writers := st'\<rparr>))) = Some t'"
  shows "writeCompress L t p = Some (t', p, length p, None)"
proof -
  let ?t = "t\<lparr>t_writers := st'\<rparr>"
  have mask: "next_mask L ?t = next_mask L t" by (simp add: next_mask_def draw_mask_def)
  have dm: "draw_mask L ?t = (after_mask L ?t, next_mask L t)"
    using mask by (simp add: after_mask_def next_mask_def prod_eq_iff)
  have q: "(if st_client L (t_state t) then FastCipher z (next_mask L t) 0 else z) = masked_for L t z"
    by (simp add: masked_for_def FastCipher_eq)
  have w: "wire_frame (st_client L (t_state t)) (t_opCode t) (next_mask L t) True z =
      encode_header True True (t_opCode t) (if st_client L (t_state t) then Some (next_mask L t) else None)
        (length (masked_for L t z)) @ masked_for L t z"
    by (simp add: wire_frame_def masked_for_def)
  have pk: "pool_ok (after_mask L ?t)" using pool by (simp add: pool_ok_def)
  have cn: "t_conn ?t = t_conn t" by (simp add: t_conn_def)
  have "write_packet L (after_mask L ?t) (next_mask L t) (masked_for L t z) True (length p) =
      (t_set_conn ((t_conn t)\<lparr>out := out (t_conn t)
         @ [wire_frame (st_client L (t_state t)) (t_opCode t) (next_mask L t) True z]\<rparr>) (after_mask L ?t), length p, None)"
    using write_packet_block [OF pk, of "masked_for L t z" L "next_mask L t" True "length p"] len
    by (simp add: w cn conn_write_quiet quiet)
  with want tw cp put show ?thesis by (simp add: writeCompress_def dm q Let_def)
qed

section \<open>Writev\<close>

text \<open>The frames of a sequence of messages, each with its own mask.\<close>

fun wire_frames :: "('x, 'cw) ws_lib \<Rightarrow> ('cert, 'c, 'd, 'x) ws_transport \<Rightarrow> bytes list \<Rightarrow> bytes list" where
  "wire_frames L t [] = []"
| "wire_frames L t (p # ps) =
     wire_frame (st_client L (t_state t)) (t_opCode t) (next_mask L t) False p # wire_frames L (after_mask L t) ps"

lemma wire_frames_Nil_iff [simp]: "wire_frames L t ps = [] \<longleftrightarrow> ps = []"
  by (cases ps) simp_all

lemma wire_frames_conn: "wire_frames L (t_set_conn c t) ps = wire_frames L t ps"
proof (induction ps arbitrary: t)
  case (Cons p ps)
  have "after_mask L (t_set_conn c t) = t_set_conn c (after_mask L t)"
    "next_mask L (t_set_conn c t) = next_mask L t"
    by (simp_all add: after_mask_def next_mask_def draw_mask_def t_set_conn_def)
  with Cons show ?case by simp
qed simp

lemma compresses_conn [simp]:
  "compresses (t_set_conn c t) p = compresses t p" "compresses (after_mask L t) p = compresses t p"
  by (simp_all add: compresses_def compress_wanted_def)

lemma Writev_loop_frames:
  assumes "\<forall>p \<in> set ps. \<not> compresses t p \<and> length p < 2 ^ 63" and "pool_ok t" and "w_faults (t_conn t) = []"
  shows "\<exists>t' qs. Writev_loop L t ps n = Some (t', qs, n + sum_list (map length ps), None)
    \<and> t_conn t' = (t_conn t)\<lparr>out := out (t_conn t) @ wire_frames L t ps\<rparr>"
  using assms
proof (induction ps arbitrary: t n)
  case Nil
  then show ?case by simp
next
  case (Cons p ps)
  let ?t1 = "t_set_conn ((t_conn t)\<lparr>out := out (t_conn t)
       @ [wire_frame (st_client L (t_state t)) (t_opCode t) (next_mask L t) False p]\<rparr>) (after_mask L t)"
  have w: "Write L t p = Some (?t1, masked_for L t p, length p, None)"
    by (rule Write_plain_quiet) (use Cons.prems in simp_all)
  obtain t' qs where "Writev_loop L ?t1 ps (n + length p) = Some (t', qs, n + length p + sum_list (map length ps), None)"
    "t_conn t' = (t_conn ?t1)\<lparr>out := out (t_conn ?t1) @ wire_frames L ?t1 ps\<rparr>"
    using Cons.IH [of ?t1 "n + length p"] Cons.prems by auto
  then show ?case by (simp add: w wire_frames_conn)
qed

text \<open>The first failing write ends the call: what was accepted before it is on the wire, but 0 is returned.\<close>

lemma Write_plain_fault:
  assumes "\<not> compresses t p" "pool_ok t" "length p < 2 ^ 63" "w_faults (t_conn t) = Some (k, x) # ws"
  shows "Write L t p = Some
    (t_set_conn ((t_conn t)\<lparr>out := out (t_conn t)
       @ [take k (wire_frame (st_client L (t_state t)) (t_opCode t) (next_mask L t) False p)], w_faults := ws\<rparr>) (after_mask L t),
     masked_for L t p, 0, Some x)"
  by (simp add: Write_plain [OF assms(1-3)] conn_write_def assms(4))

lemma Writev_loop_fault:
  assumes "\<forall>q \<in> set (ps @ [p]). \<not> compresses t q \<and> length q < 2 ^ 63" and "pool_ok t"
    and "w_faults (t_conn t) = replicate (length ps) None @ Some (k, x) # ws"
  shows "\<exists>t' qs. Writev_loop L t (ps @ p # rest) n = Some (t', qs, 0, Some x)
    \<and> out (t_conn t') = out (t_conn t) @ wire_frames L t ps @ [take k (last (wire_frames L t (ps @ [p])))]"
  using assms
proof (induction ps arbitrary: t n)
  case Nil
  have "Write L t p = Some
    (t_set_conn ((t_conn t)\<lparr>out := out (t_conn t)
       @ [take k (wire_frame (st_client L (t_state t)) (t_opCode t) (next_mask L t) False p)], w_faults := ws\<rparr>) (after_mask L t),
     masked_for L t p, 0, Some x)"
    by (rule Write_plain_fault) (use Nil in simp_all)
  then show ?case by simp
next
  case (Cons q ps)
  let ?f = "wire_frame (st_client L (t_state t)) (t_opCode t) (next_mask L t) False q"
  let ?t1 = "t_set_conn ((t_conn t)\<lparr>out := out (t_conn t) @ [?f],
      w_faults := replicate (length ps) None @ Some (k, x) # ws\<rparr>) (after_mask L t)"
  have "conn_write (t_conn t) ?f = (t_conn ?t1, length ?f, None)" using Cons.prems by (simp add: conn_write_def)
  moreover have "\<not> compresses t q" "length q < 2 ^ 63" "pool_ok t" using Cons.prems by simp_all
  ultimately have w: "Write L t q = Some (?t1, masked_for L t q, length q, None)"
    using Write_plain [of t q L] by simp
  obtain t' qs where "Writev_loop L ?t1 (ps @ p # rest) (n + length q) = Some (t', qs, 0, Some x)"
    "out (t_conn t') = out (t_conn ?t1) @ wire_frames L ?t1 ps @ [take k (last (wire_frames L ?t1 (ps @ [p])))]"
    using Cons.IH [of ?t1 "n + length q"] Cons.prems by auto
  then show ?case using w by (auto simp: wire_frames_conn)
qed

section \<open>Write with compression\<close>

lemma put_back_conn: "put_back a t = Some t' \<Longrightarrow> t_conn t' = t_conn t"
  by (auto simp: put_back_def bind_eq_Some_conv t_conn_def split: if_splits)

lemma Write_compressed:
  assumes "compresses t p" and "pool_ok t" and "w_faults (t_conn t) = []" and "take_writer t = Some (st, a)"
    and cp: "compress_payload st a p = Some (st', z, None)" and "length z < 2 ^ 63"
    and put: "put_back a (t_set_conn ((t_conn t)\<lparr>out := out (t_conn t)
       @ [wire_frame (st_client L (t_state t)) (t_opCode t) (next_mask L t) True z]\<rparr>)
         (after_mask L (t\<lparr>t_writers := st'\<rparr>))) = Some t'"
  shows "Write L t p = Some (t', p, length p, None)
    \<and> out (t_conn t') = out (t_conn t) @ [wire_frame (st_client L (t_state t)) (t_opCode t) (next_mask L t) True z]
    \<and> (\<exists>C c. compress_stream C c p = z @ compressionTail \<and> C = fst (wst_obj st a))"
proof -
  have "compress_wanted t p" using assms(1) by (simp add: compresses_def)
  from writeCompress_frame [OF this assms(2-4) cp assms(6) put] have "writeCompress L t p = Some (t', p, length p, None)" .
  moreover have "Write L t p = writeCompress L t p"
    using assms(1) by (simp add: Write_def compresses_def compress_wanted_def)
  moreover obtain C fw0 where o: "wst_obj st a = (C, fw0)" by force
  from compress_payload_stream [OF cp o] obtain c where "compress_stream C c p = z @ compressionTail" by blast
  ultimately show ?thesis using put_back_conn [OF put] o by auto
qed

end
