(* ===== verification/WsRead.thy ===== *)
theory WsRead
  imports WsWrite
begin

text \<open>
  \<open>Read\<close> of \<open>websocket/transport.go\<close> on the peer's byte stream: control frames between and inside messages are
  answered or dropped, and each message is delivered as its payload followed by \<open>EOF\<close>.
\<close>

section \<open>The reader between two messages\<close>

definition idle :: "('x, 'cw) ws_lib \<Rightarrow> ('d, 'x) frame_reader \<Rightarrow> bool" where
  "idle L r \<longleftrightarrow> \<not> fragmented L r \<and> \<not> fr_CheckUTF8 r \<and> fr_flateReader r = None \<and> quiet (lw_src (fr_low r))"

text \<open>The payload that starts with frame \<open>h\<close>, and the bytes after it.\<close>

definition opened ::
    "('x, 'cw) ws_lib \<Rightarrow> cfg \<Rightarrow> byte \<Rightarrow> header \<Rightarrow> bytes \<Rightarrow> (bytes \<times> bytes) option" where
  "opened L cfg st h rest =
     (let n = nat (sint (h_length h))
      in if frame_passes L cfg st h \<and> n \<le> length rest then
           (if h_fin h then Some (unmask h (take n rest), drop n rest)
            else map_option (\<lambda>(q, z). (unmask h (take n rest) @ q, z))
                   (frags L cfg (st_set L st (StateFragmented L)) (drop n rest)))
         else None)"

lemma length_unmask [simp]: "length (unmask h p) = length p"
  by (simp add: unmask_def)

lemma opened_length: "opened L cfg st h rest = Some (p, z) \<Longrightarrow> h_fin h \<Longrightarrow> length p = nat (sint (h_length h))"
  by (auto simp: opened_def Let_def split: if_splits)

lemma msg_end_idle:
  assumes "msg_end L s r" and "\<not> fr_CheckUTF8 s"
  shows "idle L r"
  using assms by (simp add: msg_end_def idle_def fr_setup_def)

lemma NextFrame_open:
  fixes D :: "'d dec" and r :: "('d, 'x) frame_reader" and L :: "('x, 'cw) ws_lib"
  assumes laws: "state_laws L" "handler_polite L D onI" and idle: "idle L r"
    and ph: "parse_header (conn_content (lw_src (fr_low r))) = Parsed h rest"
    and op: "opened L (fr_cfg r) (fr_state r) h rest = Some (p, z)"
  shows "\<exists>r'. NextFrame L D onI None r = Some (r', h, None) \<and> msg_ok L D onI r' \<and> msg_content L r' = p
    \<and> msg_rest L r' = z \<and> fr_setup L r' = fr_setup L r
    \<and> fr_flateReader r' = None \<and> (h_fin h \<longrightarrow> \<not> fragmented L r') \<and> (p = [] \<longrightarrow> h_fin h \<longrightarrow> lw_n (fr_low r') = 0)
    \<and> (\<exists>b. fr_frame r' = Some (RInner (RBase b))) \<and> conn_env (fr_dst r') = conn_env (fr_dst r)"
proof -
  let ?l = "fr_low r" and ?c = "lw_src (fr_low r)" and ?n = "nat (sint (h_length h))"
  from idle have nf: "\<not> fragmented L r" and utf8: "\<not> fr_CheckUTF8 r" and fl: "fr_flateReader r = None"
    and quiet: "quiet ?c" by (auto simp: idle_def)
  from op have pass: "frame_passes L (fr_cfg r) (fr_state r) h" and enough: "?n \<le> length rest"
    by (auto simp: opened_def Let_def split: if_splits)
  note nonneg = parse_header_length [OF ph]
  obtain c1 where rh: "ReadHeader conn_read ?c = Some (c1, h, None)" and c1: "conn_content c1 = rest"
    "conn_env c1 = conn_env ?c"
    by (rule conn_ReadHeader [OF ph])
  obtain l1 b where at: "attach_raw h (?l\<lparr>lw_src := c1\<rparr>) = (l1, b)" by force
  note l1 = attach_raw_facts [OF at nonneg, simplified, unfolded c1(1), OF enough]
  let ?st = "if h_fin h then st_clear L (fr_state r) (StateFragmented L) else st_set L (fr_state r) (StateFragmented L)"
  let ?r' = "r\<lparr>fr_low := l1, fr_opCode := h_op h, fr_frame := Some (RInner (RBase b)), fr_state := ?st\<rparr>"
  from pass have checks: "fr_SkipHeaderCheck r \<or> check_header L h (fr_state r) = None"
    "\<not> (0 < sint (fr_MaxFrameSize r) \<and> sint (fr_MaxFrameSize r) < sint (h_length h))"
    "is_compressed L h = (False, None)" "unset_bits (fr_Extensions r) h = (h, None)"
    by (auto simp: frame_passes_def fr_cfg_def)
  have frg: "fragmented L (r\<lparr>fr_low := l\<rparr>) = fragmented L r" for l by (simp add: fragmented_def)
  have "NextFrame L D onI None r = Some (?r', h, None)"
    using checks nf utf8 by (auto simp: NextFrame_def rh Let_def at frg install_frame_def)
  moreover have fr': "fragmented L ?r' \<longleftrightarrow> \<not> h_fin h" using laws by (auto simp: fragmented_def state_laws_def)
  have pnd: "pending L ?r' = (if h_fin h then Some ([], drop ?n rest)
      else frags L (fr_cfg r) (st_set L (fr_state r) (StateFragmented L)) (drop ?n rest))"
    using fr' l1 c1 by (simp add: pending_def fr_cfg_def)
  have pc: "p = base_content b l1 @ fst (the (pending L ?r'))" "z = snd (the (pending L ?r'))" "pending L ?r' \<noteq> None"
    using op l1 c1 pnd by (auto simp: opened_def Let_def split: if_splits)
  have q1: "quiet (lw_src l1)" using quiet_env [OF c1(2)] quiet l1(1) by simp
  moreover have "msg_ok L D onI ?r'" using laws utf8 fl q1 l1 pc by (simp add: msg_ok_def put_keeps_def)
  moreover have "msg_content L ?r' = p" "msg_rest L ?r' = z" using pc by (simp_all add: msg_content_def msg_rest_def)
  moreover have "fr_setup L ?r' = fr_setup L r"
    using l1 conn_env_fields [OF c1(2)] state_laws_clear [OF laws(1)] by (simp add: fr_setup_def fr_cfg_def)
  moreover have "p = [] \<longrightarrow> h_fin h \<longrightarrow> lw_n (fr_low ?r') = 0"
  proof (intro impI)
    assume "p = []"
    with pc(1) have "length (base_content b l1) = 0" by simp
    then show "lw_n (fr_low ?r') = 0" using base_content_length [OF l1(3,4)] l1(2) nonneg by simp
  qed
  moreover from fr' have "h_fin h \<longrightarrow> \<not> fragmented L ?r'" by blast
  moreover have "fr_flateReader ?r' = None" using fl by simp
  moreover have "fr_frame ?r' = Some (RInner (RBase b))" "conn_env (fr_dst ?r') = conn_env (fr_dst r)"
    using l1(1) c1(2) by (simp_all add: fr_dst_def)
  ultimately show ?thesis by blast
qed

section \<open>A control frame between messages\<close>

text \<open>Writing to the connection does not disturb the reader.\<close>

lemma idle_set_dst:
  assumes "in_chunks c = in_chunks (fr_dst r)" "in_err c = in_err (fr_dst r)" "in_eager c = in_eager (fr_dst r)"
    "w_faults c = w_faults (fr_dst r)" "f_faults c = f_faults (fr_dst r)"
  shows "idle L (fr_set_dst c r) = idle L r" "fr_setup L (fr_set_dst c r) = fr_setup L r"
    "conn_content (lw_src (fr_low (fr_set_dst c r))) = conn_content (lw_src (fr_low r))"
  using assms
  by (simp_all add: idle_def fr_set_dst_def fr_dst_def fragmented_def quiet_def fr_setup_def fr_cfg_def conn_content_def)

lemma control_between:
  fixes D :: "'d dec" and r :: "('d, 'x) frame_reader" and L :: "('x, 'cw) ws_lib"
  assumes cb: "cb = ControlFrameHandler L fr_dst fr_set_dst pool s"
    and laws: "writer_laws L held" "opcode_laws L" and ok: "msg_ok L D (Some cb) r"
    and op: "h_op h \<in> {OpPing L, OpPong L}"
    and len: "0 \<le> sint (h_length h)" "sint (h_length h) \<le> 125" "length (msg_content L r) = nat (sint (h_length h))"
    and more: "msg_rest L r \<noteq> []" and nf: "\<not> fragmented L r" and n0: "msg_content L r = [] \<longrightarrow> lw_n (fr_low r) = 0"
    and fl: "fr_flateReader r = None"
  shows "\<exists>r'. cb h (FrameReader_Read L D (Some cb) None) r = Some (r', None)
    \<and> idle L r' \<and> conn_content (lw_src (fr_low r')) = msg_rest L r \<and> fr_setup L r' = fr_setup L r"
proof -
  let ?rd = "FrameReader_Read L D (Some cb) None"
  let ?C = "\<lparr>ch_Src = ?rd, ch_get = fr_dst, ch_put = fr_set_dst, ch_State = s, ch_DisableSrcCiphering = True, ch_pool = pool\<rparr>"
  define I where "I q \<longleftrightarrow> fr_setup L q = fr_setup L r \<and> msg_rest L q = msg_rest L r \<and> quiet (lw_src (fr_low q))" for q
  have Ir: "I r" using ok by (simp add: I_def msg_ok_def)
  have last: "x = EOF \<and> msg_end L r q'" if "msg_ok L D (Some cb) q" "I q" "?rd q n = Some (q', bs, Some x)" for q n q' bs x
    using FrameReader_Read_msg [OF that(1), of n] that(2,3) more by (auto simp: I_def msg_fin_def msg_end_def)
  have step: "I q'" if "msg_ok L D (Some cb) q" "I q" "?rd q n = Some (q', bs, e)" for q n q' bs e
  proof (cases e)
    case None
    with FrameReader_Read_msg [OF that(1), of n] that(2,3) show ?thesis by (auto simp: I_def msg_step_def msg_ok_def)
  next
    case (Some x)
    with last that have "msg_end L r q'" by simp
    then show ?thesis by (simp add: I_def msg_end_def msg_rest_def pending_def)
  qed
  have quiet: "w_faults (ch_get ?C q) = []" if "I q" for q using that by (simp add: I_def fr_dst_def quiet_def)
  have put: "ch_put ?C (ch_get ?C q) q = q" for q by (simp add: fr_dst_def fr_set_dst_def)
  have zero: "idle L r \<and> conn_content (lw_src (fr_low r)) = msg_rest L r" if "h_length h = 0"
    using that len(3) n0 nf ok fl by (simp add: idle_def msg_ok_def msg_rest_def pending_def)
  have good: "x = EOF \<and> idle L q \<and> conn_content (lw_src (fr_low q)) = msg_rest L r \<and> fr_setup L q = fr_setup L r"
    if "h_length h = 0 \<and> q = r \<and> x = EOF
      \<or> (\<exists>s n bs. msg_ok L D (Some cb) s \<and> I s \<and> ?rd s n = Some (q, bs, Some x))" for q x
    using that
  proof (elim disjE exE conjE)
    fix s n bs assume "msg_ok L D (Some cb) s" "I s" "?rd s n = Some (q, bs, Some x)"
    from last [OF this] have "x = EOF" "msg_end L r q" by blast+
    moreover have "idle L q" by (rule msg_end_idle [OF \<open>msg_end L r q\<close>]) (use ok in \<open>simp add: msg_ok_def\<close>)
    ultimately show ?thesis by (simp add: msg_end_def)
  qed (use zero in simp)
  show ?thesis
  proof (cases "h_op h = OpPing L")
    case True
    have "\<exists>r' x fr. I r' \<and> (h_length h = 0 \<and> r' = r \<and> x = EOF
          \<or> (\<exists>s n bs. msg_ok L D (Some cb) s \<and> I s \<and> ?rd s n = Some (r', bs, Some x)))
        \<and> HandlePing L ?C h r = Some (if x = EOF
              then (ch_put ?C ((ch_get ?C r')\<lparr>out := out (ch_get ?C r') @ [fr]\<rparr>) r', None) else (r', Some x))
        \<and> (x = EOF \<longrightarrow> is_frame (OpPong L) (st_client L (ch_State ?C)) (msg_content L r) fr)"
      by (rule byte_stream.HandlePing_pong [where I = I and C = ?C,
            OF msg.byte_stream_axioms laws _ _ len(1,2) ok Ir len(3) put _ quiet]) (use step in simp_all)
    then obtain q x fr where q: "h_length h = 0 \<and> q = r \<and> x = EOF
          \<or> (\<exists>s n bs. msg_ok L D (Some cb) s \<and> I s \<and> ?rd s n = Some (q, bs, Some x))"
      "HandlePing L ?C h r = Some (if x = EOF
          then (fr_set_dst ((fr_dst q)\<lparr>out := out (fr_dst q) @ [fr]\<rparr>) q, None) else (q, Some x))"
      unfolding control_handler.simps by blast
    note g = good [OF q(1)]
    let ?q = "fr_set_dst ((fr_dst q)\<lparr>out := out (fr_dst q) @ [fr]\<rparr>) q"
    have "cb h ?rd r = Some (?q, None)" using q(2) g True by (simp add: cb ControlFrameHandler_def Handle_def)
    moreover have "idle L ?q \<and> conn_content (lw_src (fr_low ?q)) = msg_rest L r \<and> fr_setup L ?q = fr_setup L r"
      using g by (simp add: idle_set_dst)
    ultimately show ?thesis by blast
  next
    case False
    have "\<exists>r' x. I r' \<and> (h_length h = 0 \<and> r' = r \<and> x = EOF
          \<or> (\<exists>s n bs. msg_ok L D (Some cb) s \<and> I s \<and> ?rd s n = Some (r', bs, Some x)))
        \<and> HandlePong L ?C h r = Some (r', if x = EOF then None else Some x)"
      by (rule byte_stream.HandlePong_drops [where I = I and C = ?C, OF msg.byte_stream_axioms _ ok Ir len(3)])
        (use step in simp_all)
    then obtain q x where q: "h_length h = 0 \<and> q = r \<and> x = EOF
          \<or> (\<exists>s n bs. msg_ok L D (Some cb) s \<and> I s \<and> ?rd s n = Some (q, bs, Some x))"
      "HandlePong L ?C h r = Some (q, if x = EOF then None else Some x)"
      by blast
    from good [OF q(1)] q(2) False op laws(2) show ?thesis
      by (intro exI [of _ q]) (simp add: cb ControlFrameHandler_def Handle_def)
  qed
qed

section \<open>Advancing to a message\<close>

text \<open>What the bytes between two messages hold: control frames, then a data message of an accepted type.\<close>

function inbound :: "('x, 'cw) ws_lib \<Rightarrow> cfg \<Rightarrow> byte \<Rightarrow> byte \<Rightarrow> bytes \<Rightarrow> (bytes \<times> bytes) option" where
  "inbound L cfg st accepted bs =
     (case parse_header bs of
        Parsed h rest \<Rightarrow>
          (case opened L cfg st h rest of
             None \<Rightarrow> None
           | Some (p, z) \<Rightarrow>
               if is_control L (h_op h) then
                 (if h_op h \<in> {OpPing L, OpPong L} \<and> h_fin h \<and> nat (sint (h_length h)) \<le> 125 \<and> z \<noteq> []
                    \<and> length z < length bs
                  then inbound L cfg st accepted z else None)
               else if h_op h AND accepted = 0 then None
               else Some (p, z))
      | _ \<Rightarrow> None)"
  by pat_completeness auto
termination by (relation "measure (\<lambda>(L, cfg, st, acc, bs). length bs)") auto

declare inbound.simps [simp del]

definition lib_ok :: "('x, 'cw) ws_lib \<Rightarrow> bool" where
  "lib_ok L \<longleftrightarrow> (\<exists>held. writer_laws L held) \<and> opcode_laws L \<and> state_laws L"

lemma t_OnIntermediate_simps [simp]:
  "t_OnIntermediate L (t\<lparr>t_reader := r\<rparr>) = t_OnIntermediate L t"
  "t_OnIntermediate L (t\<lparr>t_msgReader := b\<rparr>) = t_OnIntermediate L t"
  by (simp_all add: t_OnIntermediate_def)

lemma t_OnIntermediate_polite: "lib_ok L \<Longrightarrow> handler_polite L D (Some (t_OnIntermediate L t))"
  unfolding lib_ok_def t_OnIntermediate_def by (auto intro: ControlFrameHandler_polite)

lemma next_message_inbound:
  fixes t :: "('cert, 'c, 'd, 'x) ws_transport" and L :: "('x, 'cw) ws_lib"
  assumes lib: "lib_ok L" and "idle L (t_reader t)"
    and "inbound L (fr_cfg (t_reader t)) (fr_state (t_reader t)) (o_OpCode (t_options t))
      (conn_content (lw_src (fr_low (t_reader t)))) = Some (p, z)"
  shows "\<exists>r. next_message L D t = Some (t\<lparr>t_reader := r, t_msgReader := True\<rparr>, None)
    \<and> msg_ok L D (Some (t_OnIntermediate L t)) r \<and> msg_content L r = p \<and> msg_rest L r = z
    \<and> fr_setup L r = fr_setup L (t_reader t)"
  using assms(2,3)
proof (induction "length (conn_content (lw_src (fr_low (t_reader t))))" arbitrary: t rule: less_induct)
  case less
  let ?r = "t_reader t" and ?cb = "t_OnIntermediate L t"
  let ?bs = "conn_content (lw_src (fr_low ?r))"
  from lib obtain held where laws: "writer_laws L held" "opcode_laws L" "state_laws L" by (auto simp: lib_ok_def)
  from less.prems(2) obtain h rest p1 z1 where ph: "parse_header ?bs = Parsed h rest"
    and op: "opened L (fr_cfg ?r) (fr_state ?r) h rest = Some (p1, z1)"
    by (subst (asm) inbound.simps) (auto split: parsed.splits option.splits)
  obtain r1 where nf: "NextFrame L D (Some ?cb) None ?r = Some (r1, h, None)"
    and r1: "msg_ok L D (Some ?cb) r1" "msg_content L r1 = p1" "msg_rest L r1 = z1" "fr_setup L r1 = fr_setup L ?r" "fr_flateReader r1 = None"
      "h_fin h \<longrightarrow> \<not> fragmented L r1" "p1 = [] \<longrightarrow> h_fin h \<longrightarrow> lw_n (fr_low r1) = 0"
    using NextFrame_open [OF laws(3) t_OnIntermediate_polite [OF lib] less.prems(1) ph op] by blast
  show ?case
  proof (cases "is_control L (h_op h)")
    case False
    with less.prems(2) ph op have "h_op h AND o_OpCode (t_options t) \<noteq> 0" "p1 = p" "z1 = z"
      by (subst (asm) inbound.simps, simp split: if_splits)+
    with False nf have "next_message L D t = Some (t\<lparr>t_reader := r1, t_msgReader := True\<rparr>, None)"
      by (subst next_message.simps) simp
    with r1 \<open>p1 = p\<close> \<open>z1 = z\<close> show ?thesis by blast
  next
    case True
    with less.prems(2) ph op have c: "h_op h \<in> {OpPing L, OpPong L}" "h_fin h" "nat (sint (h_length h)) \<le> 125" "z1 \<noteq> []"
      "length z1 < length ?bs" and
      rec: "inbound L (fr_cfg ?r) (fr_state ?r) (o_OpCode (t_options t)) z1 = Some (p, z)"
      by (subst (asm) inbound.simps, simp split: if_splits)+
    have len: "length (msg_content L r1) = nat (sint (h_length h))"
      using opened_length [OF op c(2)] r1(2) by simp
    note nonneg = parse_header_length [OF ph]
    have small: "sint (h_length h) \<le> 125" using c(3) by linarith
    obtain r2 where r2: "?cb h (FrameReader_Read L D (Some ?cb) None) r1 = Some (r2, None)"
      "idle L r2" "conn_content (lw_src (fr_low r2)) = z1" "fr_setup L r2 = fr_setup L r1"
      using control_between [OF t_OnIntermediate_def [of L t] laws(1,2) r1(1) c(1) nonneg small len] r1 c by auto
    let ?t2 = "t\<lparr>t_reader := r2\<rparr>"
    have st: "fr_state r2 = fr_state ?r"
      using fr_setup_fields(5) [of L r2 ?r] r2(2,4) r1(4) less.prems(1) state_laws_clear(3) [OF laws(3)]
      by (auto simp: idle_def fragmented_def)
    have cfg: "fr_cfg r2 = fr_cfg ?r" using fr_setup_fields(3) [of L r2 ?r] r2(4) r1(4) by simp
    have "next_message L D t = next_message L D ?t2"
      using True nf r2(1) by (subst next_message.simps) simp
    moreover have "\<exists>r. next_message L D ?t2 = Some (?t2\<lparr>t_reader := r, t_msgReader := True\<rparr>, None)
        \<and> msg_ok L D (Some (t_OnIntermediate L ?t2)) r \<and> msg_content L r = p \<and> msg_rest L r = z
        \<and> fr_setup L r = fr_setup L (t_reader ?t2)"
      using less.hyps [of ?t2] c(5) r2(2,3) rec st cfg by simp
    ultimately show ?thesis using r2(4) r1(4) by simp
  qed
qed

section \<open>The transport is a reader of messages\<close>

definition t_inbound :: "('x, 'cw) ws_lib \<Rightarrow> ('cert, 'c, 'd, 'x) ws_transport \<Rightarrow> (bytes \<times> bytes) option" where
  "t_inbound L t = inbound L (fr_cfg (t_reader t)) (fr_state (t_reader t)) (o_OpCode (t_options t))
     (conn_content (lw_src (fr_low (t_reader t))))"

definition t_ok :: "('x, 'cw) ws_lib \<Rightarrow> 'd dec \<Rightarrow> ('cert, 'c, 'd, 'x) ws_transport \<Rightarrow> bool" where
  "t_ok L D t \<longleftrightarrow> lib_ok L
     \<and> (if t_msgReader t then msg_ok L D (Some (t_OnIntermediate L t)) (t_reader t)
        else idle L (t_reader t) \<and> t_inbound L t \<noteq> None)"

definition t_content :: "('x, 'cw) ws_lib \<Rightarrow> ('cert, 'c, 'd, 'x) ws_transport \<Rightarrow> bytes" where
  "t_content L t = (if t_msgReader t then msg_content L (t_reader t) else fst (the (t_inbound L t)))"

definition t_rest :: "('x, 'cw) ws_lib \<Rightarrow> ('cert, 'c, 'd, 'x) ws_transport \<Rightarrow> bytes" where
  "t_rest L t = (if t_msgReader t then msg_rest L (t_reader t) else snd (the (t_inbound L t)))"

definition t_fin :: "('x, 'cw) ws_lib \<Rightarrow> ('cert, 'c, 'd, 'x) ws_transport \<Rightarrow> err set" where
  "t_fin L t = (if in_eager (t_conn t) \<and> t_rest L t = [] then {EOF, in_err (t_conn t)} else {EOF})"

definition t_stall :: "('x, 'cw) ws_lib \<Rightarrow> 'd dec \<Rightarrow> ('cert, 'c, 'd, 'x) ws_transport \<Rightarrow> nat" where
  "t_stall L D t =
     (if t_msgReader t then msg_stall (t_reader t)
      else (case next_message L D t of Some (t', None) \<Rightarrow> Suc (msg_stall (t_reader t')) | _ \<Rightarrow> 0))"

text \<open>What reading keeps: the options, the role and the setup of the frame reader.\<close>

definition t_setup :: "('x, 'cw) ws_lib \<Rightarrow> ('cert, 'c, 'd, 'x) ws_transport \<Rightarrow> _" where
  "t_setup L t = (t_options t, t_state t, t_opCode t, t_pool t, t_negotiated t, fr_setup L (t_reader t))"

text \<open>After the \<open>EOF\<close> of a message.\<close>

definition t_end ::
    "('x, 'cw) ws_lib \<Rightarrow> ('cert, 'c, 'd, 'x) ws_transport \<Rightarrow> ('cert, 'c, 'd, 'x) ws_transport \<Rightarrow> bool" where
  "t_end L t t' \<longleftrightarrow> \<not> t_msgReader t' \<and> idle L (t_reader t') \<and> conn_content (t_conn t') = t_rest L t
     \<and> t_setup L t' = t_setup L t"

lemma t_setup_conn:
  assumes "t_setup L t' = t_setup L t"
  shows "in_err (t_conn t') = in_err (t_conn t)" "in_eager (t_conn t') = in_eager (t_conn t)"
  using assms fr_setup_fields [of L "t_reader t'" "t_reader t"] by (simp_all add: t_setup_def t_conn_def fr_dst_def)

lemma read_message_ok:
  fixes t :: "('cert, 'c, 'd, 'x) ws_transport" and L :: "('x, 'cw) ws_lib"
  assumes ok: "t_ok L D t" and m: "t_msgReader t"
  shows "\<exists>t' bs e. read_message L D t n = Some (t', bs, e) \<and> length bs \<le> n
    \<and> (e = None \<longrightarrow> t_ok L D t' \<and> t_msgReader t' \<and> t_content L t = bs @ t_content L t' \<and> t_rest L t' = t_rest L t
         \<and> t_setup L t' = t_setup L t \<and> (bs = [] \<longrightarrow> 0 < n \<longrightarrow> t_stall L D t' < t_stall L D t))
    \<and> (\<forall>x. e = Some x \<longrightarrow> t_content L t = bs \<and> x \<in> t_fin L t \<and> (x = EOF \<longrightarrow> t_end L t t'))"
proof -
  let ?cb = "Some (t_OnIntermediate L t)"
  have mok: "msg_ok L D ?cb (t_reader t)" using ok m by (simp add: t_ok_def)
  obtain r bs e where r: "FrameReader_Read L D ?cb None (t_reader t) n = Some (r, bs, e)" "length bs \<le> n"
    "e = None \<longrightarrow> msg_ok L D ?cb r \<and> msg_step L bs (t_reader t) r
       \<and> (bs = [] \<longrightarrow> 0 < n \<longrightarrow> msg_stall r < msg_stall (t_reader t))"
    "\<forall>x. e = Some x \<longrightarrow> msg_content L (t_reader t) = bs \<and> x \<in> msg_fin L (t_reader t)
       \<and> (x = EOF \<longrightarrow> msg_end L (t_reader t) r)"
    using FrameReader_Read_msg [OF mok, of n] by blast
  show ?thesis
  proof (cases e)
    case None
    let ?t = "t\<lparr>t_reader := r\<rparr>"
    have "read_message L D t n = Some (?t, bs, None)" using r(1) None by (simp add: read_message_def)
    moreover have "t_ok L D ?t" using ok m r(3) None by (simp add: t_ok_def)
    moreover have "t_content L t = bs @ t_content L ?t" "t_rest L ?t = t_rest L t" "t_setup L ?t = t_setup L t"
      "bs = [] \<longrightarrow> 0 < n \<longrightarrow> t_stall L D ?t < t_stall L D t"
      using m r(3) None by (simp_all add: t_content_def t_rest_def t_setup_def t_stall_def msg_step_def)
    ultimately show ?thesis using r(2) m by (intro exI [of _ ?t] exI [of _ bs] exI [of _ None]) simp
  next
    case (Some x)
    let ?t = "if x = EOF then t\<lparr>t_reader := r, t_msgReader := False\<rparr> else t\<lparr>t_reader := r\<rparr>"
    have "read_message L D t n = Some (?t, bs, Some x)" using r(1) Some by (simp add: read_message_def)
    moreover have "t_content L t = bs" "x \<in> t_fin L t"
      using m r(4) Some by (auto simp: t_content_def t_fin_def msg_fin_def t_rest_def t_conn_def fr_dst_def split: if_splits)
    moreover have "t_end L t ?t" if "x = EOF"
    proof -
      have e: "msg_end L (t_reader t) r" using r(4) Some that by simp
      moreover have "idle L r" by (rule msg_end_idle [OF e]) (use mok in \<open>simp add: msg_ok_def\<close>)
      ultimately show ?thesis using that m
        by (simp add: t_end_def msg_end_def t_conn_def fr_dst_def t_rest_def t_setup_def)
    qed
    ultimately show ?thesis using r(2) by (intro exI [of _ ?t] exI [of _ bs] exI [of _ "Some x"]) simp
  qed
qed

lemma next_message_ok:
  assumes ok: "t_ok L D t" and m: "\<not> t_msgReader t"
  shows "\<exists>t'. next_message L D t = Some (t', None) \<and> t_ok L D t' \<and> t_msgReader t' \<and> t_content L t' = t_content L t
    \<and> t_rest L t' = t_rest L t \<and> t_setup L t' = t_setup L t \<and> t_stall L D t' < t_stall L D t"
proof -
  from ok m have lib: "lib_ok L" and idle: "idle L (t_reader t)" by (auto simp: t_ok_def)
  from ok m obtain p z where pz: "t_inbound L t = Some (p, z)" by (auto simp: t_ok_def)
  obtain r where r: "next_message L D t = Some (t\<lparr>t_reader := r, t_msgReader := True\<rparr>, None)"
    "msg_ok L D (Some (t_OnIntermediate L t)) r" "msg_content L r = p" "msg_rest L r = z"
    "fr_setup L r = fr_setup L (t_reader t)"
    using next_message_inbound [OF lib idle pz [unfolded t_inbound_def], of D] by blast
  have "t_OnIntermediate L (t\<lparr>t_reader := r, t_msgReader := True\<rparr>) = t_OnIntermediate L t"
    by (simp add: t_OnIntermediate_def)
  with r lib pz m show ?thesis
    by (simp add: t_ok_def t_content_def t_rest_def t_setup_def t_stall_def)
qed

lemma Read_ok:
  assumes ok: "t_ok L D t"
  shows "\<exists>t' bs e. Read L D t n = Some (t', bs, e) \<and> length bs \<le> n
    \<and> (e = None \<longrightarrow> t_ok L D t' \<and> t_content L t = bs @ t_content L t' \<and> t_rest L t' = t_rest L t
         \<and> t_setup L t' = t_setup L t \<and> (bs = [] \<longrightarrow> 0 < n \<longrightarrow> t_stall L D t' < t_stall L D t))
    \<and> (\<forall>x. e = Some x \<longrightarrow> t_content L t = bs \<and> x \<in> t_fin L t \<and> (x = EOF \<longrightarrow> t_end L t t'))"
proof (cases "t_msgReader t")
  case True
  then show ?thesis using read_message_ok [OF ok True, of n] by (simp add: Read_def) blast
next
  case False
  obtain t1 where t1: "next_message L D t = Some (t1, None)" "t_ok L D t1" "t_msgReader t1" "t_content L t1 = t_content L t"
    "t_rest L t1 = t_rest L t" "t_setup L t1 = t_setup L t" "t_stall L D t1 < t_stall L D t"
    using next_message_ok [OF ok False] by blast
  have "Read L D t n = read_message L D t1 n" using False t1(1) by (simp add: Read_def)
  moreover have "t_end L t1 t' = t_end L t t'" for t' using t1(5,6) by (simp add: t_end_def)
  moreover have "t_fin L t1 = t_fin L t" using t1(5) t_setup_conn [OF t1(6)] by (simp add: t_fin_def)
  moreover have "m < t_stall L D t" if "m < t_stall L D t1" for m using that t1(7) by (rule less_trans)
  ultimately show ?thesis using read_message_ok [OF t1(2,3), of n] t1(4-6) by metis
qed

interpretation transport: byte_stream "Read L D" "t_ok L D" "t_content L" "t_fin L" "t_stall L D"
  for L :: "('x, 'cw) ws_lib" and D :: "'d dec"
proof (unfold_locales, goal_cases)
  case (1 t n)
  then show ?case using Read_ok [OF 1, of n] by auto
next
  case (2 t n t' bs e)
  then show ?case using Read_ok [OF 2(1), of n] by auto
next
  case (3 t n t' bs)
  then have t': "t_ok L D t'" "t_content L t = bs @ t_content L t'" "t_rest L t' = t_rest L t"
    "t_setup L t' = t_setup L t" "bs = [] \<longrightarrow> 0 < n \<longrightarrow> t_stall L D t' < t_stall L D t"
    using Read_ok [OF 3(1), of n] by auto
  then show ?case using t_setup_conn [OF t'(4)] by (simp add: t_fin_def)
next
  case (4 t n t' bs x)
  then show ?case using Read_ok [OF 4(1), of n] by auto
qed

text \<open>One message, read with buffers of any sizes.\<close>

lemma read_all_transport:
  assumes ok: "t_ok L D t" and k: "\<And>i. 0 < k i"
  shows "\<exists>t' x. read_all (Read L D) k t acc = Some (t', acc @ t_content L t, x) \<and> x \<in> t_fin L t
    \<and> (x = EOF \<longrightarrow> t_end L t t')"
proof -
  define I where "I s \<longleftrightarrow> t_setup L s = t_setup L t \<and> t_rest L s = t_rest L t" for s
  have I0: "I t" by (simp add: I_def)
  have step: "I s'" if "t_ok L D s" "I s" "Read L D s n = Some (s', bs, None)" for s n s' bs
    using Read_ok [OF that(1), of n] that(2,3) by (simp add: I_def)
  obtain t' x s0 n bs where r: "read_all (Read L D) k t acc = Some (t', acc @ t_content L t, x)" "x \<in> t_fin L t"
    and s0: "t_ok L D s0" "I s0" "Read L D s0 n = Some (t', bs, Some x)"
    using transport.read_all_last [where I = I and acc = acc and k = k and L = L and D = D, OF ok _ I0] k step by blast
  have "x = EOF \<longrightarrow> t_end L s0 t'" using Read_ok [OF s0(1), of n] s0(3) by simp
  with s0(2) have "x = EOF \<longrightarrow> t_end L t t'" by (simp add: t_end_def I_def)
  with r show ?thesis by blast
qed

end
