(* ===== verification/WsRoundtrip.thy ===== *)
theory WsRoundtrip
  imports WsRead
begin

text \<open>
  One transport writes, another reads: the messages come out as they went in, in order and one by one, however the
  network cuts the bytes into pieces and whatever buffers the reader uses.
\<close>

section \<open>What a receiver accepts\<close>

text \<open>
  The receiver has the other role, its options accept the opcode, the payload is within \<open>MaxFrameSize\<close>, and its
  extensions leave a header without reserved bits alone.
\<close>

definition fits :: "('cert, 'c, 'd, 'x) ws_transport \<Rightarrow> bytes \<Rightarrow> bool" where
  "fits t p \<longleftrightarrow> length p < 2 ^ 63 \<and> (sint (fr_MaxFrameSize (t_reader t)) \<le> 0
     \<or> int (length p) \<le> sint (fr_MaxFrameSize (t_reader t)))"

definition peer_of :: "('x, 'cw) ws_lib \<Rightarrow> bool \<Rightarrow> byte \<Rightarrow> ('cert, 'c, 'd, 'x) ws_transport \<Rightarrow> bool" where
  "peer_of L client op t \<longleftrightarrow> op \<in> {OpText L, OpBinary L} \<and> op AND o_OpCode (t_options t) \<noteq> 0
     \<and> (st_server L (fr_state (t_reader t)) \<longrightarrow> client) \<and> (st_client L (fr_state (t_reader t)) \<longrightarrow> \<not> client)
     \<and> (\<forall>h. h_rsv h = 0 \<longrightarrow> unset_bits (fr_Extensions (t_reader t)) h = (h, None))"

lemma wire_frame_passes:
  assumes laws: "opcode_laws L" "check_laws L" "compression_laws L" and peer: "peer_of L client op t" and fits: "fits t p"
    and whole: "\<not> fragmented L (t_reader t)"
  obtains h where "parse_header (wire_frame client op msk False p @ z) = Parsed h ((if client then cipher_spec msk 0 p else p) @ z)"
    and "frame_passes L (fr_cfg (t_reader t)) (fr_state (t_reader t)) h" and "h_fin h" and "h_op h = op"
    and "nat (sint (h_length h)) = length p" and "unmask h (if client then cipher_spec msk 0 p else p) = p"
proof -
  let ?r = "t_reader t"
  let ?h = "\<lparr>h_fin = True, h_rsv = 0, h_op = op, h_masked = client, h_mask = (if client then msk else Mask 0 0 0 0),
      h_length = word_of_nat (length p)\<rparr>"
  from laws(1) peer have op: "op AND 0x0f = op" "op \<in> {OpText L, OpBinary L}" by (auto simp: peer_of_def opcode_laws_def)
  from fits have len: "length p < 2 ^ 63" by (simp add: fits_def)
  note l = unat_i64_small [OF len]
  have "check_header L ?h (fr_state ?r) = None"
    by (rule laws(2) [unfolded check_laws_def, rule_format])
      (use peer op(2) whole l in \<open>auto simp: peer_of_def fragmented_def\<close>)
  moreover have "is_compressed L ?h = (False, None)" using laws(3) by (simp add: compression_laws_def)
  moreover have "\<not> (0 < sint (fr_MaxFrameSize ?r) \<and> sint (fr_MaxFrameSize ?r) < sint (h_length ?h))"
    using fits l by (auto simp: fits_def)
  moreover have "unset_bits (fr_Extensions ?r) ?h = (?h, None)" using peer by (simp add: peer_of_def)
  ultimately have "frame_passes L (fr_cfg ?r) (fr_state ?r) ?h" by (simp add: frame_passes_def fr_cfg_def)
  then show thesis
    by (rule that [rotated]) (use parse_wire_frame [OF op(1) len, of client msk False z] l in \<open>simp_all add: unmask_def\<close>)
qed

lemma inbound_wire_frame:
  assumes laws: "lib_ok L" "check_laws L" "compression_laws L" and peer: "peer_of L client op t" and fits: "fits t p"
    and idle: "idle L (t_reader t)"
  shows "inbound L (fr_cfg (t_reader t)) (fr_state (t_reader t)) (o_OpCode (t_options t))
    (wire_frame client op msk False p @ z) = Some (p, z)"
proof -
  let ?r = "t_reader t"
  from laws(1) have ops: "opcode_laws L" by (auto simp: lib_ok_def)
  with peer have op: "\<not> is_control L op" "op AND o_OpCode (t_options t) \<noteq> 0"
    by (auto simp: peer_of_def opcode_laws_def word_le_nat_alt)
  have "\<not> fragmented L ?r" using idle by (simp add: idle_def)
  then obtain h where h: "parse_header (wire_frame client op msk False p @ z) = Parsed h ((if client then cipher_spec msk 0 p else p) @ z)"
    "frame_passes L (fr_cfg ?r) (fr_state ?r) h" "h_fin h" "h_op h = op" "nat (sint (h_length h)) = length p"
    "unmask h (if client then cipher_spec msk 0 p else p) = p" by (rule wire_frame_passes [OF ops laws(2,3) peer fits])
  then have "opened L (fr_cfg ?r) (fr_state ?r) h ((if client then cipher_spec msk 0 p else p) @ z) = Some (p, z)"
    by (simp add: opened_def Let_def)
  then show ?thesis using op h(1,4) by (subst inbound.simps) simp
qed

section \<open>A sequence of messages\<close>

text \<open>The caller's loop: read one message after the other, each up to its \<open>EOF\<close>.\<close>

fun receive ::
    "('x, 'cw) ws_lib \<Rightarrow> 'd dec \<Rightarrow> (nat \<Rightarrow> nat) \<Rightarrow> ('cert, 'c, 'd, 'x) ws_transport \<Rightarrow> nat
      \<Rightarrow> (('cert, 'c, 'd, 'x) ws_transport \<times> bytes list) option" where
  "receive L D k t 0 = Some (t, [])"
| "receive L D k t (Suc n) =
     Option.bind (read_all (Read L D) k t []) (\<lambda>(t, p, x).
       if x = EOF then Option.bind (receive L D k t n) (\<lambda>(t, ps). Some (t, p # ps)) else None)"

text \<open>The bytes of a message each, under masks that may differ.\<close>

definition wires :: "bool \<Rightarrow> byte \<Rightarrow> (mask \<times> bytes) list \<Rightarrow> bytes" where
  "wires client op ms = concat (map (\<lambda>(msk, p). wire_frame client op msk False p) ms)"

lemma wires_simps [simp]:
  "wires client op [] = []" "wires client op ((msk, p) # ms) = wire_frame client op msk False p @ wires client op ms"
  by (simp_all add: wires_def)

definition ready :: "('x, 'cw) ws_lib \<Rightarrow> ('cert, 'c, 'd, 'x) ws_transport \<Rightarrow> bool" where
  "ready L t \<longleftrightarrow> lib_ok L \<and> check_laws L \<and> compression_laws L \<and> idle L (t_reader t) \<and> \<not> t_msgReader t"

lemma setup_peer:
  assumes "t_setup L t' = t_setup L t" and "state_laws L" "idle L (t_reader t)" "idle L (t_reader t')"
  shows "peer_of L client op t' = peer_of L client op t" "fits t' p = fits t p" "fr_state (t_reader t') = fr_state (t_reader t)"
proof -
  note f = fr_setup_fields [of L "t_reader t'" "t_reader t"]
  have s: "fr_setup L (t_reader t') = fr_setup L (t_reader t)" "t_options t' = t_options t" using assms(1) by (simp_all add: t_setup_def)
  then show st: "fr_state (t_reader t') = fr_state (t_reader t)"
    using f(5) assms(3,4) state_laws_clear(3) [OF assms(2)] by (simp add: idle_def fragmented_def)
  have "fr_MaxFrameSize (t_reader t') = fr_MaxFrameSize (t_reader t)" "fr_Extensions (t_reader t') = fr_Extensions (t_reader t)"
    using f(3) [OF s(1)] by (simp_all add: fr_cfg_def)
  with s st show "peer_of L client op t' = peer_of L client op t" "fits t' p = fits t p"
    by (simp_all add: peer_of_def fits_def)
qed

lemma receive_wires:
  assumes "ready L t" and "peer_of L client op t" and "\<And>i. 0 < k i" and "\<forall>(msk, p) \<in> set ms. fits t p"
    and "conn_content (t_conn t) = wires client op ms @ z" and "in_eager (t_conn t) \<longrightarrow> z \<noteq> []"
  shows "\<exists>t'. receive L D k t (length ms) = Some (t', map snd ms) \<and> ready L t' \<and> conn_content (t_conn t') = z
    \<and> t_setup L t' = t_setup L t"
  using assms(1,2,4-)
proof (induction ms arbitrary: t)
  case Nil
  then show ?case by simp
next
  case (Cons m ms)
  obtain msk p where m: "m = (msk, p)" by force
  from Cons.prems have lib: "lib_ok L" "check_laws L" "compression_laws L" "idle L (t_reader t)" "\<not> t_msgReader t"
    and fits: "fits t p" by (auto simp: ready_def m)
  let ?z = "wires client op ms @ z"
  have inb: "t_inbound L t = Some (p, ?z)"
    using inbound_wire_frame [OF lib(1-3) Cons.prems(2) fits lib(4), of msk ?z] Cons.prems(4)
    by (simp add: t_inbound_def t_conn_def fr_dst_def m)
  then have tok: "t_ok L D t" using lib by (simp add: t_ok_def)
  have fin: "t_fin L t = {EOF}" using inb lib(5) Cons.prems(5) by (auto simp: t_fin_def t_rest_def)
  obtain t1 where t1: "read_all (Read L D) k t [] = Some (t1, p, EOF)" "t_end L t t1"
    using read_all_transport [where k = k and acc = "[]", OF tok assms(3)] inb lib(5) fin by (auto simp: t_content_def)
  then have e: "\<not> t_msgReader t1" "idle L (t_reader t1)" "conn_content (t_conn t1) = ?z" "t_setup L t1 = t_setup L t"
    using inb lib(5) by (auto simp: t_end_def t_rest_def)
  have sl: "state_laws L" using lib(1) by (auto simp: lib_ok_def)
  note same = setup_peer [OF e(4) sl lib(4) e(2)]
  have "ready L t1" using lib e by (simp add: ready_def)
  moreover have "peer_of L client op t1" using same Cons.prems(2) by simp
  moreover have "\<forall>(msk, p) \<in> set ms. fits t1 p" using same(2) Cons.prems(3) by auto
  moreover have "in_eager (t_conn t1) \<longrightarrow> z \<noteq> []" using t_setup_conn [OF e(4)] Cons.prems(5) by simp
  ultimately obtain t' where "receive L D k t1 (length ms) = Some (t', map snd ms)" "ready L t'"
    "conn_content (t_conn t') = z" "t_setup L t' = t_setup L t1"
    using Cons.IH [of t1] e(3) by blast
  with t1(1) e(4) show ?case by (simp add: m)
qed

section \<open>Writer to reader\<close>

lemma wire_frames_wires:
  "\<exists>msks. length msks = length ps
    \<and> concat (wire_frames L t ps) = wires (st_client L (t_state t)) (t_opCode t) (zip msks ps)"
proof (induction ps arbitrary: t)
  case (Cons p ps)
  obtain msks where "length msks = length ps"
    "concat (wire_frames L (after_mask L t) ps) = wires (st_client L (t_state t)) (t_opCode t) (zip msks ps)"
    using Cons [of "after_mask L t"] by auto
  then show ?case by (intro exI [of _ "next_mask L t # msks"]) simp
qed simp

lemma Writev_receive:
  assumes wrote: "\<forall>p \<in> set ps. \<not> compresses w p" "pool_ok w" "w_faults (t_conn w) = []" "out (t_conn w) = []"
    and ready: "ready L t" and peer: "peer_of L (st_client L (t_state w)) (t_opCode w) t" and k: "\<And>i. 0 < k i"
    and fits: "\<forall>p \<in> set ps. fits t p" and eager: "\<not> in_eager (t_conn t)"
    and net: "\<And>w' qs n. Writev L w ps = Some (w', qs, n, None) \<Longrightarrow> conn_content (t_conn t) = concat (out (t_conn w'))"
  shows "\<exists>w' qs t'. Writev L w ps = Some (w', qs, sum_list (map length ps), None)
    \<and> receive L D k t (length ps) = Some (t', ps)"
proof -
  have "\<forall>p \<in> set ps. \<not> compresses w p \<and> length p < 2 ^ 63" using wrote(1) fits by (simp add: fits_def)
  from Writev_loop_frames [OF this wrote(2,3), of L 0] obtain w' qs where
    w': "Writev L w ps = Some (w', qs, sum_list (map length ps), None)"
    and out: "out (t_conn w') = wire_frames L w ps"
    using wrote(4) by (auto simp: Writev_def)
  obtain msks where ms: "length msks = length ps"
    "concat (wire_frames L w ps) = wires (st_client L (t_state w)) (t_opCode w) (zip msks ps)"
    using wire_frames_wires by blast
  have "conn_content (t_conn t) = wires (st_client L (t_state w)) (t_opCode w) (zip msks ps) @ []"
    using net [OF w'] out ms(2) by simp
  moreover have "\<forall>(msk, p) \<in> set (zip msks ps). fits t p" using fits by (auto dest: set_zip_rightD)
  ultimately obtain t' where "receive L D k t (length (zip msks ps)) = Some (t', map snd (zip msks ps))"
    using receive_wires [where k = k and D = D, OF ready peer, of "zip msks ps" "[]"] k eager by blast
  with ms(1) w' show ?thesis by simp
qed

end
