(* ===== verification/Examples.thy ===== *)
theory Examples
  imports WsRoundtrip
begin

text \<open>
  Concrete connections, options and transports: the inputs on which the witnesses apply the properties.
\<close>

definition ex_conn :: "bytes list \<Rightarrow> conn" where
  "ex_conn chunks = \<lparr>in_chunks = chunks, in_err = EOF, in_eager = False, out = [], w_faults = [], f_faults = [],
     flushes = 0, closed = False\<rparr>"

text \<open>A compressor that stores its input and ends every flush with the tail, and a decompressor for it.\<close>

definition ex_comp :: "unit comp_ops" where
  "ex_comp = \<lparr>c_new = Some (), c_reset = Some (\<lambda>_. ()), c_write = (\<lambda>_ p. ((), [p], length p, None)),
     c_flush = (\<lambda>_. ((), [compressionTail], None)), c_close = Some (\<lambda>_. ((), [], None))\<rparr>"

definition ex_flate :: "unit flate_lib" where
  "ex_flate = \<lparr>flate_NewWriter = (\<lambda>_. ex_comp),
     kp_NewWriterWindow = (\<lambda>w. if 256 \<le> w \<and> w \<le> 32768 then ex_comp else ex_comp\<lparr>c_new := None\<rparr>)\<rparr>"

definition ex_dec :: "unit dec" where
  "ex_dec = \<lparr>d_new = (), d_reset = Some (\<lambda>_. ()),
     d_read = (\<lambda>up d u n. Option.bind (up u n) (\<lambda>(u, bs, e). Some (d, u, bs, e))), d_close = None\<rparr>"

definition ex_options :: "(unit, unit) ws_options" where
  "ex_options = DefaultOptions rfc_lib ex_flate"

definition ex_compress_options :: "(unit, unit) ws_options" where
  "ex_compress_options = the (Apply ex_flate (\<lambda>_ _. None)
     (ex_options\<lparr>o_CompressEnabled := True, o_CompressThreshold := 2\<rparr>))"

definition ex_flate_store :: "unit flate_store" where
  "ex_flate_store = \<lparr>fs_obj = (\<lambda>_. NewFlateReader ex_dec False), fs_src = (\<lambda>_. RRaw), fs_next = 0, fs_pool = [],
     fs_persistent = None\<rparr>"

definition ex_writer_store :: "unit writer_store" where
  "ex_writer_store = \<lparr>wst_obj = (\<lambda>_. (ex_comp, the (NewFlateWriter ex_comp))), wst_next = 0, wst_pool = []\<rparr>"

definition ex_request :: request where
  "ex_request = \<lparr>rq_Path = ''/chat'', rq_Header = []\<rparr>"

definition ex_offer :: "ext_option list" where
  "ex_offer = [\<lparr>eo_Name = ''x-other'', eo_Get = (\<lambda>_. None)\<rparr>,
     \<lparr>eo_Name = ''permessage-deflate'',
      eo_Get = (\<lambda>k. if k = ''client_no_context_takeover'' then Some [] else
                   if k = ''server_max_window_bits'' then Some ''12'' else None)\<rparr>]"

definition ex_transport :: "bool \<Rightarrow> bytes list \<Rightarrow> (unit, unit, unit, unit) ws_transport" where
  "ex_transport client chunks = base_transport rfc_lib ex_dec ex_options client ex_request [] (ex_conn chunks)
     ex_flate_store ex_writer_store (\<lambda>i. Mask 1 2 3 (word_of_nat i)) (\<lambda>n. replicate n 7)"

lemma ex_options_fields [simp]:
  "o_OpCode ex_options = 1" "o_CompressEnabled ex_options = False" "o_CheckUTF8 ex_options = False"
  "o_MaxFrameSize ex_options = 0" "o_readerPool ex_options = True" "o_writerPool ex_options = Some None"
  by (simp_all add: ex_options_def DefaultOptions_def Apply_def rfc_lib_def Let_def)

lemma ex_transport_fields [simp]:
  "t_options (ex_transport client chunks) = ex_options" "t_msgReader (ex_transport client chunks) = False"
  "t_opCode (ex_transport client chunks) = 1" "t_negotiated (ex_transport client chunks) = no_negotiation"
  "t_state (ex_transport client chunks) = (if client then 2 else 1)" "t_conn (ex_transport client chunks) = ex_conn chunks"
  "pool_ok (ex_transport client chunks)" "fr_MaxFrameSize (t_reader (ex_transport client chunks)) = 0"
  "fr_Extensions (t_reader (ex_transport client chunks)) = []"
  "fr_state (t_reader (ex_transport client chunks)) = (if client then 6 else 5)"
  by (simp_all add: ex_transport_def base_transport_def choose_opCode_def Let_def NewFrameReader_def t_conn_def fr_dst_def
      pool_ok_def rfc_lib_def)

lemma ex_conn_fields [simp]:
  "in_chunks (ex_conn cs) = cs" "out (ex_conn cs) = []" "w_faults (ex_conn cs) = []" "f_faults (ex_conn cs) = []"
  "in_eager (ex_conn cs) = False" "in_err (ex_conn cs) = EOF" "closed (ex_conn cs) = False" "flushes (ex_conn cs) = 0"
  by (simp_all add: ex_conn_def)

lemma rfc_lib_ok: "lib_ok rfc_lib"
  using rfc_writer_laws rfc_opcode_laws rfc_state_laws by (auto simp: lib_ok_def)

lemma rfc_roles [simp]:
  "st_client rfc_lib s = (s AND 2 \<noteq> 0)" "st_server rfc_lib s = (s AND 1 \<noteq> 0)" "st_fragmented rfc_lib s = (s AND 8 \<noteq> 0)"
  "OpText rfc_lib = 1" "OpBinary rfc_lib = 2" "OpPing rfc_lib = 9" "OpPong rfc_lib = 10" "OpClose rfc_lib = 8"
  by (simp_all add: rfc_lib_def)

lemma ex_idle: "idle rfc_lib (t_reader (ex_transport client chunks))"
  by (simp add: idle_def fragmented_def quiet_def ex_transport_def base_transport_def Let_def NewFrameReader_def)
    (simp add: rfc_lib_def)

lemma ex_ready: "ready rfc_lib (ex_transport client chunks)"
  using rfc_lib_ok rfc_check_laws rfc_compression_laws ex_idle by (simp add: ready_def)

lemma ex_peer: "peer_of rfc_lib client 1 (ex_transport (\<not> client) chunks)"
  by (simp add: peer_of_def)

lemma ex_no_compression: "\<not> compresses (ex_transport client chunks) p"
  by (simp add: compresses_def no_negotiation_def)

end
