(* ===== verification/WsProperties.thy ===== *)
theory WsProperties
  imports Examples
begin

text \<open>
  The properties of the WebSocket code, from the wire up, each with a witness on concrete data where it has
  hypotheses.
\<close>

section \<open>Masking and headers\<close>

text \<open>C15: \<open>FastCipher\<close> (head, blocks of four, tail) is the byte-by-byte mask of RFC 6455: byte \<open>i\<close> is xored with
  mask byte \<open>(off + i) mod 4\<close>; applying it twice gives the payload back, and masking a payload piece by piece, carrying the
  offset over, is masking it as a whole.\<close>

theorem FastCipher_is_mask:
  "length (FastCipher p m off) = length p
   \<and> FastCipher p m off = cipher_spec m off p
   \<and> FastCipher (FastCipher p m off) m off = p
   \<and> FastCipher (p @ q) m off = FastCipher p m off @ FastCipher q m ((off + length p) mod 4)"
  by (simp add: FastCipher_eq cipher_spec_append)

text \<open>C13: \<open>packHeader\<close> never fails for a Go slice length, keeps within the 14 bytes of \<open>ws.MaxHeaderSize\<close> and writes
  exactly the RFC 6455 header of the payload length, whatever the recycled buffer held.\<close>

theorem packHeader_correct:
  assumes "length bts = 14" and "len < 2 ^ 63"
  shows "case packHeader client op bts True m (word_of_nat len) compressed of (bts', n, e) \<Rightarrow>
    e = None \<and> length bts' = 14 \<and> n \<le> 14
    \<and> take n bts' = encode_header True compressed op (if client then Some m else None) len"
proof -
  obtain bts' n e where "packHeader client op bts True m (word_of_nat len) compressed = (bts', n, e)"
    by (metis prod_cases3)
  with packHeader_encodes [OF assms this] show ?thesis by simp
qed

lemma packHeader_correct_witness:
  "case packHeader True 1 (replicate 14 7) True (Mask 1 2 3 4) (word_of_nat 70000) False of (bts', n, e) \<Rightarrow>
    e = None \<and> length bts' = 14 \<and> n \<le> 14
    \<and> take n bts' = encode_header True False 1 (if True then Some (Mask 1 2 3 4) else None) 70000"
  by (rule packHeader_correct) simp_all

text \<open>C14: \<open>ReadHeader\<close> on any well-behaved connection, in whatever pieces the bytes arrive, returns the header that
  \<open>parse_header\<close> finds at the front of the stream and leaves exactly the bytes behind it; a header that \<open>packHeader\<close>
  wrote is read back unchanged.\<close>

theorem ReadHeader_reads_back:
  assumes "op AND 0x0f = op" and "len < 2 ^ 63"
    and "conn_content c = encode_header fin rsv1 op m len @ rest"
  shows "\<exists>c'. ReadHeader conn_read c = Some (c', \<lparr>h_fin = fin, h_rsv = (if rsv1 then 4 else 0), h_op = op,
      h_masked = (m \<noteq> None), h_mask = (case m of None \<Rightarrow> Mask 0 0 0 0 | Some k \<Rightarrow> k), h_length = word_of_nat len\<rparr>, None)
    \<and> conn_content c' = rest \<and> conn_env c' = conn_env c"
  using conn_ReadHeader [of c] parse_encode_header [OF assms(1,2), of fin rsv1 m rest] assms(3) by metis

lemma ReadHeader_reads_back_witness:
  "\<exists>c'. ReadHeader conn_read (ex_conn [encode_header True False 1 (Some (Mask 1 2 3 4)) 300, [9, 9]])
      = Some (c', \<lparr>h_fin = True, h_rsv = (if False then 4 else 0), h_op = 1,
      h_masked = (Some (Mask 1 2 3 4) \<noteq> None), h_mask = (case Some (Mask 1 2 3 4) of None \<Rightarrow> Mask 0 0 0 0 | Some k \<Rightarrow> k),
      h_length = word_of_nat 300\<rparr>, None)
    \<and> conn_content c' = [9, 9]
    \<and> conn_env c' = conn_env (ex_conn [encode_header True False 1 (Some (Mask 1 2 3 4)) 300, [9, 9]])"
  by (rule ReadHeader_reads_back) (simp_all add: conn_content_def)

section \<open>Messages\<close>

text \<open>C1: what \<open>Writev\<close> of one side sends, \<open>Read\<close> of the other side delivers: the same messages, in order, each one
  complete and ended by \<open>EOF\<close>, for every way the network cuts the bytes and every positive buffer size.\<close>

theorem message_roundtrip:
  assumes "\<forall>p \<in> set ps. \<not> compresses w p" "pool_ok w" "w_faults (t_conn w) = []" "out (t_conn w) = []"
    and "ready L t" "peer_of L (st_client L (t_state w)) (t_opCode w) t" and "\<forall>p \<in> set ps. fits t p"
    and "\<And>i. 0 < k i" and "\<not> in_eager (t_conn t)"
    and "\<And>w' qs n. Writev L w ps = Some (w', qs, n, None) \<Longrightarrow> conn_content (t_conn t) = concat (out (t_conn w'))"
  shows "\<exists>w' qs t'. Writev L w ps = Some (w', qs, sum_list (map length ps), None)
    \<and> receive L D k t (length ps) = Some (t', ps)"
  by (rule Writev_receive) (use assms in blast)+

lemma message_roundtrip_witness:
  "\<exists>chunks w' qs t'. Writev rfc_lib (ex_transport True []) [[1, 2, 3], [4]]
        = Some (w', qs, sum_list (map length [[1, 2, 3 :: byte], [4]]), None)
    \<and> receive rfc_lib ex_dec (\<lambda>_. 2) (ex_transport False chunks) (length [[1, 2, 3 :: byte], [4]])
        = Some (t', [[1, 2, 3], [4]])"
proof -
  let ?w = "ex_transport True []" and ?ps = "[[1, 2, 3], [4]] :: bytes list"
  let ?chunks = "case Writev rfc_lib ?w ?ps of Some (w', _) \<Rightarrow> out (t_conn w') | None \<Rightarrow> []"
  let ?t = "ex_transport False ?chunks"
  have "\<exists>w' qs t'. Writev rfc_lib ?w ?ps = Some (w', qs, sum_list (map length ?ps), None)
      \<and> receive rfc_lib ex_dec (\<lambda>_. 2) ?t (length ?ps) = Some (t', ?ps)"
  proof (rule message_roundtrip)
    show "peer_of rfc_lib (st_client rfc_lib (t_state ?w)) (t_opCode ?w) ?t"
      using ex_peer [of True] by simp
  qed (simp_all add: ex_no_compression ex_ready fits_def conn_content_def)
  then show ?thesis by blast
qed

text \<open>C5: \<open>Read\<close> is a reader of one message: on a stream that holds control frames and then a message of an accepted
  type, fragmented or not, with pings and pongs between its fragments, reading to the first error delivers exactly the
  unmasked payload; the error is \<open>EOF\<close> (or the connection's own, when it comes with the message's last bytes), and
  after \<open>EOF\<close> the transport stands at the first byte behind the message, ready for the next.\<close>

theorem read_delivers_message:
  assumes "t_ok L D t" and "\<And>i. 0 < k i"
  shows "\<exists>t' x. read_all (Read L D) k t [] = Some (t', t_content L t, x) \<and> x \<in> t_fin L t
    \<and> (x = EOF \<longrightarrow> \<not> t_msgReader t' \<and> idle L (t_reader t') \<and> conn_content (t_conn t') = t_rest L t
        \<and> t_setup L t' = t_setup L t)"
  using read_all_transport [where acc = "[]", OF assms] by (simp add: t_end_def)

text \<open>A fragmented message from a client: two frames with a ping between them, then the next frame's first byte.\<close>

definition ex_fragments :: bytes where
  "ex_fragments = [0x01, 0x82, 1, 2, 3, 4, 0xa0, 0xb2] @ [0x89, 0x81, 5, 5, 5, 5, 0x64] @ [0x80, 0x81, 9, 0, 0, 0, 0x0a] @ [0x81]"

lemma ex_fragments_inbound: "t_inbound rfc_lib (ex_transport False [ex_fragments]) = Some ([0xa1, 0xb0, 3], [0x81])"
  by code_simp

lemma read_delivers_message_witness:
  "\<exists>t' x. read_all (Read rfc_lib ex_dec) (\<lambda>_. 2) (ex_transport False [ex_fragments]) []
      = Some (t', t_content rfc_lib (ex_transport False [ex_fragments]), x)
    \<and> x \<in> t_fin rfc_lib (ex_transport False [ex_fragments])
    \<and> (x = EOF \<longrightarrow> \<not> t_msgReader t' \<and> idle rfc_lib (t_reader t')
        \<and> conn_content (t_conn t') = t_rest rfc_lib (ex_transport False [ex_fragments])
        \<and> t_setup rfc_lib t' = t_setup rfc_lib (ex_transport False [ex_fragments]))"
  by (rule read_delivers_message) (simp_all add: t_ok_def rfc_lib_ok ex_idle ex_fragments_inbound)

end
