(* ===== verification/WsLifecycle.thy ===== *)
theory WsLifecycle
  imports WsTransport
begin

text \<open>
  The life of a transport: what \<open>newWebsocketTransport\<close> returns and when it panics, the compressor that a negotiated
  window asks for, and what \<open>Close\<close> gives back.
\<close>

section \<open>Construction\<close>

lemma with_persistent_state:
  "with_persistent_reader L D t = Some t' \<Longrightarrow> t_state t' = t_state t \<and> t_pool t' = t_pool t"
  "with_persistent_writer L F t = Some t' \<Longrightarrow> t_state t' = t_state t \<and> t_pool t' = t_pool t"
  by (auto simp: with_persistent_reader_def with_persistent_writer_def Let_def bind_eq_Some_conv split: if_splits prod.splits)

lemma newWebsocketTransport_state:
  assumes "newWebsocketTransport L D F nc opts client req hs c a b rnd pool = Some (Inr t)"
  shows "t_state t = (if client then StateClientSide L else StateServerSide L) \<and> t_pool t = pool"
  using assms
  by (auto simp: newWebsocketTransport_def base_transport_def Let_def bind_eq_Some_conv split: option.splits if_splits
      dest!: with_persistent_state)

text \<open>
  After \<open>Apply\<close> with compression switched on, both pools can make new objects, so that construction does not panic as
  long as the compression library accepts the level.
\<close>

lemma Apply_pools:
  assumes "Apply F load o1 = Some opts"
  shows "o_readerPool opts" "o_CompressEnabled opts = o_CompressEnabled o1" "o_CompressLevel opts = o_CompressLevel o1"
    "o_writerPool opts = Some (if o_CompressEnabled o1 then Some (flate_NewWriter F (o_CompressLevel o1)) else None)"
  using assms by (auto simp: Apply_def Let_def split: if_splits option.splits)

lemma writer_alloc_reset:
  assumes "c_new C \<noteq> None"
  shows "\<exists>st' a fw. writer_alloc st C = Some (st', a) \<and> wst_obj st' a = (C, fw) \<and> fw_c fw \<noteq> Some None \<and> wst_pool st' = wst_pool st"
  using assms by (auto simp: writer_alloc_def NewFlateWriter_def fw_reset_def split: option.splits)

lemma writer_alloc_total: "\<exists>st' a. writer_alloc st C = Some (st', a)"
  by (simp add: writer_alloc_def NewFlateWriter_def fw_reset_def Let_def split: option.splits)

lemma writer_reset_ok: "wst_obj st a = (C, fw) \<Longrightarrow> fw_c fw \<noteq> Some None \<Longrightarrow> \<exists>st'. writer_reset st a = Some st'"
  by (auto simp: writer_reset_def fw_reset_def Let_def split: option.splits)

lemma with_persistent_writer_total:
  assumes "o_writerPool (t_options t) = Some (Some C)" and "c_new C \<noteq> None" and "wst_pool (t_writers t) = []"
  shows "\<exists>t'. with_persistent_writer L F t = Some t' \<and> t_reader t' = t_reader t \<and> t_msgReader t' = t_msgReader t"
proof -
  obtain st a fw where w: "writer_alloc (t_writers t) C = Some (st, a)" "wst_obj st a = (C, fw)" "fw_c fw \<noteq> Some None"
    using writer_alloc_reset [OF assms(2)] by blast
  obtain st' where r: "writer_reset st a = Some st'" using writer_reset_ok [OF w(2,3)] by blast
  obtain st2 a2 where k: "writer_alloc (t_writers t) (kp_NewWriterWindow F (window_size
      (if st_server L (t_state t) then n_serverMaxWindowBits (t_negotiated t) else n_clientMaxWindowBits (t_negotiated t))))
      = Some (st2, a2)"
    using writer_alloc_total by blast
  show ?thesis
    using assms(1,3) w r k
    by (cases "st_server L (t_state t)") (simp_all add: with_persistent_writer_def writer_pool_get_def Let_def)
qed

lemma with_persistent_reader_total:
  assumes "o_readerPool (t_options t)"
  shows "\<exists>t'. with_persistent_reader L D t = Some t' \<and> t_options t' = t_options t \<and> t_writers t' = t_writers t
    \<and> t_msgReader t' = t_msgReader t \<and> fr_low (t_reader t') = fr_low (t_reader t)
    \<and> fr_Extensions (t_reader t') = fr_Extensions (t_reader t)"
  using assms by (cases "reader_pool_get D (fr_store (t_reader t))") (auto simp: with_persistent_reader_def Let_def)

lemma base_transport_fields:
  "t_options (base_transport L D opts client req hs c a b rnd pool) = opts"
  "t_writers (base_transport L D opts client req hs c a b rnd pool) = b"
  "t_msgReader (base_transport L D opts client req hs c a b rnd pool) = False"
  "t_conn (base_transport L D opts client req hs c a b rnd pool) = c"
  "fr_Extensions (t_reader (base_transport L D opts client req hs c a b rnd pool)) = []"
  "t_negotiated (base_transport L D opts client req hs c a b rnd pool) = parsePerMessageDeflate hs no_negotiation"
  by (simp_all add: base_transport_def Let_def t_conn_def fr_dst_def NewFrameReader_def)

lemma newWebsocketTransport_total:
  assumes opts: "Apply F load o1 = Some opts" and nc: "set_no_delay nc (o_NoDelay opts) = None"
    and level: "c_new (flate_NewWriter F (o_CompressLevel opts)) \<noteq> None" and pool: "wst_pool b = []"
  shows "\<exists>t. newWebsocketTransport L D F nc opts client req hs c a b rnd pool = Some (Inr t) \<and> t_conn t = c
    \<and> t_msgReader t = False \<and> fr_Extensions (t_reader t) =
        (if o_CompressEnabled opts \<and> n_enabled (parsePerMessageDeflate hs no_negotiation) then [perMessageDeflateRecvExt] else [])"
proof (cases "o_CompressEnabled opts \<and> n_enabled (parsePerMessageDeflate hs no_negotiation)")
  case False
  then show ?thesis using nc by (auto simp: newWebsocketTransport_def base_transport_fields Let_def)
next
  case True
  define t0 where "t0 = base_transport L D opts client req hs c a b rnd pool"
  define t1 where "t1 = t0\<lparr>t_reader := (t_reader t0)\<lparr>fr_Extensions := [perMessageDeflateRecvExt]\<rparr>\<rparr>"
  note ap = Apply_pools [OF opts]
  have t1: "t_options t1 = opts" "t_writers t1 = b" "\<not> t_msgReader t1" "fr_low (t_reader t1) = fr_low (t_reader t0)"
    by (simp_all add: t1_def t0_def base_transport_fields)
  obtain t2 where t2: "with_persistent_reader L D t1 = Some t2" "t_options t2 = opts" "t_writers t2 = b"
      "\<not> t_msgReader t2" "fr_low (t_reader t2) = fr_low (t_reader t0)" "fr_Extensions (t_reader t2) = [perMessageDeflateRecvExt]"
    using with_persistent_reader_total [of t1 L D] ap(1) t1 by (auto simp: t1_def)
  have "o_writerPool (t_options t2) = Some (Some (flate_NewWriter F (o_CompressLevel opts)))"
    using ap True t2(2) by simp
  from with_persistent_writer_total [OF this level, of L F] pool t2(3) obtain t3 where
    t3: "with_persistent_writer L F t2 = Some t3" "t_reader t3 = t_reader t2" "t_msgReader t3 = t_msgReader t2" by auto
  have c: "lw_src (fr_low (t_reader t0)) = c" using base_transport_fields(4) by (simp add: t0_def t_conn_def fr_dst_def)
  have "newWebsocketTransport L D F nc opts client req hs c a b rnd pool = Some (Inr t3)"
    using nc True t2(1) t3(1)
    by (simp add: newWebsocketTransport_def Let_def base_transport_fields t0_def [symmetric] t1_def [symmetric])
       (simp add: t0_def base_transport_fields)
  then show ?thesis using True t2 t3 c by (simp add: t_conn_def fr_dst_def)
qed

section \<open>The window of the compressor\<close>

text \<open>
  \<open>NewWriterWindow\<close> answers \<open>nil\<close> for a window it does not support, and its error is dropped: the writer holds a
  \<open>nil\<close> pointer, on which the first \<open>Reset\<close> panics.
\<close>

lemma Write_nil_writer:
  assumes "o_CompressEnabled (t_options t)" "n_enabled (t_negotiated t)" "sint (o_CompressThreshold (t_options t)) \<le> int (length p)" and "t_persistentFlateWriter t = Some a" and "wst_obj (t_writers t) a = (C, fw)"
    and "fw_c fw = Some None" and "c_reset C \<noteq> None"
  shows "Write L t p = None"
proof -
  have "compress_payload (t_writers t) a p = None"
    using assms(5-7) by (auto simp: compress_payload_def writer_reset_def fw_reset_def Let_def)
  then show ?thesis using assms(1-4) by (simp add: Write_def writeCompress_def compress_wanted_def take_writer_def)
qed

lemma with_persistent_writer_window:
  assumes "with_persistent_writer L F t = Some t'"
    and "\<not> (if st_server L (t_state t) then n_serverNoContextTake (t_negotiated t) else n_clientNoContextTake (t_negotiated t))"
    and bits: "bits = (if st_server L (t_state t) then n_serverMaxWindowBits (t_negotiated t) else n_clientMaxWindowBits (t_negotiated t))"
      "0 < bits"
  shows "\<exists>a fw. t_persistentFlateWriter t' = Some a
    \<and> wst_obj (t_writers t') a = (kp_NewWriterWindow F (window_size bits), fw)
    \<and> fw_c fw = Some (c_new (kp_NewWriterWindow F (window_size bits)))
    \<and> t_options t' = t_options t \<and> t_negotiated t' = t_negotiated t"
proof -
  from assms obtain st a where "writer_alloc (t_writers t) (kp_NewWriterWindow F (window_size bits)) = Some (st, a)"
    and t': "t' = t\<lparr>t_writers := st, t_persistentFlateWriter := Some a\<rparr>"
    by (cases "st_server L (t_state t)") (auto simp: with_persistent_writer_def Let_def bind_eq_Some_conv)
  then have "\<exists>fw. wst_obj st a = (kp_NewWriterWindow F (window_size bits), fw)
      \<and> fw_c fw = Some (c_new (kp_NewWriterWindow F (window_size bits)))"
    by (auto simp: writer_alloc_def NewFlateWriter_def fw_reset_def Let_def bind_eq_Some_conv split: option.splits)
  with t' show ?thesis by auto
qed

section \<open>Close\<close>

text \<open>
  \<open>Close\<close> gives both persistent objects back to the pools of the options and closes the connection; the closure
  \<open>GetFlateReader\<close> of a transport with a persistent reader is left without one, so that a compressed frame read
  afterwards panics.
\<close>

lemma Close_result:
  assumes "Close D t = Some (t', e)"
  shows "t_persistentFlateWriter t' = None" and "fs_persistent (fr_store (t_reader t')) = None" and "closed (t_conn t')"
    and "closed (t_conn t) \<longleftrightarrow> e \<noteq> None"
    and "fr_GetFlateReader (t_reader t') = fr_GetFlateReader (t_reader t)"
    and "Close D t' = Some (t', Some (ErrForeign 0))"
proof -
  have r: "fs_persistent (fr_store (t_reader (close_reader D t))) = None" "t_conn (close_reader D t) = t_conn t"
    "fr_GetFlateReader (t_reader (close_reader D t)) = fr_GetFlateReader (t_reader t)"
    by (auto simp: close_reader_def t_conn_def fr_dst_def split: option.splits)
  from assms obtain t1 where t1: "close_writer (close_reader D t) = Some t1"
    and t': "(case conn_close (t_conn t1) of (c, e) \<Rightarrow> Some (t_set_conn c t1, e)) = Some (t', e)"
    by (auto simp: Close_def bind_eq_Some_conv)
  have w: "t_persistentFlateWriter t1 = None" "t_reader t1 = t_reader (close_reader D t)"
    using t1 by (auto simp: close_writer_def bind_eq_Some_conv split: option.splits)
  then have c: "t_conn t1 = t_conn t" using r(2) by (simp add: t_conn_def)
  have t'': "t' = t_set_conn (fst (conn_close (t_conn t))) t1" "e = snd (conn_close (t_conn t))"
    using t' c by (auto split: prod.splits)
  note defs = t'' conn_close_def t_set_conn_def fr_set_dst_def t_conn_def fr_dst_def
  show a: "t_persistentFlateWriter t' = None" using w by (simp add: defs)
  show b: "fs_persistent (fr_store (t_reader t')) = None" using w r by (simp add: defs)
  show cl: "closed (t_conn t')" using w r c by (simp add: defs)
  show "closed (t_conn t) \<longleftrightarrow> e \<noteq> None" by (simp add: t'' conn_close_def)
  show "fr_GetFlateReader (t_reader t') = fr_GetFlateReader (t_reader t)" using w r by (simp add: defs)
  have "t_set_conn (t_conn t') t' = t'" by (simp add: t_set_conn_def fr_set_dst_def t_conn_def fr_dst_def)
  with a b cl show "Close D t' = Some (t', Some (ErrForeign 0))"
    by (simp add: Close_def close_reader_def close_writer_def conn_close_def)
qed

text \<open>
  \<open>Close\<close> in the middle of a compressed message: the persistent reader goes to the pool, from which another connection can take
  it, while the frame reader of this one still holds it.
\<close>

lemma Close_shares_reader:
  assumes "Close D t = Some (t', e)" and "fs_persistent (fr_store (t_reader t)) = Some a" and "fr_flateReader (t_reader t) = Some a"
  shows "fr_flateReader (t_reader t') = Some a \<and> a \<in> set (fs_pool (fr_store (t_reader t')))"
proof -
  have r: "fr_flateReader (t_reader (close_reader D t)) = Some a" "a \<in> set (fs_pool (fr_store (t_reader (close_reader D t))))"
    using assms(2,3) by (simp_all add: close_reader_def pool_PutFlateReader_def Let_def)
  obtain t1 where t1: "close_writer (close_reader D t) = Some t1"
    "(case conn_close (t_conn t1) of (c, e) \<Rightarrow> Some (t_set_conn c t1, e)) = Some (t', e)"
    using assms(1) by (auto simp: Close_def bind_eq_Some_conv)
  from t1(1) have "t_reader t1 = t_reader (close_reader D t)" by (auto simp: close_writer_def bind_eq_Some_conv split: option.splits)
  with r t1(2) show ?thesis by (auto simp: t_set_conn_def fr_set_dst_def split: prod.splits)
qed

end
