(* ===== verification/WriteProperties.thy ===== *)
theory WriteProperties
  imports Examples WsLifecycle
begin

text \<open>
  The properties of a transport's making, of its write side and of \<open>Close\<close>, each with a witness on concrete data
  where it has hypotheses.
\<close>

section \<open>Writing\<close>

text \<open>C11: \<open>Write\<close> of a message that is not compressed hands the connection one block, which is one final frame of the
  transport's opcode whose unmasked payload is the message, masked exactly for a client; it returns the message's length.
  If the connection takes only \<open>k\<close> bytes of the block and fails, \<open>Write\<close> returns 0 and that error.\<close>

theorem Write_one_frame:
  assumes "\<not> compresses t p" and "pool_ok t" and "length p < 2 ^ 63" and "t_opCode t AND 0x0f = t_opCode t"
  shows "\<exists>f h pl. parse_header f = Parsed h pl \<and> unmask h pl = p \<and> h_fin h \<and> h_rsv h = 0 \<and> h_op h = t_opCode t
    \<and> h_masked h = st_client L (t_state t) \<and> unat (h_length h) = length p
    \<and> (case w_faults (t_conn t) of
         [] \<Rightarrow> \<exists>t' q. Write L t p = Some (t', q, length p, None) \<and> out (t_conn t') = out (t_conn t) @ [f]
       | Some (k, x) # ws \<Rightarrow> \<exists>t' q. Write L t p = Some (t', q, 0, Some x) \<and> out (t_conn t') = out (t_conn t) @ [take k f]
       | None # ws \<Rightarrow> \<exists>t' q. Write L t p = Some (t', q, length p, None) \<and> out (t_conn t') = out (t_conn t) @ [f])"
proof -
  let ?f = "wire_frame (st_client L (t_state t)) (t_opCode t) (next_mask L t) False p"
  note ph = parse_wire_frame [OF assms(4,3), of "st_client L (t_state t)" "next_mask L t" False "[]", simplified]
  have "unat (word_of_nat (length p) :: i64) = length p" by (rule unat_i64_of_nat [OF assms(3)])
  moreover have "case w_faults (t_conn t) of
         [] \<Rightarrow> \<exists>t' q. Write L t p = Some (t', q, length p, None) \<and> out (t_conn t') = out (t_conn t) @ [?f]
       | Some (k, x) # ws \<Rightarrow> \<exists>t' q. Write L t p = Some (t', q, 0, Some x) \<and> out (t_conn t') = out (t_conn t) @ [take k ?f]
       | None # ws \<Rightarrow> \<exists>t' q. Write L t p = Some (t', q, length p, None) \<and> out (t_conn t') = out (t_conn t) @ [?f]"
    by (simp add: Write_plain [OF assms(1-3)] conn_write_def split: list.split option.split)
  moreover note ph
  ultimately show ?thesis
    by (intro exI [of _ ?f] exI [of _ "\<lparr>h_fin = True, h_rsv = 0, h_op = t_opCode t, h_masked = st_client L (t_state t),
          h_mask = (if st_client L (t_state t) then next_mask L t else Mask 0 0 0 0), h_length = word_of_nat (length p)\<rparr>"]
        exI [of _ "if st_client L (t_state t) then cipher_spec (next_mask L t) 0 p else p"])
      (simp add: unmask_def)
qed

text \<open>A client's transport whose connection fails on the second write, after five bytes.\<close>

definition ex_faulty :: "(unit, unit, unit, unit) ws_transport" where
  "ex_faulty = t_set_conn ((ex_conn [])\<lparr>w_faults := [None, Some (5, ErrShortWrite)]\<rparr>) (ex_transport True [])"

lemma ex_faulty_fields [simp]:
  "t_conn ex_faulty = (ex_conn [])\<lparr>w_faults := [None, Some (5, ErrShortWrite)]\<rparr>" "pool_ok ex_faulty" "t_opCode ex_faulty = 1"
  "t_state ex_faulty = 2" "\<not> compresses ex_faulty p"
  by (simp_all add: ex_faulty_def ex_no_compression)

lemma Write_one_frame_witness:
  "\<exists>f h pl t' q. parse_header f = Parsed h pl \<and> unmask h pl = [1, 2, 3] \<and> h_fin h \<and> h_masked h
    \<and> Write rfc_lib ex_faulty [1, 2, 3] = Some (t', q, length [1, 2, 3 :: byte], None) \<and> out (t_conn t') = [f]"
  using Write_one_frame [of ex_faulty "[1, 2, 3]" rfc_lib] by simp blast

text \<open>\<open>Writev\<close> that fails at the \<open>i\<close>-th buffer returns 0, although the frames of all buffers before it are on the
  wire, whole and in order, and a part of the \<open>i\<close>-th.\<close>

lemma Writev_partial_count:
  assumes "\<forall>q \<in> set (ps @ [p]). \<not> compresses t q \<and> length q < 2 ^ 63" and "pool_ok t"
    and "w_faults (t_conn t) = replicate (length ps) None @ Some (k, x) # ws"
  shows "\<exists>t' qs. Writev L t (ps @ p # rest) = Some (t', qs, 0, Some x)
    \<and> out (t_conn t') = out (t_conn t) @ wire_frames L t ps @ [take k (last (wire_frames L t (ps @ [p])))]"
  unfolding Writev_def by (rule Writev_loop_fault [OF assms])

lemma Writev_partial_count_witness:
  "\<exists>t' qs. Writev rfc_lib ex_faulty ([[1, 2]] @ [3, 4] # [[5]]) = Some (t', qs, 0, Some ErrShortWrite)
    \<and> out (t_conn t') = out (t_conn ex_faulty) @ wire_frames rfc_lib ex_faulty [[1, 2]]
        @ [take 5 (last (wire_frames rfc_lib ex_faulty ([[1, 2]] @ [[3, 4]])))]"
  by (rule Writev_partial_count) simp_all

text \<open>A client's \<open>Write\<close> masks the caller's slice in place.  A caller that writes the same slice again sends a second
  frame whose payload, unmasked by the receiver, is not the message but the message masked with the first frame's key.\<close>

lemma Write_reused_slice:
  assumes "st_client L (t_state t)" and "\<not> compresses t p" and "pool_ok t" and "length p < 2 ^ 63" and "w_faults (t_conn t) = []"
  shows "\<exists>t1 q t2 q2. Write L t p = Some (t1, q, length p, None) \<and> q = FastCipher p (next_mask L t) 0
    \<and> Write L t1 q = Some (t2, q2, length p, None)
    \<and> out (t_conn t2) = out (t_conn t) @ [wire_frame True (t_opCode t) (next_mask L t) False p,
        wire_frame True (t_opCode t) (next_mask L t1) False (FastCipher p (next_mask L t) 0)]"
proof -
  define m where "m = next_mask L t"
  define t1 where "t1 = t_set_conn ((t_conn t)\<lparr>out := out (t_conn t) @ [wire_frame True (t_opCode t) m False p]\<rparr>)
    (after_mask L t)"
  define q where "q = FastCipher p m 0"
  have w1: "Write L t p = Some (t1, q, length p, None)"
    using Write_plain_quiet [OF assms(2-5), of L] assms(1) by (simp add: t1_def q_def m_def masked_for_def FastCipher_eq)
  have t1: "pool_ok t1" "\<not> compresses t1 q" "w_faults (t_conn t1) = []" "length q = length p"
    "st_client L (t_state t1)" "t_opCode t1 = t_opCode t"
    "out (t_conn t1) = out (t_conn t) @ [wire_frame True (t_opCode t) m False p]"
    using assms by (simp_all add: t1_def q_def FastCipher_eq compresses_def compress_wanted_def)
  obtain t2 q2 where "Write L t1 q = Some (t2, q2, length p, None)"
    "out (t_conn t2) = out (t_conn t1) @ [wire_frame True (t_opCode t) (next_mask L t1) False q]"
    using Write_plain_quiet [of t1 q L] t1 assms(4) by simp
  with w1 t1 show ?thesis unfolding q_def m_def by auto
qed

lemma Write_reused_slice_witness:
  "\<exists>t1 q t2 q2. Write rfc_lib (ex_transport True []) [9, 9] = Some (t1, q, length [9, 9 :: byte], None) \<and> q = [8, 11]
    \<and> Write rfc_lib t1 q = Some (t2, q2, length [9, 9 :: byte], None)"
proof -
  have "FastCipher [9, 9] (next_mask rfc_lib (ex_transport True [])) 0 = [8, 11]" by code_simp
  with Write_reused_slice [of rfc_lib "ex_transport True []" "[9, 9]"] show ?thesis
    by (simp add: ex_no_compression) blast
qed

section \<open>Writing with compression\<close>

text \<open>C12: a message that is compressed leaves as one final frame with RSV1 whose payload is the compressor's stream for
  that message, from \<open>Reset\<close> to \<open>Flush\<close>, without the four bytes \<open>00 00 ff ff\<close> that end it; the caller's slice is not
  touched, and \<open>Write\<close> returns the length of the uncompressed message.\<close>

theorem Write_compressed_stream:
  assumes "compresses t p" and "pool_ok t" and "w_faults (t_conn t) = []" and "take_writer t = Some (st, a)"
    and "compress_payload st a p = Some (st', z, None)" and "length z < 2 ^ 63"
    and "put_back a (t_set_conn ((t_conn t)\<lparr>out := out (t_conn t)
       @ [wire_frame (st_client L (t_state t)) (t_opCode t) (next_mask L t) True z]\<rparr>)
         (after_mask L (t\<lparr>t_writers := st'\<rparr>))) = Some t'"
  shows "Write L t p = Some (t', p, length p, None)
    \<and> out (t_conn t') = out (t_conn t) @ [wire_frame (st_client L (t_state t)) (t_opCode t) (next_mask L t) True z]
    \<and> (\<exists>C c. compress_stream C c p = z @ compressionTail \<and> C = fst (wst_obj st a))"
  by (rule Write_compressed [OF assms])

text \<open>A server's transport after the negotiation of \<open>ex_offer\<close>.\<close>

definition ex_new :: "net_conn \<Rightarrow> (err + (unit, unit, unit, unit) ws_transport) option" where
  "ex_new nc = newWebsocketTransport rfc_lib ex_dec ex_flate nc ex_compress_options False ex_request ex_offer (ex_conn [])
     ex_flate_store ex_writer_store (\<lambda>i. Mask 1 2 3 (word_of_nat i)) (\<lambda>n. replicate n 7)"

definition ex_deflating :: "(unit, unit, unit, unit) ws_transport" where
  "ex_deflating = (case ex_new OtherConn of Some (Inr t) \<Rightarrow> t | _ \<Rightarrow> ex_transport False [])"

lemma Write_compressed_stream_witness:
  "\<exists>t'. Write rfc_lib ex_deflating [1, 2, 3] = Some (t', [1, 2, 3], length [1, 2, 3 :: byte], None)
    \<and> out (t_conn t') = [wire_frame False 1 (Mask 0 0 0 0) True [1, 2, 3]]"
proof -
  let ?t = ex_deflating and ?p = "[1, 2, 3] :: bytes"
  have t: "compresses ?t ?p" "w_faults (t_conn ?t) = []" "t_persistentFlateWriter ?t = Some 0"
    "map_option snd (compress_payload (t_writers ?t) 0 ?p) = Some (?p, None)" "out (t_conn ?t) = []"
    "t_state ?t = 1" "t_opCode ?t = 1"
    by code_simp+
  from t(4) obtain st' where z: "compress_payload (t_writers ?t) 0 ?p = Some (st', ?p, None)"
    by (cases "compress_payload (t_writers ?t) 0 ?p") auto
  have "\<not> (case ex_new OtherConn of Some (Inr t) \<Rightarrow> False | _ \<Rightarrow> True)" by code_simp
  then obtain t0 where t0: "ex_new OtherConn = Some (Inr t0)" by (auto split: option.splits sum.splits)
  then have "t_pool ?t = (\<lambda>n. replicate n 7)"
    using newWebsocketTransport_state [OF t0 [unfolded ex_new_def]] by (simp add: ex_deflating_def)
  then have pool: "pool_ok ?t" by (simp add: pool_ok_def)
  have "take_writer ?t = Some (t_writers ?t, 0)" by (simp add: take_writer_def t(3))
  from Write_compressed_stream [OF t(1) pool t(2) this z, of rfc_lib] show ?thesis
    by (simp add: put_back_def t next_mask_def draw_mask_def)
qed

section \<open>Making and closing a transport\<close>

text \<open>C27: with options that went through \<open>Apply\<close> and a compression level that the library accepts, \<open>newWebsocketTransport\<close>
  returns: the error of \<open>SetNoDelay\<close>, or a transport on the connection, in the role asked for, between messages, with
  the receive extension exactly when compression is enabled and negotiated.\<close>

theorem newWebsocketTransport_returns:
  assumes "Apply F load o1 = Some opts" and "c_new (flate_NewWriter F (o_CompressLevel opts)) \<noteq> None" and "wst_pool b = []"
  shows "case set_no_delay nc (o_NoDelay opts) of
      Some e \<Rightarrow> newWebsocketTransport L D F nc opts client req hs c a b rnd pool = Some (Inl e)
    | None \<Rightarrow> \<exists>t. newWebsocketTransport L D F nc opts client req hs c a b rnd pool = Some (Inr t) \<and> t_conn t = c
        \<and> t_state t = (if client then StateClientSide L else StateServerSide L) \<and> t_msgReader t = False
        \<and> fr_Extensions (t_reader t) =
            (if o_CompressEnabled opts \<and> n_enabled (parsePerMessageDeflate hs no_negotiation) then [perMessageDeflateRecvExt] else [])"
proof (cases "set_no_delay nc (o_NoDelay opts)")
  case None
  from newWebsocketTransport_total [OF assms(1) None assms(2,3), of L D client req hs c a rnd pool] show ?thesis
    using newWebsocketTransport_state None by fastforce
next
  case (Some e)
  then show ?thesis by (simp add: newWebsocketTransport_def)
qed

lemma newWebsocketTransport_returns_witness:
  "\<exists>t. ex_new (TCPConn (\<lambda>_. None)) = Some (Inr t) \<and> t_conn t = ex_conn [] \<and> t_state t = StateServerSide rfc_lib
    \<and> fr_Extensions (t_reader t) = [perMessageDeflateRecvExt]"
proof -
  have a: "Apply ex_flate (\<lambda>_ _. None) (ex_options\<lparr>o_CompressEnabled := True, o_CompressThreshold := 2\<rparr>) = Some ex_compress_options"
    by (simp add: ex_compress_options_def Apply_def ex_options_def DefaultOptions_def Let_def)
  have n: "o_CompressEnabled ex_compress_options \<and> n_enabled (parsePerMessageDeflate ex_offer no_negotiation)" by code_simp
  have c: "c_new (flate_NewWriter ex_flate (o_CompressLevel ex_compress_options)) \<noteq> None" "wst_pool ex_writer_store = []"
    by (simp_all add: ex_flate_def ex_comp_def ex_writer_store_def)
  show ?thesis unfolding ex_new_def
    using newWebsocketTransport_returns [OF a c, where nc = "TCPConn (\<lambda>_. None)" and L = rfc_lib
      and D = ex_dec and client = False and req = ex_request and hs = ex_offer and c = "ex_conn []" and a = ex_flate_store
      and rnd = "\<lambda>i. Mask 1 2 3 (word_of_nat i)" and pool = "\<lambda>n. replicate n 7"] n
    by auto
qed

text \<open>C30: the error of \<open>NewWriterWindow\<close> is dropped.  A transport whose negotiated window the compression library does
  not support is made without complaint, and its first compressed \<open>Write\<close> panics on the \<open>nil\<close> compressor.\<close>

theorem unsupported_window_panics:
  assumes "with_persistent_writer L F t = Some t'"
    and "\<not> (if st_server L (t_state t) then n_serverNoContextTake (t_negotiated t) else n_clientNoContextTake (t_negotiated t))"
    and "bits = (if st_server L (t_state t) then n_serverMaxWindowBits (t_negotiated t) else n_clientMaxWindowBits (t_negotiated t))"
    and "0 < bits" and "c_new (kp_NewWriterWindow F (window_size bits)) = None" and "c_reset (kp_NewWriterWindow F (window_size bits)) \<noteq> None"
    and "compresses t p"
  shows "Write L t' p = None"
proof -
  obtain a fw where w: "t_persistentFlateWriter t' = Some a"
    "wst_obj (t_writers t') a = (kp_NewWriterWindow F (window_size bits), fw)" "fw_c fw = Some None"
    "t_options t' = t_options t" "t_negotiated t' = t_negotiated t"
    using with_persistent_writer_window [OF assms(1-4)] assms(5) by auto
  from assms(7) w(4,5) have "o_CompressEnabled (t_options t')" "n_enabled (t_negotiated t')"
    "sint (o_CompressThreshold (t_options t')) \<le> int (length p)"
    by (simp_all add: compresses_def compress_wanted_def)
  then show ?thesis by (rule Write_nil_writer [OF _ _ _ w(1-3) assms(6)])
qed

text \<open>A client that accepted a window of \<open>2 ^ 4\<close> bytes from its server.\<close>

definition ex_small_window :: "(unit, unit, unit, unit) ws_transport" where
  "ex_small_window = (ex_transport True [])
     \<lparr>t_options := ex_compress_options, t_negotiated := no_negotiation\<lparr>n_enabled := True, n_clientMaxWindowBits := 4\<rparr>\<rparr>"

lemma unsupported_window_panics_witness:
  "\<exists>t'. with_persistent_writer rfc_lib ex_flate ex_small_window = Some t' \<and> Write rfc_lib t' [1, 2, 3] = None"
proof -
  have w: "with_persistent_writer rfc_lib ex_flate ex_small_window \<noteq> None"
    and n: "\<not> st_server rfc_lib (t_state ex_small_window)" "\<not> n_clientNoContextTake (t_negotiated ex_small_window)"
      "n_clientMaxWindowBits (t_negotiated ex_small_window) = 4" "compresses ex_small_window [1, 2, 3]"
      "c_new (kp_NewWriterWindow ex_flate (window_size 4)) = None" "c_reset (kp_NewWriterWindow ex_flate (window_size 4)) \<noteq> None"
    by code_simp+
  from w obtain t' where t': "with_persistent_writer rfc_lib ex_flate ex_small_window = Some t'" by blast
  from unsupported_window_panics [OF t' _ _ _ _ _ n(4), of 4] n t' show ?thesis by simp
qed



section \<open>Negotiation\<close>

lemma Atoi_range: "Atoi s = Some n \<Longrightarrow> - (2 ^ 63) \<le> n \<and> n < 2 ^ 63"
  by (auto simp: Atoi_def Let_def split: prod.splits if_splits option.splits)

lemma window_bits_range:
  "- (2 ^ 63) \<le> old \<Longrightarrow> old < 2 ^ 63 \<Longrightarrow> - (2 ^ 63) \<le> window_bits opt param old \<and> window_bits opt param old < 2 ^ 63"
  using Atoi_range by (auto simp: window_bits_def split: option.splits)

lemma parse_skips: "\<forall>opt \<in> set pre. eo_Name opt \<noteq> ''permessage-deflate'' \<Longrightarrow>
    parsePerMessageDeflate (pre @ opts) n = parsePerMessageDeflate opts n"
  by (induction pre) auto

lemma parse_range: "(\<forall>k \<in> {n_clientMaxWindowBits n, n_serverMaxWindowBits n}. - (2 ^ 63) \<le> k \<and> k < 2 ^ 63) \<Longrightarrow>
    (\<forall>k \<in> {n_clientMaxWindowBits (parsePerMessageDeflate hs n), n_serverMaxWindowBits (parsePerMessageDeflate hs n)}.
      - (2 ^ 63) \<le> k \<and> k < 2 ^ 63)"
  using window_bits_range by (induction hs n rule: parsePerMessageDeflate.induct) (auto simp: Let_def)

text \<open>C31: only the first \<open>permessage-deflate\<close> extension of a handshake counts; extensions before it are skipped, and what
  stands behind it is not looked at.  Without one nothing is negotiated.  The window bits are in the range of Go's \<open>int\<close>
  whatever the handshake says, but not limited to the 8 to 15 of RFC 7692.\<close>

theorem negotiation_first_match:
  assumes "\<forall>o' \<in> set pre. eo_Name o' \<noteq> ''permessage-deflate''" and "eo_Name opt = ''permessage-deflate''"
  shows "parsePerMessageDeflate (pre @ opt # post) no_negotiation = parsePerMessageDeflate [opt] no_negotiation
    \<and> n_enabled (parsePerMessageDeflate (pre @ opt # post) no_negotiation)
    \<and> parsePerMessageDeflate pre no_negotiation = no_negotiation
    \<and> (\<forall>k \<in> {n_clientMaxWindowBits (parsePerMessageDeflate (pre @ opt # post) no_negotiation),
             n_serverMaxWindowBits (parsePerMessageDeflate (pre @ opt # post) no_negotiation)}. - (2 ^ 63) \<le> k \<and> k < 2 ^ 63)"
  using parse_skips [OF assms(1), of "opt # post" no_negotiation] parse_skips [OF assms(1), of "[]" no_negotiation] assms(2)
    parse_range [of no_negotiation "pre @ opt # post"]
  by (auto simp: Let_def no_negotiation_def)

lemma negotiation_first_match_witness:
  "parsePerMessageDeflate ex_offer no_negotiation
     = no_negotiation\<lparr>n_enabled := True, n_clientNoContextTake := True, n_serverMaxWindowBits := 12\<rparr>
   \<and> parsePerMessageDeflate (take 1 ex_offer @ ex_offer ! 1 # ex_offer) no_negotiation
     = parsePerMessageDeflate [ex_offer ! 1] no_negotiation"
  using negotiation_first_match [of "take 1 ex_offer" "ex_offer ! 1" ex_offer]
  by (simp add: ex_offer_def) code_simp

end
