(* ===== verification/ReadProperties.thy ===== *)
theory ReadProperties
  imports Examples
begin

text \<open>
  The properties of the read side: control frames, refused frames, compressed messages and the readers and buffers
  below them, each with a witness on concrete data where it has hypotheses.
\<close>

section \<open>Control frames\<close>

text \<open>A server's or client's frame reader in the middle of a control frame, masked or not, and bytes behind it.\<close>

definition ex_control :: "mask option \<Rightarrow> bytes \<Rightarrow> (unit, unit) frame_reader" where
  "ex_control m p = (NewFrameReader rfc_lib ex_flate_store (ex_conn []) 5)\<lparr>fr_low :=
     \<lparr>lw_src = ex_conn [p, [0x81]], lw_n = int (length p), lw_cipher = map_option NewCipherReader m\<rparr>\<rparr>"

definition ex_control_header :: "byte \<Rightarrow> bytes \<Rightarrow> header" where
  "ex_control_header op p = zero_header\<lparr>h_fin := True, h_op := op, h_length := word_of_nat (length p)\<rparr>"

lemma ex_control_open:
  assumes "length p \<le> 125" and "b = (if m = None then RRaw else RCipher)"
  shows "control_open rfc_lib (ex_control_header op p) b (ex_control m p)"
  using assms
  by (auto simp: control_open_def ex_control_def ex_control_header_def frame_complete_def conn_content_def
      unat_i64_small NewCipherReader_def cipher_reset_def)

text \<open>C16: a ping is answered by exactly one frame: a final pong with the ping's unmasked payload, in the role of the
  transport; the handler returns no error, and the bytes behind the ping are untouched.\<close>

theorem ping_answered:
  assumes "writer_laws L held" and "opcode_laws L" and "control_open L h b r" and "h_op h = OpPing L"
  shows "\<exists>r' fr. ControlFrameHandler L fr_dst fr_set_dst pool s h (inner_read D (RBase b)) r = Some (r', None)
    \<and> out (fr_dst r') = out (fr_dst r) @ [fr] \<and> is_frame (OpPong L) (st_client L s) (base_content b (fr_low r)) fr
    \<and> drop (nat (lw_n (fr_low r'))) (conn_content (fr_dst r')) = drop (nat (lw_n (fr_low r))) (conn_content (fr_dst r))"
proof -
  obtain q fr where q: "reading r q" "is_frame (OpPong L) (st_client L s) (base_content b (fr_low r)) fr"
    "ControlFrameHandler L fr_dst fr_set_dst pool s h (inner_read D (RBase b)) r
      = Some (fr_set_dst ((fr_dst q)\<lparr>out := out (fr_dst r) @ [fr]\<rparr>) q, None)"
    using frame_ping [OF assms] by blast
  from q(1) have "drop (nat (lw_n (fr_low q))) (conn_content (fr_dst q)) = drop (nat (lw_n (fr_low r))) (conn_content (fr_dst r))"
    by (auto simp: reading_def fr_dst_def)
  with q show ?thesis by (auto simp: fr_dst_def fr_set_dst_def conn_content_def)
qed

lemma ping_answered_witness:
  "\<exists>r' fr. ControlFrameHandler rfc_lib fr_dst fr_set_dst (\<lambda>n. replicate n 0) 1 (ex_control_header 9 [8, 9])
      (inner_read ex_dec (RBase RCipher)) (ex_control (Some (Mask 1 1 1 1)) [8, 9]) = Some (r', None)
    \<and> out (fr_dst r') = [fr] \<and> is_frame 10 False [9, 8] fr"
proof -
  let ?r = "ex_control (Some (Mask 1 1 1 1)) [8, 9]"
  have "base_content RCipher (fr_low ?r) = [9, 8]" "out (fr_dst ?r) = []" by code_simp+
  with ping_answered [OF rfc_writer_laws rfc_opcode_laws ex_control_open [of "[8, 9]" RCipher "Some (Mask 1 1 1 1)" 9],
      where s = 1 and pool = "\<lambda>n. replicate n 0" and D = ex_dec]
  show ?thesis by (simp add: ex_control_header_def) blast
qed

text \<open>C17: a valid close frame is answered by one close frame that carries the status code alone, whatever the recycled
  buffer held, and the reader gets \<open>ClosedError\<close> with code and reason.\<close>

theorem close_echoed:
  assumes "writer_laws L held" and "opcode_laws L" and "control_open L h b r" and "h_op h = OpClose L"
    and "2 \<le> sint (h_length h)" and "parse_close L (base_content b (fr_low r)) = (code, reason)"
    and "check_close L code reason = None"
  shows "\<exists>r' fr. ControlFrameHandler L fr_dst fr_set_dst pool s h (inner_read D (RBase b)) r
      = Some (r', Some (ClosedError code reason))
    \<and> out (fr_dst r') = out (fr_dst r) @ [fr] \<and> is_frame (OpClose L) (st_client L s) (take 2 (base_content b (fr_low r))) fr"
  using frame_close [OF assms, of s pool D] by (auto simp: fr_dst_def fr_set_dst_def)

lemma close_echoed_witness:
  "\<exists>r' fr. ControlFrameHandler rfc_lib fr_dst fr_set_dst (\<lambda>n. replicate n 7) 2 (ex_control_header 8 [3, 232, 98, 121])
      (inner_read ex_dec (RBase RRaw)) (ex_control None [3, 232, 98, 121]) = Some (r', Some (ClosedError 1000 [98, 121]))
    \<and> out (fr_dst r') = [fr] \<and> is_frame 8 True [3, 232] fr"
proof -
  let ?r = "ex_control None [3, 232, 98, 121]"
  have "base_content RRaw (fr_low ?r) = [3, 232, 98, 121]" "out (fr_dst ?r) = []"
    "parse_close rfc_lib [3, 232, 98, 121] = (1000, [98, 121])" "check_close rfc_lib 1000 [98, 121] = None"
    "sint (h_length (ex_control_header 8 [3, 232, 98, 121])) = 4"
    by code_simp+
  with close_echoed [OF rfc_writer_laws rfc_opcode_laws ex_control_open [of "[3, 232, 98, 121]" RRaw None 8],
      where s = 2 and pool = "\<lambda>n. replicate n 7" and D = ex_dec and code = 1000 and reason = "[98, 121]"]
  show ?thesis by (simp add: ex_control_header_def)
qed

text \<open>
  What \<open>ws.WriteFrame\<close> and \<open>ws.NewCloseFrame\<close> promise: the header as given and the payload as given, and a close
  frame for a server, not masked.
\<close>

definition close_frame_laws :: "('x, 'cw) ws_lib \<Rightarrow> bool" where
  "close_frame_laws L \<longleftrightarrow>
     (\<forall>p. length p \<le> 125 \<longrightarrow> new_close_header L p
        = zero_header\<lparr>h_fin := True, h_op := OpClose L, h_length := word_of_nat (length p)\<rparr>)
     \<and> (\<forall>c h p. w_faults c = [] \<longrightarrow> h_rsv h = 0 \<longrightarrow> h_op h AND 0x0f = h_op h \<longrightarrow> \<not> h_masked h \<longrightarrow> h_mask h = Mask 0 0 0 0 \<longrightarrow>
          h_length h = word_of_nat (length p) \<longrightarrow> length p \<le> 125 \<longrightarrow>
          (\<exists>f. ws_write_frame L c h p = (c\<lparr>out := out c @ [f]\<rparr>, None) \<and> parse_header f = Parsed h p))"

lemma rfc_close_frame_laws: "close_frame_laws rfc_lib"
proof -
  have "\<exists>f. ws_write_frame rfc_lib c h p = (c\<lparr>out := out c @ [f]\<rparr>, None) \<and> parse_header f = Parsed h p"
    if "w_faults c = []" "h_rsv h = 0" "h_op h AND 0x0f = h_op h" "\<not> h_masked h" "h_mask h = Mask 0 0 0 0"
      "h_length h = word_of_nat (length p)" "length p \<le> 125" for c h p
  proof -
    have len: "unat (word_of_nat (length p) :: i64) = length p" "length p < 2 ^ 63" using that(7) by (simp_all add: unat_i64_of_nat)
    have hh: "\<lparr>h_fin = h_fin h, h_rsv = 0, h_op = h_op h, h_masked = False, h_mask = Mask 0 0 0 0,
        h_length = word_of_nat (length p)\<rparr> = h" using that by (cases h) simp
    have "parse_header (encode_header (h_fin h) False (h_op h) None (length p) @ p) = Parsed h p"
      using parse_encode_header [OF that(3) len(2), of "h_fin h" False None p] by (simp add: hh)
    with that len(1) show ?thesis
      by (intro exI [of _ "encode_header (h_fin h) False (h_op h) None (length p) @ p"]) (simp add: rfc_lib_def rfc_write_def conn_write_def rfc_header_bytes_def)
  qed
  then show ?thesis unfolding close_frame_laws_def by (simp add: rfc_lib_def)
qed

text \<open>C18: an invalid close frame is answered by a close frame with status 1002 and the reason, and the reader gets the
  reason as its error.  In the client's role the payload is masked but the header is the unmasked one, because the frame
  that \<open>ws.MaskFrameInPlace\<close> returns is dropped: the server reads garbage instead of the status code.\<close>

theorem protocol_error_frame:
  assumes "close_frame_laws L" and "opcode_laws L" and "control_open L h b r" and "h_op h = OpClose L"
    and "h_length h \<noteq> 0" and "parse_close L (base_content b (fr_low r)) = (code, reason)"
    and "check_close L code reason = Some x"
    and "body = close_body L (StatusProtocolError L) (err_text L x)" and "length body \<le> 125" and "length (mask_payload L body) = length body"
  shows "\<exists>r' f h'. ControlFrameHandler L fr_dst fr_set_dst pool s h (inner_read D (RBase b)) r = Some (r', Some x)
    \<and> out (fr_dst r') = out (fr_dst r) @ [f] \<and> h_op h' = OpClose L \<and> \<not> h_masked h'
    \<and> parse_header f = Parsed h' (if st_client L s then mask_payload L body else body)"
proof -
  obtain q where q: "reading r q" "ControlFrameHandler L fr_dst fr_set_dst pool s h (inner_read D (RBase b)) r
      = Some (fst (closeWithProtocolError L (frame_control (inner_read D (RBase b)) pool s) x q), Some x)"
    using frame_close_invalid [OF assms(2-7), of pool s D] by blast
  define h' where "h' = zero_header\<lparr>h_fin := True, h_op := OpClose L, h_length := word_of_nat (length body)\<rparr>"
  define pl where "pl = (if st_client L s then mask_payload L body else body)"
  have pl: "length pl = length body" using assms(10) by (simp add: pl_def)
  have h': "h_rsv h' = 0" "h_op h' = OpClose L" "h_op h' AND 0x0f = h_op h'" "\<not> h_masked h'" "h_mask h' = Mask 0 0 0 0"
    "h_length h' = word_of_nat (length pl)" "new_close_header L body = h'"
    using assms(1,2,9) pl by (simp_all add: h'_def zero_header_def opcode_laws_def close_frame_laws_def)
  have "w_faults (fr_dst q) = []" by (rule control_open_facts(6) [OF assms(3) q(1)])
  then obtain f where f: "ws_write_frame L (fr_dst q) h' pl = ((fr_dst q)\<lparr>out := out (fr_dst q) @ [f]\<rparr>, None)"
    "parse_header f = Parsed h' pl"
    using assms(1,9) h' pl unfolding close_frame_laws_def by metis
  have "fst (closeWithProtocolError L (frame_control (inner_read D (RBase b)) pool s) x q)
      = fr_set_dst ((fr_dst q)\<lparr>out := out (fr_dst q) @ [f]\<rparr>) q"
    using f(1) h'(7) by (simp add: closeWithProtocolError_def assms(8) [symmetric] pl_def [symmetric] Let_def)
  with q f h' reading_facts(1) [OF q(1)] show ?thesis
    by (intro exI [of _ "fr_set_dst ((fr_dst q)\<lparr>out := out (fr_dst q) @ [f]\<rparr>) q"] exI [of _ f] exI [of _ h'])
      (simp add: pl_def fr_dst_def fr_set_dst_def)
qed

lemma protocol_error_frame_witness:
  "\<exists>r' f h'. ControlFrameHandler rfc_lib fr_dst fr_set_dst (\<lambda>n. replicate n 7) 2 (ex_control_header 8 [0, 1])
      (inner_read ex_dec (RBase RRaw)) (ex_control None [0, 1]) = Some (r', Some (ErrForeign 9))
    \<and> out (fr_dst r') = [f] \<and> \<not> h_masked h' \<and> parse_header f = Parsed h' [2, 232]"
proof -
  let ?r = "ex_control None [0, 1]"
  have "base_content RRaw (fr_low ?r) = [0, 1]" "out (fr_dst ?r) = []" "parse_close rfc_lib [0, 1] = (1, [])"
    "check_close rfc_lib 1 [] = Some (ErrForeign 9)"
    "close_body rfc_lib (StatusProtocolError rfc_lib) (err_text rfc_lib (ErrForeign 9)) = [3, 234]"
    "mask_payload rfc_lib [3, 234] = [2, 232]" "h_length (ex_control_header 8 [0, 1]) = 2"
    by code_simp+
  with protocol_error_frame [OF rfc_close_frame_laws rfc_opcode_laws ex_control_open [of "[0, 1]" RRaw None 8],
      where s = 2 and pool = "\<lambda>n. replicate n 7" and D = ex_dec and code = 1 and reason = "[]" and x = "ErrForeign 9"
        and body = "[3, 234]"]
  show ?thesis by (simp add: ex_control_header_def) blast
qed

section \<open>Refused frames\<close>

text \<open>A frame longer than a positive \<open>MaxFrameSize\<close> is refused with \<open>ErrFrameTooLarge\<close> before any of its payload is
  read, and no frame is installed; a reader between two messages without an open frame answers \<open>Read\<close> with
  \<open>ErrNoFrameAdvance\<close> and stays as it is.\<close>

lemma frame_too_large:
  assumes "parse_header (conn_content (lw_src (fr_low r))) = Parsed h rest"
    and "fr_SkipHeaderCheck r \<or> check_header L h (fr_state r) = None"
    and "0 < sint (fr_MaxFrameSize r)" and "sint (fr_MaxFrameSize r) < sint (h_length h)"
    and "fr_frame r = None" and "\<not> fragmented L r"
  shows "\<exists>r'. NextFrame L D onI onC r = Some (r', h, Some ErrFrameTooLarge)
    \<and> conn_content (lw_src (fr_low r')) = rest
    \<and> FrameReader_Read L D onI onC r' n = Some (r', [], Some ErrNoFrameAdvance)"
proof -
  obtain c where c: "ReadHeader conn_read (lw_src (fr_low r)) = Some (c, h, None)" "conn_content c = rest"
    by (rule conn_ReadHeader [OF assms(1)])
  let ?r = "r\<lparr>fr_low := (fr_low r)\<lparr>lw_src := c\<rparr>\<rparr>"
  have "NextFrame L D onI onC r = Some (?r, h, Some ErrFrameTooLarge)"
    using c(1) assms(2-4) by (auto simp: NextFrame_def Let_def)
  moreover have "FrameReader_Read L D onI onC ?r n = Some (?r, [], Some ErrNoFrameAdvance)"
    using assms(5,6) by (simp add: FrameReader_Read_def fragmented_def)
  ultimately show ?thesis using c(2) by auto
qed

definition ex_limited :: "(unit, unit) frame_reader" where
  "ex_limited = (NewFrameReader rfc_lib ex_flate_store (ex_conn [[0x81], [0x83, 1, 1, 1], [1, 9, 9, 9]]) 5)\<lparr>fr_MaxFrameSize := 2\<rparr>"

lemma frame_too_large_witness:
  "\<exists>r'. NextFrame rfc_lib ex_dec None None ex_limited = Some (r', ex_control_header 1 [9, 9, 9]
      \<lparr>h_masked := True, h_mask := Mask 1 1 1 1\<rparr>, Some ErrFrameTooLarge)
    \<and> conn_content (lw_src (fr_low r')) = [9, 9, 9]"
proof -
  have "parse_header (conn_content (lw_src (fr_low ex_limited)))
      = Parsed (ex_control_header 1 [9, 9, 9]\<lparr>h_masked := True, h_mask := Mask 1 1 1 1\<rparr>) [9, 9, 9]"
    by code_simp
  moreover have "check_header rfc_lib (ex_control_header 1 [9, 9, 9]\<lparr>h_masked := True, h_mask := Mask 1 1 1 1\<rparr>) (fr_state ex_limited) = None"
    "sint (fr_MaxFrameSize ex_limited) = 2" "fr_frame ex_limited = None" "\<not> fragmented rfc_lib ex_limited"
    "sint (h_length (ex_control_header 1 [9, 9, 9]\<lparr>h_masked := True, h_mask := Mask 1 1 1 1\<rparr>)) = 3"
    by code_simp+
  ultimately show ?thesis
    using frame_too_large [of ex_limited _ "[9, 9, 9]" rfc_lib ex_dec None None 0] by fastforce
qed

section \<open>Compressed messages\<close>

text \<open>C19: as soon as the raw bytes of a compressed frame are used up, \<open>Read\<close> ends the message: an answer of the
  decompressor without an error is returned together with \<open>EOF\<close>, and what the decompressor still holds is lost with the
  reader.  A message that inflates to more than the caller's buffer is cut short.\<close>

theorem compressed_message_cut:
  assumes "fr_frame r = Some (RInner RFlate)" and "\<not> fragmented L r" and "\<not> fr_CheckUTF8 r"
    and "inner_read D RFlate r n = Some (r1, bs, None)" and "lw_n (fr_low r1) = 0"
  shows "FrameReader_Read L D onI onC r n = Some (reset L r1, bs, Some EOF)"
proof -
  have "fr_state r1 = fr_state r" "fr_CheckUTF8 r1 = fr_CheckUTF8 r"
    using assms(4) by (auto dest!: bind_eq_SomeD split: option.splits)
  with assms show ?thesis by (simp add: FrameReader_Read_def read_body_def fragmented_def)
qed

text \<open>A decompressor that doubles every byte, and a frame of two compressed bytes.\<close>

definition ex_doubler :: "bytes dec" where
  "ex_doubler = \<lparr>d_new = [], d_reset = Some (\<lambda>_. []),
     d_read = (\<lambda>up d u n.
       if d = [] then Option.bind (up u 100) (\<lambda>(u, bs, e).
         let d = concat (map (\<lambda>b. [b, b]) bs) in Some (drop n d, u, take n d, e))
       else Some (drop n d, u, take n d, None)),
     d_close = None\<rparr>"

definition ex_inflating :: "(bytes, unit) frame_reader" where
  "ex_inflating = (NewFrameReader rfc_lib \<lparr>fs_obj = (\<lambda>_. NewFlateReader ex_doubler True), fs_src = (\<lambda>_. RRaw), fs_next = 1,
       fs_pool = [], fs_persistent = None\<rparr> (ex_conn [[1, 2]]) 5)
     \<lparr>fr_low := \<lparr>lw_src = ex_conn [[1, 2]], lw_n = 2, lw_cipher = None\<rparr>, fr_frame := Some (RInner RFlate),
      fr_flateReader := Some 0\<rparr>"

lemma compressed_message_cut_witness:
  "\<exists>r1. FrameReader_Read rfc_lib ex_doubler None None ex_inflating 2 = Some (reset rfc_lib r1, [1, 1], Some EOF)
    \<and> map_option snd (inner_read ex_doubler RFlate r1 2) = Some ([2, 2], None)"
proof -
  have m: "(case inner_read ex_doubler RFlate ex_inflating 2 of None \<Rightarrow> False | Some (r1, bs, e) \<Rightarrow> bs = [1, 1] \<and> e = None
      \<and> lw_n (fr_low r1) = 0 \<and> map_option snd (inner_read ex_doubler RFlate r1 2) = Some ([2, 2], None))"
    by code_simp
  then obtain r1 where r1: "inner_read ex_doubler RFlate ex_inflating 2 = Some (r1, [1, 1], None)"
    "lw_n (fr_low r1) = 0" "map_option snd (inner_read ex_doubler RFlate r1 2) = Some ([2, 2], None)"
    by (auto split: option.splits)
  have "fr_frame ex_inflating = Some (RInner RFlate)" "\<not> fragmented rfc_lib ex_inflating" "\<not> fr_CheckUTF8 ex_inflating"
    by code_simp+
  from compressed_message_cut [OF this r1(1,2)] r1(3) show ?thesis by blast
qed



section \<open>The buffers of the flate wrappers\<close>

text \<open>C25: whatever blocks the compressor writes, \<open>cbuf\<close> passes on all but the last four bytes and keeps these, so that
  the buffer is the tail \<open>00 00 ff ff\<close> exactly when the stream ends with it.\<close>

theorem cbuf_keeps_tail:
  assumes "blocks_write buffer_write (cbuf_reset, []) bs = (c, w)"
  shows "cb_err c = None \<and> cb_n c = min 4 (length (concat bs)) \<and> concat bs = w @ take (cb_n c) (cb_buf c)
    \<and> (cb_buf c = compressionTail \<longleftrightarrow> concat bs = w @ compressionTail)"
proof -
  have i: "cbuf_inv (concat bs) (c, w)" using blocks_write_inv [OF cbuf_inv_reset assms] by simp
  then have "concat bs = w @ take (cb_n c) (cb_buf c)" by (auto simp: cbuf_inv_def min_def)
  with i cbuf_inv_tail [OF i] show ?thesis by (simp add: cbuf_inv_def)
qed

lemma cbuf_keeps_tail_witness:
  "\<exists>c. blocks_write buffer_write (cbuf_reset, []) [[1], [2, 3, 4, 0, 0], [0xff], [0xff]] = (c, [1, 2, 3, 4])
    \<and> cb_buf c = compressionTail"
proof -
  let ?bs = "[[1], [2, 3, 4, 0, 0], [0xff], [0xff]] :: bytes list"
  obtain c w where b: "blocks_write buffer_write (cbuf_reset, []) ?bs = (c, w)" by force
  have "snd (blocks_write buffer_write (cbuf_reset, []) ?bs) = [1, 2, 3, 4]" by code_simp
  then have w: "w = [1, 2, 3, 4]" by (simp only: b snd_conv)
  have "concat ?bs = [1, 2, 3, 4] @ compressionTail" by code_simp
  then have "cb_buf c = compressionTail" using cbuf_keeps_tail [OF b] unfolding w by blast
  with b show ?thesis unfolding w by blast
qed

text \<open>C26: the decompressor sees the payload followed by the four bytes that the sender left out, and then \<open>EOF\<close>, in
  whatever pieces the payload arrives and is read.\<close>

theorem suffixed_appends_tail:
  assumes "\<And>i. 0 < k i" and "in_err c = EOF"
  shows "\<exists>s'. read_all (suffixed_read conn_read) k (suffixed_reset True, c) [] = Some (s', conn_content c @ [0, 0, 0xff, 0xff], EOF)"
proof -
  note bs = sticky_stream.axioms(1) [OF net.suffixed_sticky]
  have "\<exists>s' x. read_all (suffixed_read conn_read) k (suffixed_reset True, c) []
      = Some (s', [] @ (\<lambda>(sr, s). if sr_r sr then conn_content s @ compressionReadTail
          else drop (sr_pos sr) compressionReadTail) (suffixed_reset True, c), x) \<and> x \<in> (\<lambda>(sr, s). {EOF}) (suffixed_reset True, c)"
    by (rule byte_stream.read_all_content [OF bs]) (use assms in \<open>simp_all add: suffixed_reset_def\<close>)
  then show ?thesis by (simp add: suffixed_reset_def compressionReadTail_def)
qed

lemma suffixed_appends_tail_witness:
  "\<exists>s'. read_all (suffixed_read conn_read) (\<lambda>_. 3) (suffixed_reset True, ex_conn [[1, 2], [], [3, 4, 5]]) []
    = Some (s', [1, 2, 3, 4, 5, 0, 0, 0xff, 0xff], EOF)"
  using suffixed_appends_tail [of "\<lambda>_. 3" "ex_conn [[1, 2], [], [3, 4, 5]]"] by (simp add: conn_content_def)

end
