(* ===== verification/WsInflate.thy ===== *)
theory WsInflate
  imports WsRoundtrip
begin

text \<open>
  \<open>Read\<close> on compressed messages: what a decompressor promises on the stream of one message, and that the frame reader and
  the transport then deliver the message as it was before it was compressed.
\<close>

section \<open>What the decompressor promises\<close>

text \<open>The states that a client of a reader can reach by reading.\<close>

definition reads_to :: "'s rd \<Rightarrow> 's \<Rightarrow> 's \<Rightarrow> bool" where
  "reads_to rd = (\<lambda>s s'. \<exists>n bs e. rd s n = Some (s', bs, e))\<^sup>*\<^sup>*"

lemma reads_to_keeps:
  assumes "reads_to rd s s'" and "I s" and "\<And>s n s' bs e. I s \<Longrightarrow> rd s n = Some (s', bs, e) \<Longrightarrow> I s'"
  shows "I s'"
  using assms(1) unfolding reads_to_def by (induction rule: rtranclp_induct) (use assms(2,3) in blast)+

text \<open>A complete frame whose end is not the end of an eager connection: its reader answers with \<^const>\<open>EOF\<close> alone.\<close>

definition clean_end :: "lower \<Rightarrow> bool" where
  "clean_end l \<longleftrightarrow> frame_complete l
     \<and> (in_eager (lw_src l) \<longrightarrow> drop (nat (lw_n l)) (conn_content (lw_src l)) \<noteq> [])"

lemma clean_end_read:
  assumes "base_read b l n = Some (l', bs, e)" and "clean_end l"
  shows "clean_end l'" and "e = Some x \<Longrightarrow> x = EOF"
proof -
  note f = base_read_frame [OF assms(1)] and e = conn_env_fields [OF base_read_frame(4) [OF assms(1)]]
  show "clean_end l'" using assms f e base_read_complete [OF assms(1)] by (simp add: clean_end_def)
  assume "e = Some x"
  with assms base_read_error [of b l n l' bs x] f(2) show "x = EOF" by (auto simp: clean_end_def)
qed

interpretation clean: sticky_stream "base_read b" "\<lambda>l. base_ok b l \<and> clean_end l" "base_content b" "\<lambda>_. {EOF}" raw_stall for b
proof (unfold_locales, goal_cases)
  case (3 l n l' bs)
  then show ?case using base.rd_more [of b l n l' bs] clean_end_read(1) by blast
next
  case (4 l n l' bs x)
  then show ?case using base.rd_err [of b l n l' bs x] clean_end_read(2) by blast
next
  case (5 l n l' bs x)
  then show ?case using base.rd_sticky [of b l n l' bs x] clean_end_read(1) by blast
qed (use base.rd_total base.rd_len in blast)+

text \<open>
  \<open>inflates D z p n\<close>: a fresh decompressor on a source with the bytes \<open>z\<close>, followed by the tail that the suffixed reader
  adds, answers the first \<open>Read\<close> with a buffer of \<open>n\<close> bytes by the whole message \<open>p\<close>; it uses the source by reading from it alone,
  and reads it up.
\<close>

definition inflates :: "'d dec \<Rightarrow> bytes \<Rightarrow> bytes \<Rightarrow> nat \<Rightarrow> bool" where
  "inflates D z p n \<longleftrightarrow>
     (\<forall>b l. base_ok b l \<longrightarrow> clean_end l \<longrightarrow> base_content b l = z \<longrightarrow>
        (\<exists>d sr l' e. d_read D (suffixed_read (base_read b)) (d_new D) (suffixed_reset True, l) n = Some (d, (sr, l'), p, e)
           \<and> (e = None \<or> e = Some EOF) \<and> reads_to (base_read b) l l' \<and> base_content b l' = []))"

text \<open>\<open>Reset\<close> makes a decompressor as if new, as \<open>flate.Resetter\<close> documents.\<close>

definition resettable :: "('d, 'u) dec_ops \<Rightarrow> bool" where
  "resettable D \<longleftrightarrow> (\<forall>reset d. d_reset D = Some reset \<longrightarrow> reset d = d_new D)"

lemma fl_reset_new: "resettable D \<Longrightarrow> fl_reset D fl True = \<lparr>fl_d = Some (d_new D), fl_sr = suffixed_reset True, fl_err = None\<rparr>"
  using fl_reset_fresh [of D fl True] by (simp add: resettable_def NewFlateReader_def fl_reset_def)

text \<open>The two ways in which \<open>newWebsocketTransport\<close> gives the frame reader its flate readers: the pool, or the persistent one.\<close>

definition flate_source :: "'d dec \<Rightarrow> ('d, 'x) frame_reader \<Rightarrow> bool" where
  "flate_source D r \<longleftrightarrow> resettable D \<and>
     ((\<exists>get. fr_GetFlateReader r = Some get \<and> (\<forall>st b. get st b = pool_GetFlateReader D st b)
         \<and> fr_PutFlateReader r = Some (pool_PutFlateReader D))
      \<or> fr_GetFlateReader r = Some (persistent_GetFlateReader D) \<and> fr_PutFlateReader r = Some persistent_PutFlateReader
         \<and> fs_persistent (fr_store r) \<noteq> None)"

lemma reader_reset_simps [simp]:
  "fs_persistent (reader_reset D st a src) = fs_persistent st" "fs_pool (reader_reset D st a src) = fs_pool st"
  "fs_obj (reader_reset D st a src) a = fl_reset D (fs_obj st a) (src \<noteq> None)"
  "fs_src (reader_reset D st a (Some b)) a = b"
  by (simp_all add: reader_reset_def)

lemma flate_source_get:
  assumes "flate_source D r"
  obtains get st a where "fr_GetFlateReader r = Some get" and "get (fr_store r) b = Some (st, a)"
    and "fs_src st a = b" and "fs_obj st a = \<lparr>fl_d = Some (d_new D), fl_sr = suffixed_reset True, fl_err = None\<rparr>"
    and "fs_persistent st = fs_persistent (fr_store r)"
proof -
  have new: "fl_reset D fl True = \<lparr>fl_d = Some (d_new D), fl_sr = suffixed_reset True, fl_err = None\<rparr>" for fl
    using assms fl_reset_new by (auto simp: flate_source_def)
  from assms obtain get where get: "fr_GetFlateReader r = Some get"
    "(\<forall>st b. get st b = pool_GetFlateReader D st b) \<or> get = persistent_GetFlateReader D \<and> fs_persistent (fr_store r) \<noteq> None"
    by (auto simp: flate_source_def)
  from get(2) show thesis
  proof
    assume pool: "\<forall>st b. get st b = pool_GetFlateReader D st b"
    obtain st a where g: "reader_pool_get D (fr_store r) = (st, a)" by force
    have "fs_persistent st = fs_persistent (fr_store r)"
      using g by (auto simp: reader_pool_get_def split: list.splits)
    with that [OF get(1), of "reader_reset D st a (Some b)" a] pool g new show thesis
      by (simp add: pool_GetFlateReader_def)
  next
    assume "get = persistent_GetFlateReader D \<and> fs_persistent (fr_store r) \<noteq> None"
    then obtain a where "get = persistent_GetFlateReader D" "fs_persistent (fr_store r) = Some a" by auto
    with that [OF get(1), of "reader_reset D (fr_store r) a (Some b)" a] new show thesis
      by (simp add: persistent_GetFlateReader_def)
  qed
qed

section \<open>A compressed frame\<close>

text \<open>
  What \<open>NextFrame\<close> makes of a data frame with RSV1: the flate reader on the frame's raw or unmasked payload, and a header
  without RSV1.
\<close>

definition frame_inflates :: "('x, 'cw) ws_lib \<Rightarrow> ('d, 'x) frame_reader \<Rightarrow> header \<Rightarrow> header \<Rightarrow> bool" where
  "frame_inflates L r h h' \<longleftrightarrow> h_fin h' = h_fin h \<and> (fr_SkipHeaderCheck r \<or> check_header L h (fr_state r) = None)
     \<and> \<not> (0 < sint (fr_MaxFrameSize r) \<and> sint (fr_MaxFrameSize r) < sint (h_length h))
     \<and> is_compressed L h = (True, None) \<and> unset_bits (fr_Extensions r) h = (h', None)"

lemma flate_source_setup: "fr_setup L r' = fr_setup L r \<Longrightarrow> flate_source D r' = flate_source D r"
  by (simp add: fr_setup_def flate_source_def)

lemma flate_put_persistent:
  assumes "flate_source D r"
  obtains put where "fr_PutFlateReader r = Some put" and "\<And>st a. fs_persistent (put st a) = fs_persistent st"
  using assms by (auto simp: flate_source_def pool_PutFlateReader_def persistent_PutFlateReader_def [abs_def] Let_def)

lemma frame_inflate_read:
  fixes r :: "('d, 'x) frame_reader" and L :: "('x, 'cw) ws_lib"
  assumes laws: "state_laws L" and idle: "idle L r" and fs: "flate_source D r"
    and ph: "parse_header (conn_content (lw_src (fr_low r))) = Parsed h rest"
    and inf: "frame_inflates L r h h'" and enough: "nat (sint (h_length h)) \<le> length rest"
    and eager: "in_eager (lw_src (fr_low r)) \<longrightarrow> drop (nat (sint (h_length h))) rest \<noteq> []"
    and law: "inflates D (unmask h (take (nat (sint (h_length h))) rest)) p n"
  shows "\<exists>r1 l st a f. NextFrame L D onI None r = Some (r1, h', None)
    \<and> fr_setup L r = fr_setup L (r\<lparr>fr_low := l, fr_store := st\<rparr>) \<and> lw_n l = 0
    \<and> conn_content (lw_src l) = drop (nat (sint (h_length h))) rest \<and> conn_env (lw_src l) = conn_env (lw_src (fr_low r))
    \<and> FrameReader_Read L D onI None r1 n =
        (let r2 = r\<lparr>fr_low := l, fr_store := st, fr_flateReader := Some a, fr_opCode := h_op h', fr_frame := f,
                    fr_state := (if h_fin h then fr_state r else st_set L (fr_state r) (StateFragmented L))\<rparr>
         in Some (if h_fin h then (reset L r2, p, Some EOF) else (resetFragment r2, p, None)))"
proof -
  let ?c = "lw_src (fr_low r)" and ?n = "nat (sint (h_length h))"
  from idle have nf: "\<not> fragmented L r" and utf8: "\<not> fr_CheckUTF8 r" and quiet: "quiet ?c" by (auto simp: idle_def)
  note nonneg = parse_header_length [OF ph]
  obtain c1 where rh: "ReadHeader conn_read ?c = Some (c1, h, None)" and c1: "conn_content c1 = rest" "conn_env c1 = conn_env ?c"
    by (rule conn_ReadHeader [OF ph])
  obtain l1 b where at: "attach_raw h ((fr_low r)\<lparr>lw_src := c1\<rparr>) = (l1, b)" by force
  note l1 = attach_raw_facts [OF at nonneg, simplified, unfolded c1(1), OF enough]
  obtain get st a where get: "fr_GetFlateReader r = Some get" "get (fr_store r) b = Some (st, a)" "fs_src st a = b"
    "fs_obj st a = \<lparr>fl_d = Some (d_new D), fl_sr = suffixed_reset True, fl_err = None\<rparr>"
    "fs_persistent st = fs_persistent (fr_store r)"
    by (rule flate_source_get [OF fs])
  have frg: "fragmented L (r\<lparr>fr_low := l\<rparr>) = fragmented L r" for l by (simp add: fragmented_def)
  have clr: "st_clear L (fr_state r) (StateFragmented L) = fr_state r"
    using nf state_laws_clear(3) [OF laws] by (simp add: fragmented_def)
  let ?st' = "if h_fin h then fr_state r else st_set L (fr_state r) (StateFragmented L)"
  let ?r1 = "r\<lparr>fr_low := l1, fr_store := st, fr_flateReader := Some a, fr_opCode := h_op h', fr_frame := Some (RInner RFlate),
      fr_state := ?st'\<rparr>"
  have NF: "NextFrame L D onI None r = Some (?r1, h', None)"
    using inf nf utf8 clr
    by (auto simp: NextFrame_def rh Let_def at frg frame_inflates_def get(1,2) install_frame_def fragmented_def)
  have "drop ?n (conn_content (lw_src l1)) = drop ?n rest" using l1 c1 by simp
  then have ce: "clean_end l1" using l1 c1 eager conn_env_fields [OF c1(2)] by (simp add: clean_end_def)
  obtain d sr l2 e where rd: "d_read D (suffixed_read (base_read b)) (d_new D) (suffixed_reset True, l1) n = Some (d, (sr, l2), p, e)"
    and e: "e = None \<or> e = Some EOF" and to: "reads_to (base_read b) l1 l2" and used: "base_content b l2 = []"
    using law l1 ce unfolding inflates_def by metis
  let ?I = "\<lambda>l. base_ok b l \<and> clean_end l \<and> drop (nat (lw_n l)) (conn_content (lw_src l)) = drop ?n rest
      \<and> conn_env (lw_src l) = conn_env ?c"
  have "?I l2"
  proof (rule reads_to_keeps [OF to])
    show "?I l1" using l1 ce c1 by simp
    show "?I l'" if "?I l" "base_read b l n = Some (l', bs, e)" for l n l' bs e
      using that base_read_frame [OF that(2)] clean_end_read(1) [OF that(2)] clean.rd_more [of b l n l' bs]
        clean.rd_sticky [of b l n l' bs] by (cases e) auto
  qed
  then have l2: "base_ok b l2" "clean_end l2" "drop (nat (lw_n l2)) (conn_content (lw_src l2)) = drop ?n rest"
    "conn_env (lw_src l2) = conn_env ?c" by blast+
  have n0: "lw_n l2 = 0"
    using base_content_length [OF l2(1)] l2(2) used by (simp add: clean_end_def frame_complete_def)
  let ?st = "st\<lparr>fs_obj := (fs_obj st)(a := \<lparr>fl_d = Some d, fl_sr = sr, fl_err = None\<rparr>)\<rparr>"
  define r2 where "r2 = r\<lparr>fr_low := l2, fr_store := ?st, fr_flateReader := Some a, fr_opCode := h_op h',
      fr_frame := Some (RInner RFlate), fr_state := ?st'\<rparr>"
  have "frame_read L D (RInner RFlate) ?r1 n = Some (?r1\<lparr>fr_low := l2, fr_store := ?st\<rparr>, p, e)"
    by (simp add: fl_read_def get(3,4) rd)
  also have "?r1\<lparr>fr_low := l2, fr_store := ?st\<rparr> = r2" by (rule frame_reader.equality) (simp_all add: r2_def)
  finally have fr: "frame_read L D (RInner RFlate) ?r1 n = Some (r2, p, e)" .
  have r2: "fragmented L r2 \<longleftrightarrow> \<not> h_fin h" "lw_n (fr_low r2) = 0" "\<not> fr_CheckUTF8 r2"
    using nf laws n0 utf8 by (auto simp: r2_def fragmented_def state_laws_def)
  have "read_body L D (RInner RFlate) ?r1 n = Some (if h_fin h then (reset L r2, p, Some EOF) else (resetFragment r2, p, None))"
    unfolding read_body_def fr using e r2 by auto
  then have FR: "FrameReader_Read L D onI None ?r1 n = Some (if h_fin h then (reset L r2, p, Some EOF) else (resetFragment r2, p, None))"
    by (simp add: FrameReader_Read_def)
  have "fr_setup L r = fr_setup L (r\<lparr>fr_low := l2, fr_store := ?st\<rparr>)"
    using conn_env_fields [OF l2(4)] get(5) by (simp add: fr_setup_def fr_cfg_def)
  moreover have "conn_content (lw_src l2) = drop ?n rest" using l2(3) n0 by simp
  ultimately show ?thesis using NF n0 FR l2(4) unfolding r2_def Let_def by blast
qed

lemma frame_inflated:
  fixes r :: "('d, 'x) frame_reader" and L :: "('x, 'cw) ws_lib"
  assumes laws: "state_laws L" and idle: "idle L r" and fs: "flate_source D r"
    and ph: "parse_header (conn_content (lw_src (fr_low r))) = Parsed h rest"
    and inf: "frame_inflates L r h h'" and enough: "nat (sint (h_length h)) \<le> length rest"
    and eager: "in_eager (lw_src (fr_low r)) \<longrightarrow> drop (nat (sint (h_length h))) rest \<noteq> []"
    and law: "inflates D (unmask h (take (nat (sint (h_length h))) rest)) p n" and fin: "h_fin h"
  shows "\<exists>r1 r2. NextFrame L D onI None r = Some (r1, h', None)
    \<and> FrameReader_Read L D onI None r1 n = Some (r2, p, Some EOF)
    \<and> idle L r2 \<and> conn_content (lw_src (fr_low r2)) = drop (nat (sint (h_length h))) rest \<and> fr_setup L r2 = fr_setup L r
    \<and> conn_env (fr_dst r2) = conn_env (fr_dst r)"
proof -
  obtain r1 l st a f where r: "NextFrame L D onI None r = Some (r1, h', None)"
    "fr_setup L r = fr_setup L (r\<lparr>fr_low := l, fr_store := st\<rparr>)" "lw_n l = 0"
    "conn_content (lw_src l) = drop (nat (sint (h_length h))) rest" "conn_env (lw_src l) = conn_env (lw_src (fr_low r))"
    "FrameReader_Read L D onI None r1 n = Some (reset L (r\<lparr>fr_low := l, fr_store := st, fr_flateReader := Some a,
       fr_opCode := h_op h', fr_frame := f, fr_state := fr_state r\<rparr>), p, Some EOF)"
    using frame_inflate_read [OF laws idle fs ph inf enough eager law, of onI] fin by (auto simp: Let_def)
  let ?r2 = "reset L (r\<lparr>fr_low := l, fr_store := st, fr_flateReader := Some a, fr_opCode := h_op h', fr_frame := f,
      fr_state := fr_state r\<rparr>)"
  obtain put where put: "fr_PutFlateReader r = Some put" "\<And>st a. fs_persistent (put st a) = fs_persistent st"
    by (rule flate_put_persistent [OF fs]) blast
  have "quiet (lw_src l)" using quiet_env [OF r(5)] idle by (simp add: idle_def)
  then have "idle L ?r2" using idle by (simp add: idle_def reset_def Let_def fragmented_def low_detach_def)
  moreover have "conn_content (lw_src (fr_low ?r2)) = drop (nat (sint (h_length h))) rest"
    using r(4) by (simp add: reset_def Let_def low_detach_def)
  moreover have "fr_setup L ?r2 = fr_setup L r"
    using put r(2) by (simp add: fr_setup_def reset_def Let_def low_detach_def fr_cfg_def)
  moreover have "conn_env (fr_dst ?r2) = conn_env (fr_dst r)" using r(5) by (simp add: fr_dst_def reset_def Let_def low_detach_def)
  ultimately show ?thesis using r(1,6) by blast
qed

section \<open>A compressed message\<close>

text \<open>
  With extensions negotiated \<open>CheckHeader\<close> admits reserved bits: RSV1 on a data frame, in the two roles that
  \<open>newWebsocketTransport\<close> gives the frame reader.
\<close>

definition extended_laws :: "('x, 'cw) ws_lib \<Rightarrow> bool" where
  "extended_laws L \<longleftrightarrow>
     (\<forall>h. h_op h \<in> {OpText L, OpBinary L} \<longrightarrow> h_rsv h = 4 \<longrightarrow> 0 \<le> sint (h_length h) \<longrightarrow>
        (h_masked h \<longrightarrow> check_header L h (StateServerSide L OR StateExtended L) = None)
        \<and> (\<not> h_masked h \<longrightarrow> check_header L h (StateClientSide L OR StateExtended L) = None))"

text \<open>The transport of a peer that negotiated compression.\<close>

definition inflate_peer :: "('x, 'cw) ws_lib \<Rightarrow> 'd dec \<Rightarrow> bool \<Rightarrow> ('cert, 'c, 'd, 'x) ws_transport \<Rightarrow> bool" where
  "inflate_peer L D client t \<longleftrightarrow> extended_laws L
     \<and> fr_state (t_reader t) = (if client then StateServerSide L else StateClientSide L) OR StateExtended L
     \<and> fr_Extensions (t_reader t) = [perMessageDeflateRecvExt] \<and> flate_source D (t_reader t)"

lemma setup_inflate_peer:
  assumes "t_setup L t' = t_setup L t" and "state_laws L" and "idle L (t_reader t)" and "idle L (t_reader t')"
  shows "inflate_peer L D client t' = inflate_peer L D client t"
proof -
  have s: "fr_setup L (t_reader t') = fr_setup L (t_reader t)" using assms(1) by (simp add: t_setup_def)
  moreover have "fr_Extensions (t_reader t') = fr_Extensions (t_reader t)"
    using fr_setup_fields(3) [OF s] by (simp add: fr_cfg_def)
  ultimately show ?thesis using setup_peer(3) [OF assms] flate_source_setup [OF s] by (simp add: inflate_peer_def)
qed

text \<open>A data frame with RSV1, final or not.\<close>

definition wire_part :: "bool \<Rightarrow> bool \<Rightarrow> byte \<Rightarrow> mask \<Rightarrow> bytes \<Rightarrow> bytes" where
  "wire_part fin client op msk z =
     encode_header fin True op (if client then Some msk else None) (length z) @ (if client then cipher_spec msk 0 z else z)"

lemma wire_part_frame: "wire_part True client op msk z = wire_frame client op msk True z"
  by (simp add: wire_part_def wire_frame_def)

lemma wire_part_inflates:
  fixes t :: "('cert, 'c, 'd, 'x) ws_transport" and L :: "('x, 'cw) ws_lib"
  assumes ready: "ready L t" and peer: "peer_of L client op t" "inflate_peer L D client t" and fits: "fits t z"
    and net: "conn_content (t_conn t) = wire_part fin client op msk z @ rest"
  obtains h y where "parse_header (conn_content (lw_src (fr_low (t_reader t)))) = Parsed h y" and "h_fin h = fin" and "h_op h = op"
    and "frame_inflates L (t_reader t) h (h\<lparr>h_rsv := 0\<rparr>)" and "unmask h (take (nat (sint (h_length h))) y) = z"
    and "nat (sint (h_length h)) \<le> length y" and "drop (nat (sint (h_length h))) y = rest"
proof -
  let ?r = "t_reader t"
  from ready have lib: "lib_ok L" "compression_laws L" by (auto simp: ready_def)
  then have ops: "opcode_laws L" by (auto simp: lib_ok_def)
  from peer(1) ops have op: "op AND 0x0f = op" "op \<in> {OpText L, OpBinary L}" by (auto simp: peer_of_def opcode_laws_def)
  from fits have len: "length z < 2 ^ 63" by (simp add: fits_def)
  note l = unat_i64_small [OF len]
  let ?h = "\<lparr>h_fin = fin, h_rsv = 4, h_op = op, h_masked = client, h_mask = (if client then msk else Mask 0 0 0 0),
      h_length = word_of_nat (length z)\<rparr>"
  let ?y = "(if client then cipher_spec msk 0 z else z) @ rest"
  have ph: "parse_header (conn_content (lw_src (fr_low ?r))) = Parsed ?h ?y"
    using parse_encode_header [OF op(1) len, of fin True "if client then Some msk else None" ?y] net
    by (simp add: t_conn_def fr_dst_def wire_part_def)
  have "check_header L ?h (fr_state ?r) = None" using peer(2) op(2) l by (auto simp: inflate_peer_def extended_laws_def)
  moreover have "h_rsv ?h AND 4 \<noteq> 0" by simp
  then have "is_compressed L ?h = (True, None)" using lib(2) op(2) unfolding compression_laws_def by auto
  moreover have "unset_bits (fr_Extensions ?r) ?h = (?h\<lparr>h_rsv := 0\<rparr>, None)"
    using peer(2) by (simp add: inflate_peer_def perMessageDeflateRecvExt_def)
  moreover have "\<not> (0 < sint (fr_MaxFrameSize ?r) \<and> sint (fr_MaxFrameSize ?r) < sint (h_length ?h))"
    using fits l by (auto simp: fits_def)
  ultimately have "frame_inflates L ?r ?h (?h\<lparr>h_rsv := 0\<rparr>)" by (simp add: frame_inflates_def)
  from that [OF ph _ _ this] show thesis using l by (simp add: unmask_def)
qed

text \<open>\<open>Read\<close> of a transport between messages, when the next frame opens a message of an accepted type.\<close>

lemma Read_opens:
  assumes "\<not> t_msgReader t" and "NextFrame L D (Some (t_OnIntermediate L t)) None (t_reader t) = Some (r1, h, None)"
    and "\<not> is_control L (h_op h)" and "h_op h AND o_OpCode (t_options t) \<noteq> 0"
  shows "Read L D t n = read_message L D (t\<lparr>t_reader := r1, t_msgReader := True\<rparr>) n"
proof -
  have "next_message L D t = Some (t\<lparr>t_reader := r1, t_msgReader := True\<rparr>, None)"
    using assms by (subst next_message.simps) simp
  with assms(1) show ?thesis by (simp add: Read_def)
qed

lemma t_OnIntermediate_cong: "t_OnIntermediate L (t\<lparr>t_reader := r, t_msgReader := m\<rparr>) = t_OnIntermediate L t"
  by (simp add: t_OnIntermediate_def)

text \<open>Reading a message writes nothing, and changes nothing but the reader.\<close>

definition heard :: "('cert, 'c, 'd, 'x) ws_transport \<Rightarrow> ('cert, 'c, 'd, 'x) ws_transport \<Rightarrow> bool" where
  "heard t t' \<longleftrightarrow> conn_env (t_conn t') = conn_env (t_conn t) \<and> t' = t\<lparr>t_reader := t_reader t', t_msgReader := t_msgReader t'\<rparr>"

lemma read_inflated:
  fixes t :: "('cert, 'c, 'd, 'x) ws_transport" and L :: "('x, 'cw) ws_lib"
  assumes ready: "ready L t" and peer: "peer_of L client op t" "inflate_peer L D client t" and fits: "fits t z"
    and law: "inflates D z p (k 0)"
    and net: "conn_content (t_conn t) = wire_frame client op msk True z @ rest" and eager: "in_eager (t_conn t) \<longrightarrow> rest \<noteq> []"
  shows "\<exists>t'. read_all (Read L D) k t [] = Some (t', p, EOF) \<and> ready L t' \<and> conn_content (t_conn t') = rest
    \<and> t_setup L t' = t_setup L t \<and> heard t t'"
proof -
  let ?r = "t_reader t" and ?cb = "Some (t_OnIntermediate L t)"
  from ready have idle: "idle L ?r" and m: "\<not> t_msgReader t" and sl: "state_laws L" and ops: "opcode_laws L"
    by (auto simp: ready_def lib_ok_def)
  from peer(1) ops have op: "\<not> is_control L op" "op AND o_OpCode (t_options t) \<noteq> 0"
    by (auto simp: peer_of_def opcode_laws_def word_le_nat_alt)
  obtain h y where h: "parse_header (conn_content (lw_src (fr_low ?r))) = Parsed h y" "h_fin h" "h_op h = op"
    "frame_inflates L ?r h (h\<lparr>h_rsv := 0\<rparr>)" "unmask h (take (nat (sint (h_length h))) y) = z"
    "nat (sint (h_length h)) \<le> length y" "drop (nat (sint (h_length h))) y = rest"
    by (rule wire_part_inflates [OF ready peer fits, of True]) (use net in \<open>auto simp: wire_part_frame\<close>)
  have fs: "flate_source D ?r" using peer(2) by (simp add: inflate_peer_def)
  note fi = frame_inflated [where onI = ?cb and n = "k 0" and p = p, OF sl idle fs h(1,4,6) _ _ h(2)]
  obtain r1 r2 where r: "NextFrame L D ?cb None ?r = Some (r1, h\<lparr>h_rsv := 0\<rparr>, None)"
    "FrameReader_Read L D ?cb None r1 (k 0) = Some (r2, p, Some EOF)"
    "idle L r2" "conn_content (lw_src (fr_low r2)) = rest" "fr_setup L r2 = fr_setup L ?r" "conn_env (fr_dst r2) = conn_env (fr_dst ?r)"
    using fi law eager by (auto simp: h(5,7) t_conn_def fr_dst_def)
  let ?t' = "t\<lparr>t_reader := r2, t_msgReader := False\<rparr>"
  have "Read L D t (k 0) = Some (?t', p, Some EOF)"
    using Read_opens [OF m r(1)] op h(3) r(2) by (simp add: read_message_def t_OnIntermediate_cong)
  then have "read_all (Read L D) k t [] = Some (?t', p, EOF)" by (subst read_all.simps) simp
  with ready r(3-6) show ?thesis
    by (intro exI [of _ ?t']) (simp add: ready_def t_conn_def fr_dst_def t_setup_def heard_def)
qed

section \<open>A compressed message in fragments\<close>

text \<open>
  Only the first fragment has RSV1, so \<open>NextFrame\<close> installs a flate reader for it alone: the reader of a continuation frame
  hands out the payload as it is.
\<close>

lemma read_fragment_inflated:
  fixes t :: "('cert, 'c, 'd, 'x) ws_transport" and L :: "('x, 'cw) ws_lib"
  assumes ready: "ready L t" and peer: "peer_of L client op t" "inflate_peer L D client t" and fits: "fits t z"
    and law: "inflates D z p (k 0)" and k: "\<And>i. 0 < k i"
    and net: "conn_content (t_conn t) = wire_part False client op msk z @ rest"
    and more: "frags L (fr_cfg (t_reader t)) (st_set L (fr_state (t_reader t)) (StateFragmented L)) rest = Some (q, left)"
  shows "\<exists>t' x. read_all (Read L D) k t [] = Some (t', p @ q, x) \<and> (x = EOF \<or> in_eager (t_conn t))"
proof -
  let ?r = "t_reader t" and ?cb = "Some (t_OnIntermediate L t)"
  from ready have idle: "idle L ?r" and m: "\<not> t_msgReader t" and sl: "state_laws L" and ops: "opcode_laws L" and lib: "lib_ok L"
    by (auto simp: ready_def lib_ok_def)
  from peer(1) ops have op: "\<not> is_control L op" "op AND o_OpCode (t_options t) \<noteq> 0"
    by (auto simp: peer_of_def opcode_laws_def word_le_nat_alt)
  obtain h y where h: "parse_header (conn_content (lw_src (fr_low ?r))) = Parsed h y" "\<not> h_fin h" "h_op h = op"
    "frame_inflates L ?r h (h\<lparr>h_rsv := 0\<rparr>)" "unmask h (take (nat (sint (h_length h))) y) = z"
    "nat (sint (h_length h)) \<le> length y" "drop (nat (sint (h_length h))) y = rest"
    by (rule wire_part_inflates [OF ready peer fits net]) auto
  have fs: "flate_source D ?r" using peer(2) by (simp add: inflate_peer_def)
  have "rest \<noteq> []" using more by auto
  with frame_inflate_read [where onI = ?cb and n = "k 0" and p = p, OF sl idle fs h(1,4,6)] law h(2)
  obtain r1 l st a f where r: "NextFrame L D ?cb None ?r = Some (r1, h\<lparr>h_rsv := 0\<rparr>, None)"
    "fr_setup L ?r = fr_setup L (?r\<lparr>fr_low := l, fr_store := st\<rparr>)" "lw_n l = 0" "conn_content (lw_src l) = rest" "conn_env (lw_src l) = conn_env (lw_src (fr_low ?r))"
    "FrameReader_Read L D ?cb None r1 (k 0) = Some (resetFragment (?r\<lparr>fr_low := l, fr_store := st, fr_flateReader := Some a,
       fr_opCode := op, fr_frame := f, fr_state := st_set L (fr_state ?r) (StateFragmented L)\<rparr>), p, None)"
    by (auto simp: h(3,5,7) Let_def)
  let ?r2 = "resetFragment (?r\<lparr>fr_low := l, fr_store := st, fr_flateReader := Some a, fr_opCode := op, fr_frame := f,
      fr_state := st_set L (fr_state ?r) (StateFragmented L)\<rparr>)"
  let ?t2 = "t\<lparr>t_reader := ?r2, t_msgReader := True\<rparr>"
  have rd: "Read L D t (k 0) = Some (?t2, p, None)"
    using Read_opens [OF m r(1)] op h(3) r(6) by (simp add: read_message_def t_OnIntermediate_cong)
  have frag: "fragmented L ?r2" using sl by (simp add: fragmented_def resetFragment_def state_laws_def)
  have pend: "pending L ?r2 = Some (q, left)"
    using frag more r(3,4) by (simp add: pending_def) (simp add: resetFragment_def low_detach_def fr_cfg_def)
  obtain put where put: "fr_PutFlateReader ?r = Some put" "\<And>st a. fs_persistent (put st a) = fs_persistent st"
    by (rule flate_put_persistent [OF fs]) blast
  have "msg_ok L D ?cb ?r2"
    using t_OnIntermediate_polite [OF lib, where D = D and t = t] sl idle put r(3) quiet_env [OF r(5)] frag pend
    by (simp add: msg_ok_def) (simp add: resetFragment_def low_detach_def idle_def put_keeps_def frame_complete_def)
  then have ok: "t_ok L D ?t2" using lib by (simp add: t_ok_def t_OnIntermediate_cong)
  have "t_content L ?t2 = q" using pend by (simp add: t_content_def msg_content_def) (simp add: resetFragment_def)
  moreover have "t_fin L ?t2 \<subseteq> (if in_eager (t_conn t) then UNIV else {EOF})"
    using r(2) by (simp add: t_fin_def t_conn_def fr_dst_def fr_setup_def) (simp add: resetFragment_def low_detach_def)
  ultimately obtain t' x where "read_all (Read L D) k ?t2 p = Some (t', p @ q, x)" "x = EOF \<or> in_eager (t_conn t)"
    using read_all_transport [where k = k and acc = p, OF ok k] by (auto split: if_splits)
  moreover have "read_all (Read L D) k t [] = read_all (Read L D) k ?t2 p" using rd by (subst read_all.simps) simp
  ultimately show ?thesis by auto
qed

section \<open>Messages, compressed or not\<close>

text \<open>What is on the wire for a message \<open>p\<close>: the message, or what the compressor made of it.\<close>

definition wired :: "bool \<Rightarrow> byte \<Rightarrow> mask \<times> bytes \<times> bytes option \<Rightarrow> bytes" where
  "wired client op = (\<lambda>(msk, p, c). case c of None \<Rightarrow> wire_frame client op msk False p | Some z \<Rightarrow> wire_frame client op msk True z)"

text \<open>What the receiver with buffers \<open>k\<close> can take.\<close>

definition takes :: "'d dec \<Rightarrow> (nat \<Rightarrow> nat) \<Rightarrow> ('cert, 'c, 'd, 'x) ws_transport \<Rightarrow> mask \<times> bytes \<times> bytes option \<Rightarrow> bool" where
  "takes D k t = (\<lambda>(_, p, c). case c of None \<Rightarrow> fits t p | Some z \<Rightarrow> fits t z \<and> inflates D z p (k 0))"

lemma receive_wired:
  assumes "ready L t" and "peer_of L client op t" and "inflate_peer L D client t" and "\<And>i. 0 < k i"
    and "\<forall>m \<in> set ms. takes D k t m"
    and "conn_content (t_conn t) = concat (map (wired client op) ms) @ z" and "in_eager (t_conn t) \<longrightarrow> z \<noteq> []"
  shows "\<exists>t'. receive L D k t (length ms) = Some (t', map (fst \<circ> snd) ms) \<and> ready L t' \<and> conn_content (t_conn t') = z"
  using assms(1-3,5-)
proof (induction ms arbitrary: t)
  case (Cons m ms)
  obtain msk p c where m: "m = (msk, p, c)" by (metis prod_cases3)
  let ?z = "concat (map (wired client op) ms) @ z"
  have sl: "state_laws L" and idle: "idle L (t_reader t)" using Cons.prems(1) by (auto simp: ready_def lib_ok_def)
  have e: "in_eager (t_conn t) \<longrightarrow> ?z \<noteq> []" using Cons.prems(6) by simp
  have "\<exists>t1. read_all (Read L D) k t [] = Some (t1, p, EOF) \<and> ready L t1 \<and> conn_content (t_conn t1) = ?z \<and> t_setup L t1 = t_setup L t"
  proof (cases c)
    case None
    have "conn_content (t_conn t) = wires client op [(msk, p)] @ ?z" "fits t p"
      using Cons.prems(4,5) by (simp_all add: m None wired_def takes_def)
    with receive_wires [where k = k and D = D and ms = "[(msk, p)]" and z = ?z, OF Cons.prems(1,2) assms(4)] e
    obtain t1 where "receive L D k t 1 = Some (t1, [p])" "ready L t1" "conn_content (t_conn t1) = ?z" "t_setup L t1 = t_setup L t"
      by auto
    moreover from this(1) have "read_all (Read L D) k t [] = Some (t1, p, EOF)"
      by (auto split: if_splits dest!: bind_eq_SomeD)
    ultimately show ?thesis by blast
  next
    case (Some y)
    have y: "conn_content (t_conn t) = wire_frame client op msk True y @ ?z" "fits t y" "inflates D y p (k 0)"
      using Cons.prems(4,5) by (simp_all add: m Some wired_def takes_def)
    from read_inflated [where k = k, OF Cons.prems(1-3) y(2,3,1) e] show ?thesis by blast
  qed
  then obtain t1 where t1: "read_all (Read L D) k t [] = Some (t1, p, EOF)" "ready L t1" "conn_content (t_conn t1) = ?z"
    "t_setup L t1 = t_setup L t" by blast
  have idle1: "idle L (t_reader t1)" using t1(2) by (simp add: ready_def)
  note same = setup_peer(1,2) [OF t1(4) sl idle idle1] setup_inflate_peer [OF t1(4) sl idle idle1] t_setup_conn [OF t1(4)]
  have "takes D k t1 m = takes D k t m" for m using same(2) by (simp add: takes_def split: prod.split option.split)
  then have tk: "\<forall>m \<in> set ms. takes D k t1 m" using Cons.prems(4) by simp
  obtain t' where "receive L D k t1 (length ms) = Some (t', map (fst \<circ> snd) ms)" "ready L t'" "conn_content (t_conn t') = z"
    using Cons.IH [OF t1(2) _ _ tk t1(3)] same Cons.prems(2,3,6) by auto
  with t1(1) show ?case by (simp add: m)
qed simp

end
