(* ===== verification/WsDeflate.thy ===== *)
theory WsDeflate
  imports WsInflate WsLifecycle
begin

text \<open>
  \<open>Write\<close> of compressed messages: what a compressor promises on one message, that the writers of a transport stay usable
  from one message to the next, and the round trip of messages of which some are compressed and some are not.
\<close>

section \<open>What the compressor promises\<close>

text \<open>A compressor as \<open>NewWriter\<close> or \<open>Reset\<close> leaves it; the documentation of \<open>Reset\<close> says that the two are the same.\<close>

definition fresh :: "'c comp_ops \<Rightarrow> 'c \<Rightarrow> bool" where
  "fresh C c \<longleftrightarrow> c_new C = Some c \<or> (\<exists>reset c0. c_reset C = Some reset \<and> c = reset c0)"

text \<open>
  \<open>deflates C Z p\<close>: from a fresh compressor, \<open>Write\<close> of the message \<open>p\<close> and \<open>Flush\<close> succeed, and hand down a stream that ends
  with the four bytes of a sync flush; what comes before them satisfies \<open>Z\<close>.
\<close>

definition deflates :: "'c comp_ops \<Rightarrow> (bytes \<Rightarrow> bool) \<Rightarrow> bytes \<Rightarrow> bool" where
  "deflates C Z p \<longleftrightarrow> (\<forall>c. fresh C c \<longrightarrow> (\<exists>c1 bs k c2 bs' z. c_write C c p = (c1, bs, k, None)
     \<and> c_flush C c1 = (c2, bs', None) \<and> concat bs @ concat bs' = z @ compressionTail \<and> Z z))"

section \<open>The writers of a transport\<close>

text \<open>A writer that does not panic, and whose compressor has the property \<open>P\<close>.\<close>

definition good_writer :: "('c comp_ops \<Rightarrow> bool) \<Rightarrow> 'c comp_ops \<times> 'c flate_writer \<Rightarrow> bool" where
  "good_writer P = (\<lambda>(C, fw). P C \<and> c_new C \<noteq> None \<and> fw_c fw \<noteq> Some None)"

definition writers_ok :: "('c comp_ops \<Rightarrow> bool) \<Rightarrow> ('cert, 'c, 'd, 'x) ws_transport \<Rightarrow> bool" where
  "writers_ok P t \<longleftrightarrow>
     (case t_persistentFlateWriter t of
        Some a \<Rightarrow> good_writer P (wst_obj (t_writers t) a)
      | None \<Rightarrow> (\<exists>C. o_writerPool (t_options t) = Some (Some C) \<and> P C \<and> c_new C \<noteq> None)
          \<and> (\<forall>a \<in> set (wst_pool (t_writers t)). good_writer P (wst_obj (t_writers t) a)))"

lemma fw_reset_good:
  assumes "good_writer P (C, fw)"
  shows "\<exists>fw' c. fw_reset C fw = Some fw' \<and> fw_c fw' = Some (Some c) \<and> fresh C c
    \<and> fw_err fw' = None \<and> fw_cbuf fw' = cbuf_reset \<and> good_writer P (C, fw')"
proof (cases "fw_c fw")
  case None
  then show ?thesis using assms by (auto simp: good_writer_def fw_reset_def fresh_def Let_def)
next
  case (Some y)
  with assms obtain c where "fw_c fw = Some (Some c)" by (auto simp: good_writer_def)
  then show ?thesis using assms by (cases "c_reset C") (auto simp: good_writer_def fw_reset_def fresh_def Let_def)
qed

lemma writer_reset_good:
  assumes "good_writer P (wst_obj st a)"
  obtains st' where "writer_reset st a = Some st'" and "good_writer P (wst_obj st' a)"
    and "\<And>b. b \<noteq> a \<Longrightarrow> wst_obj st' b = wst_obj st b" and "wst_pool st' = wst_pool st"
proof -
  obtain C fw where o: "wst_obj st a = (C, fw)" by force
  obtain fw' where r: "fw_reset C fw = Some fw'" "good_writer P (C, fw')" using fw_reset_good [OF assms [unfolded o]] by blast
  show thesis by (rule that [of "st\<lparr>wst_obj := (wst_obj st)(a := (C, fw'))\<rparr>"]) (use o r in \<open>simp_all add: writer_reset_def\<close>)
qed

text \<open>The writer that \<open>writeCompress\<close> takes is good, and so are those left in the pool.\<close>

lemma take_writer_good:
  assumes "writers_ok P t"
  obtains st a where "take_writer t = Some (st, a)" and "good_writer P (wst_obj st a)"
    and "t_persistentFlateWriter t = None \<longrightarrow> (\<forall>b \<in> set (wst_pool st). good_writer P (wst_obj st b))"
    and "t_persistentFlateWriter t \<noteq> None \<longrightarrow> t_persistentFlateWriter t = Some a"
proof (cases "t_persistentFlateWriter t")
  case (Some a)
  show thesis by (rule that [of "t_writers t" a]) (use Some assms in \<open>simp_all add: writers_ok_def take_writer_def\<close>)
next
  case None
  with assms obtain C where C: "o_writerPool (t_options t) = Some (Some C)" "P C" "c_new C \<noteq> None"
    and pool: "\<forall>a \<in> set (wst_pool (t_writers t)). good_writer P (wst_obj (t_writers t) a)" by (auto simp: writers_ok_def)
  show thesis
  proof (cases "wst_pool (t_writers t)")
    case Nil
    obtain st a fw where "writer_alloc (t_writers t) C = Some (st, a)" "wst_obj st a = (C, fw)" "fw_c fw \<noteq> Some None"
      "wst_pool st = []" using writer_alloc_reset [OF C(3), of "t_writers t"] Nil by auto
    with None C Nil show thesis
      by (intro that [of st a]) (simp_all add: take_writer_def writer_pool_get_def good_writer_def)
  next
    case (Cons a as)
    with None pool show thesis
      by (intro that [of "t_writers t\<lparr>wst_pool := as\<rparr>" a]) (simp_all add: take_writer_def writer_pool_get_def)
  qed
qed

lemma compress_payload_deflates:
  assumes good: "good_writer P (wst_obj st a)" and law: "\<And>C. P C \<Longrightarrow> deflates C Z p"
  obtains st' z where "compress_payload st a p = Some (st', z, None)" and "Z z" and "good_writer P (wst_obj st' a)"
    and "\<And>b. b \<noteq> a \<Longrightarrow> wst_obj st' b = wst_obj st b" and "wst_pool st' = wst_pool st"
proof -
  obtain C fw where o: "wst_obj st a = (C, fw)" by force
  obtain fw0 c where r: "fw_reset C fw = Some fw0" "fw_c fw0 = Some (Some c)" "fresh C c" "fw_err fw0 = None"
    "fw_cbuf fw0 = cbuf_reset" "good_writer P (C, fw0)" using fw_reset_good [OF good [unfolded o]] by blast
  have P: "P C" "c_new C \<noteq> None" using good o by (simp_all add: good_writer_def)
  obtain c1 bs k c2 bs' z where w: "c_write C c p = (c1, bs, k, None)" "c_flush C c1 = (c2, bs', None)"
    "concat bs @ concat bs' = z @ compressionTail" "Z z"
    using law [OF P(1)] r(3) unfolding deflates_def by blast
  obtain cb x where b: "blocks_write buffer_write (cbuf_reset, []) bs = (cb, x)" by force
  obtain cb' x' where b': "blocks_write buffer_write (cb, x) bs' = (cb', x')" by force
  have "cbuf_inv (z @ compressionTail) (cb', x')"
    using blocks_write_inv [OF blocks_write_inv [OF cbuf_inv_reset b] b'] w(3) by simp
  from cbuf_inv_append [OF this] have x': "x' = z" "cb_buf cb' = compressionTail" by (simp_all add: compressionTail_def)
  let ?fw = "fw0\<lparr>fw_c := Some (Some c2), fw_cbuf := cb', fw_err := None\<rparr>"
  let ?st = "st\<lparr>wst_obj := (wst_obj st)(a := (C, ?fw))\<rparr>"
  have "compress_payload st a p = Some (?st, z, None)"
    using o r w b b' x' by (simp add: compress_payload_def writer_reset_def fw_write_def fw_flush_def fw_checkTail_def Let_def)
  with w(4) P show thesis by (intro that [of ?st z]) (simp_all add: good_writer_def)
qed

section \<open>A compressed message\<close>

text \<open>What a transport is configured with, and what no write changes.\<close>

definition w_core :: "('cert, 'c, 'd, 'x) ws_transport \<Rightarrow> _" where
  "w_core t = (t_options t, t_state t, t_opCode t, t_pool t, t_negotiated t, w_faults (t_conn t))"

lemma w_core_cong:
  assumes "w_core t' = w_core t"
  shows "pool_ok t' = pool_ok t" "compresses t' p = compresses t p" "w_faults (t_conn t') = w_faults (t_conn t)"
    "t_state t' = t_state t" "t_opCode t' = t_opCode t"
  using assms by (simp_all add: w_core_def pool_ok_def compresses_def compress_wanted_def)

lemma put_back_good:
  assumes "good_writer P (wst_obj (t_writers t) a)"
    and "t_persistentFlateWriter t = None \<Longrightarrow> \<forall>b \<in> set (wst_pool (t_writers t)). good_writer P (wst_obj (t_writers t) b)"
    and "t_persistentFlateWriter t = None \<Longrightarrow> \<exists>C. o_writerPool (t_options t) = Some (Some C) \<and> P C \<and> c_new C \<noteq> None"
    and "t_persistentFlateWriter t \<noteq> None \<Longrightarrow> t_persistentFlateWriter t = Some a"
  obtains t' where "put_back a t = Some t'" and "writers_ok P t'" and "w_core t' = w_core t" and "t_reader t' = t_reader t"
    and "t_msgReader t' = t_msgReader t"
proof (cases "t_persistentFlateWriter t")
  case None
  obtain st where st: "writer_reset (t_writers t) a = Some st" "good_writer P (wst_obj st a)"
    "\<And>b. b \<noteq> a \<Longrightarrow> wst_obj st b = wst_obj (t_writers t) b" "wst_pool st = wst_pool (t_writers t)"
    by (rule writer_reset_good [OF assms(1)]) blast
  let ?t' = "t\<lparr>t_writers := st\<lparr>wst_pool := a # wst_pool st\<rparr>\<rparr>"
  have "good_writer P (wst_obj st b)" if "b \<in> set (wst_pool (t_writers t))" for b
    using assms(2) [OF None] st(2,3) that by (cases "b = a") auto
  then have "writers_ok P ?t'" using None st(2,4) assms(3) [OF None] by (auto simp: writers_ok_def)
  moreover have "put_back a t = Some ?t'" using None st(1) by (simp add: put_back_def writer_pool_put_def)
  ultimately show thesis by (intro that [of ?t']) (simp_all add: w_core_def t_conn_def)
next
  case (Some b)
  with assms(1,4) show thesis by (intro that [of t]) (simp_all add: put_back_def writers_ok_def)
qed

lemma Write_deflated:
  assumes comp: "compresses t p" and pool: "pool_ok t" and quiet: "w_faults (t_conn t) = []" and ok: "writers_ok P t"
    and law: "\<And>C. P C \<Longrightarrow> deflates C Z p" and small: "\<And>z. Z z \<Longrightarrow> length z < 2 ^ 63"
  shows "\<exists>t' z. Write L t p = Some (t', p, length p, None) \<and> Z z \<and> writers_ok P t' \<and> w_core t' = w_core t
    \<and> out (t_conn t') = out (t_conn t) @ [wire_frame (st_client L (t_state t)) (t_opCode t) (next_mask L t) True z]
    \<and> t_reader t' = fr_set_dst ((t_conn t)\<lparr>out := out (t_conn t')\<rparr>) (t_reader t) \<and> t_msgReader t' = t_msgReader t"
proof -
  obtain st a where tw: "take_writer t = Some (st, a)" "good_writer P (wst_obj st a)"
    "t_persistentFlateWriter t = None \<longrightarrow> (\<forall>b \<in> set (wst_pool st). good_writer P (wst_obj st b))"
    "t_persistentFlateWriter t \<noteq> None \<longrightarrow> t_persistentFlateWriter t = Some a"
    by (rule take_writer_good [OF ok])
  obtain st' z where cp: "compress_payload st a p = Some (st', z, None)" "Z z" "good_writer P (wst_obj st' a)"
    "\<And>b. b \<noteq> a \<Longrightarrow> wst_obj st' b = wst_obj st b" "wst_pool st' = wst_pool st"
    by (rule compress_payload_deflates [where P = P and Z = Z and p = p, OF tw(2) law]) blast+
  let ?c = "(t_conn t)\<lparr>out := out (t_conn t)
      @ [wire_frame (st_client L (t_state t)) (t_opCode t) (next_mask L t) True z]\<rparr>"
  let ?t = "t_set_conn ?c (after_mask L (t\<lparr>t_writers := st'\<rparr>))"
  have pl: "\<forall>b \<in> set (wst_pool (t_writers ?t)). good_writer P (wst_obj (t_writers ?t) b)" if "t_persistentFlateWriter ?t = None"
  proof
    fix b assume "b \<in> set (wst_pool (t_writers ?t))"
    then have "b \<in> set (wst_pool st)" using cp(5) by simp
    then have "good_writer P (wst_obj st b)" using tw(3) that by simp
    then show "good_writer P (wst_obj (t_writers ?t) b)" using cp(3,4) by (cases "b = a") simp_all
  qed
  obtain t' where t': "put_back a ?t = Some t'" "writers_ok P t'" "w_core t' = w_core ?t" "t_reader t' = t_reader ?t"
    "t_msgReader t' = t_msgReader ?t"
  proof (rule put_back_good [of P ?t a])
    show "good_writer P (wst_obj (t_writers ?t) a)" using cp(3) by simp
    show "\<exists>C. o_writerPool (t_options ?t) = Some (Some C) \<and> P C \<and> c_new C \<noteq> None" if "t_persistentFlateWriter ?t = None"
      using that ok by (simp add: writers_ok_def)
  qed (use pl tw(4) in simp_all)
  have "w_core ?t = w_core t" by (simp add: w_core_def)
  moreover have "t_reader ?t = fr_set_dst ?c (t_reader t)" "t_msgReader ?t = t_msgReader t"
    by (simp_all add: t_set_conn_def after_mask_def draw_mask_def)
  ultimately show ?thesis
    using Write_compressed [OF comp pool quiet tw(1) cp(1) small [OF cp(2)] t'(1)] t' cp(2)
    by (intro exI [of _ t'] exI [of _ z]) simp
qed

section \<open>A sequence of messages\<close>

text \<open>What a message can look like on the wire.\<close>

definition wires_as :: "(bytes \<Rightarrow> bytes \<Rightarrow> bool) \<Rightarrow> ('cert, 'c, 'd, 'x) ws_transport \<Rightarrow> mask \<times> bytes \<times> bytes option \<Rightarrow> bool" where
  "wires_as Z t = (\<lambda>(_, p, c). case c of None \<Rightarrow> \<not> compresses t p | Some z \<Rightarrow> Z p z)"

lemma Writev_loop_mixed:
  assumes "pool_ok t" and "w_faults (t_conn t) = []" and "\<And>p z. Z p z \<Longrightarrow> length z < 2 ^ 63"
    and "\<forall>p \<in> set ps. length p < 2 ^ 63" and "(\<exists>p \<in> set ps. compresses t p) \<Longrightarrow> writers_ok P t"
    and "\<And>p C. p \<in> set ps \<Longrightarrow> compresses t p \<Longrightarrow> P C \<Longrightarrow> deflates C (Z p) p"
  shows "\<exists>t' qs ms. Writev_loop L t ps n = Some (t', qs, n + sum_list (map length ps), None)
    \<and> out (t_conn t') = out (t_conn t) @ map (wired (st_client L (t_state t)) (t_opCode t)) ms
    \<and> map (fst \<circ> snd) ms = ps \<and> (\<forall>m \<in> set ms. wires_as Z t m)"
  using assms(1,2,4-)
proof (induction ps arbitrary: t n)
  case (Cons p ps)
  let ?w = "wired (st_client L (t_state t)) (t_opCode t)"
  have "\<exists>t1 q m. Write L t p = Some (t1, q, length p, None) \<and> w_core t1 = w_core t
      \<and> ((\<exists>p \<in> set (p # ps). compresses t p) \<longrightarrow> writers_ok P t1)
      \<and> out (t_conn t1) = out (t_conn t) @ [?w m] \<and> fst (snd m) = p \<and> wires_as Z t m"
  proof (cases "compresses t p")
    case True
    obtain t1 z where "Write L t p = Some (t1, p, length p, None)" "Z p z" "writers_ok P t1" "w_core t1 = w_core t"
      "out (t_conn t1) = out (t_conn t) @ [wire_frame (st_client L (t_state t)) (t_opCode t) (next_mask L t) True z]"
      using Write_deflated [where P = P and Z = "Z p" and L = L, OF True] Cons.prems True assms(3) by auto
    then show ?thesis by (intro exI [of _ t1] exI [of _ p] exI [of _ "(next_mask L t, p, Some z)"]) (simp add: wired_def wires_as_def)
  next
    case False
    have "Write L t p = Some (t_set_conn ((t_conn t)\<lparr>out := out (t_conn t)
         @ [wire_frame (st_client L (t_state t)) (t_opCode t) (next_mask L t) False p]\<rparr>) (after_mask L t), masked_for L t p, length p, None)"
      by (rule Write_plain_quiet [OF False]) (use Cons.prems in simp_all)
    moreover have "writers_ok P (t_set_conn c (after_mask L t)) = writers_ok P t" for c
      by (simp add: writers_ok_def split: option.split)
    moreover have "w_core (t_set_conn c (after_mask L t)) = w_core t" if "w_faults c = w_faults (t_conn t)" for c
      using that by (simp add: w_core_def)
    ultimately show ?thesis using Cons.prems(4) False
      by (intro exI [of _ "t_set_conn ((t_conn t)\<lparr>out := out (t_conn t)
         @ [wire_frame (st_client L (t_state t)) (t_opCode t) (next_mask L t) False p]\<rparr>) (after_mask L t)"]
        exI [of _ "masked_for L t p"] exI [of _ "(next_mask L t, p, None)"]) (simp add: wired_def wires_as_def)
  qed
  then obtain t1 q m where w: "Write L t p = Some (t1, q, length p, None)" "w_core t1 = w_core t"
      "(\<exists>p \<in> set (p # ps). compresses t p) \<longrightarrow> writers_ok P t1"
      "out (t_conn t1) = out (t_conn t) @ [?w m]" "fst (snd m) = p" "wires_as Z t m" by blast
  note c = w_core_cong [OF w(2)]
  obtain t' qs ms where "Writev_loop L t1 ps (n + length p) = Some (t', qs, n + length p + sum_list (map length ps), None)"
    "out (t_conn t') = out (t_conn t1) @ map ?w ms" "map (fst \<circ> snd) ms = ps" "\<forall>m \<in> set ms. wires_as Z t1 m"
    using Cons.IH [of t1 "n + length p"] Cons.prems c w(3) by auto
  moreover have "wires_as Z t1 = wires_as Z t" using c(2) by (simp add: wires_as_def fun_eq_iff split: option.split)
  ultimately show ?case using w by (intro exI [of _ t'] exI [of _ "q # qs"] exI [of _ "m # ms"]) (simp add: comp_def)
qed simp

text \<open>The whole way: what one side writes, compressed or not, the other side reads.\<close>

lemma Writev_receive_mixed:
  assumes wrote: "pool_ok w" "w_faults (t_conn w) = []" "out (t_conn w) = []" "writers_ok P w"
    and law: "\<And>p C. p \<in> set ps \<Longrightarrow> compresses w p \<Longrightarrow> P C \<Longrightarrow> deflates C (\<lambda>z. fits t z \<and> inflates D z p (k 0)) p"
    and ready: "ready L t" and peer: "peer_of L (st_client L (t_state w)) (t_opCode w) t"
    and infl: "inflate_peer L D (st_client L (t_state w)) t" and k: "\<And>i. 0 < k i"
    and fits: "\<forall>p \<in> set ps. length p < 2 ^ 63 \<and> (compresses w p \<or> fits t p)" and eager: "\<not> in_eager (t_conn t)"
    and net: "\<And>w' qs n. Writev L w ps = Some (w', qs, n, None) \<Longrightarrow> conn_content (t_conn t) = concat (out (t_conn w'))"
  shows "\<exists>w' qs t'. Writev L w ps = Some (w', qs, sum_list (map length ps), None)
    \<and> receive L D k t (length ps) = Some (t', ps)"
proof -
  let ?Z = "\<lambda>p z. fits t z \<and> inflates D z p (k 0)" and ?w = "wired (st_client L (t_state w)) (t_opCode w)"
  obtain w' qs ms where w': "Writev L w ps = Some (w', qs, sum_list (map length ps), None)"
    and out: "out (t_conn w') = map ?w ms" and ms: "map (fst \<circ> snd) ms = ps" "\<forall>m \<in> set ms. wires_as ?Z w m"
    using Writev_loop_mixed [where P = P and Z = ?Z and L = L and n = 0 and t = w and ps = ps] wrote law fits
    by (auto simp: Writev_def fits_def)
  have "takes D k t m" if "m \<in> set ms" for m
  proof -
    obtain msk p c where m: "m = (msk, p, c)" by (metis prod_cases3)
    with ms(1) that have "p \<in> set ps" by force
    with fits have "compresses w p \<or> fits t p" by blast
    moreover have "wires_as ?Z w m" using ms(2) that by blast
    ultimately show ?thesis by (cases c) (simp_all add: m wires_as_def takes_def)
  qed
  moreover have "conn_content (t_conn t) = concat (map ?w ms) @ []" using net [OF w'] out by simp
  ultimately obtain t' where "receive L D k t (length ms) = Some (t', map (fst \<circ> snd) ms)"
    using receive_wired [where k = k and D = D and ms = ms and z = "[]", OF ready peer infl k] eager by blast
  moreover have "length ms = length ps" using ms(1) by (metis length_map)
  ultimately show ?thesis using w' ms(1) by simp
qed

section \<open>The transports that \<open>newWebsocketTransport\<close> makes\<close>

text \<open>Every compressor that the construction can choose is there and has the property \<open>P\<close>.\<close>

definition writer_setup ::
    "'c flate_lib \<Rightarrow> ('c comp_ops \<Rightarrow> bool) \<Rightarrow> ('cert, 'c) ws_options \<Rightarrow> negotiated \<Rightarrow> 'c writer_store \<Rightarrow> bool" where
  "writer_setup F P opts neg wst \<longleftrightarrow>
     (\<exists>C. o_writerPool opts = Some (Some C) \<and> P C \<and> c_new C \<noteq> None)
     \<and> (\<forall>a \<in> set (wst_pool wst). good_writer P (wst_obj wst a))
     \<and> (\<forall>bits \<in> {n_clientMaxWindowBits neg, n_serverMaxWindowBits neg}.
          0 < bits \<longrightarrow> P (kp_NewWriterWindow F (window_size bits)) \<and> c_new (kp_NewWriterWindow F (window_size bits)) \<noteq> None)"

text \<open>
  Both sides negotiated compression, over a connection without faults.
\<close>

definition deflate_setup ::
    "('x, 'cw) ws_lib \<Rightarrow> 'd dec \<Rightarrow> 'c flate_lib \<Rightarrow> ('c comp_ops \<Rightarrow> bool) \<Rightarrow> ('cert, 'c) ws_options \<Rightarrow> ext_option list
      \<Rightarrow> conn \<Rightarrow> 'c writer_store \<Rightarrow> bool" where
  "deflate_setup L D F P opts hs c wst \<longleftrightarrow>
     lib_ok L \<and> check_laws L \<and> compression_laws L \<and> extended_laws L \<and> resettable D
     \<and> o_CompressEnabled opts \<and> n_enabled (parsePerMessageDeflate hs no_negotiation) \<and> \<not> o_CheckUTF8 opts \<and> quiet c
     \<and> o_readerPool opts \<and> writer_setup F P opts (parsePerMessageDeflate hs no_negotiation) wst"

lemma with_persistent_reader_source:
  assumes "with_persistent_reader L D t = Some t'" and "resettable D" and "o_readerPool (t_options t)"
    and "fr_GetFlateReader (t_reader t) = Some (\<lambda>st b. if o_readerPool (t_options t) then pool_GetFlateReader D st b else None)"
    and "fr_PutFlateReader (t_reader t) = Some (pool_PutFlateReader D)"
  shows "flate_source D (t_reader t')" and "fr_low (t_reader t') = fr_low (t_reader t)"
    and "fr_cfg (t_reader t') = fr_cfg (t_reader t)" and "fr_state (t_reader t') = fr_state (t_reader t)"
    and "fr_CheckUTF8 (t_reader t') = fr_CheckUTF8 (t_reader t)" and "fr_flateReader (t_reader t') = fr_flateReader (t_reader t)"
    and "t' = t\<lparr>t_reader := t_reader t'\<rparr>"
  using assms
  by (auto simp: with_persistent_reader_def flate_source_def fr_cfg_def Let_def split: if_splits prod.splits)

lemma with_persistent_writer_good:
  assumes "with_persistent_writer L F t = Some t'" and "t_persistentFlateWriter t = None"
    and "writer_setup F P (t_options t) (t_negotiated t) (t_writers t)"
  shows "writers_ok P t'" and "t' = t\<lparr>t_writers := t_writers t', t_persistentFlateWriter := t_persistentFlateWriter t'\<rparr>"
proof -
  let ?n = "t_negotiated t"
  define no where "no \<longleftrightarrow> (if st_server L (t_state t) then n_serverNoContextTake ?n else n_clientNoContextTake ?n)"
  define bits where "bits = (if st_server L (t_state t) then n_serverMaxWindowBits ?n else n_clientMaxWindowBits ?n)"
  from assms(3) obtain C where C: "o_writerPool (t_options t) = Some (Some C)" "P C" "c_new C \<noteq> None"
    and pool: "\<forall>a \<in> set (wst_pool (t_writers t)). good_writer P (wst_obj (t_writers t) a)" by (auto simp: writer_setup_def)
  have win: "P (kp_NewWriterWindow F (window_size bits)) \<and> c_new (kp_NewWriterWindow F (window_size bits)) \<noteq> None" if "0 < bits"
    using assms(3) that by (auto simp: writer_setup_def bits_def split: if_splits)
  have w: "with_persistent_writer L F t = (if no then Some t else Option.bind
      (if 0 < bits then writer_alloc (t_writers t) (kp_NewWriterWindow F (window_size bits))
       else Option.bind (writer_pool_get (t_options t) (t_writers t)) (\<lambda>(st, a). Option.bind (writer_reset st a) (\<lambda>st. Some (st, a))))
      (\<lambda>(st, a). Some (t\<lparr>t_writers := st, t_persistentFlateWriter := Some a\<rparr>)))"
    by (simp add: with_persistent_writer_def no_def bits_def)
  have ok: "writers_ok P t" using C pool assms(2) by (simp add: writers_ok_def)
  have "writers_ok P t' \<and> t' = t\<lparr>t_writers := t_writers t', t_persistentFlateWriter := t_persistentFlateWriter t'\<rparr>"
  proof (cases no)
    case True
    then have "t' = t" using assms(1) unfolding w by simp
    with ok show ?thesis by simp
  next
    case no: False
    show ?thesis
    proof (cases "0 < bits")
      case True
      obtain st a fw where al: "writer_alloc (t_writers t) (kp_NewWriterWindow F (window_size bits)) = Some (st, a)"
        "wst_obj st a = (kp_NewWriterWindow F (window_size bits), fw)" "fw_c fw \<noteq> Some None"
        using writer_alloc_reset [OF conjunct2 [OF win [OF True]], of "t_writers t"] by blast
      have t': "t' = t\<lparr>t_writers := st, t_persistentFlateWriter := Some a\<rparr>"
        using assms(1) unfolding w by (simp add: no True al(1))
      show ?thesis unfolding t' using al(2,3) win [OF True] by (simp add: writers_ok_def good_writer_def)
    next
      case False
      obtain st a where tw: "take_writer t = Some (st, a)" "good_writer P (wst_obj st a)" by (rule take_writer_good [OF ok])
      obtain st' where st': "writer_reset st a = Some st'" "good_writer P (wst_obj st' a)"
        by (rule writer_reset_good [OF tw(2)]) blast
      have "writer_pool_get (t_options t) (t_writers t) = Some (st, a)" using tw(1) assms(2) by (simp add: take_writer_def)
      then have t': "t' = t\<lparr>t_writers := st', t_persistentFlateWriter := Some a\<rparr>"
        using assms(1) unfolding w by (simp add: no False st'(1))
      show ?thesis unfolding t' using st'(2) by (simp add: writers_ok_def)
    qed
  qed
  then show "writers_ok P t'" "t' = t\<lparr>t_writers := t_writers t', t_persistentFlateWriter := t_persistentFlateWriter t'\<rparr>" by blast+
qed

lemma new_deflating:
  assumes new: "newWebsocketTransport L D F nc opts client req hs c fst0 wst rnd pool = Some (Inr t)"
    and su: "deflate_setup L D F P opts hs c wst"
  shows "ready L t" and "inflate_peer L D (\<not> client) t" and "writers_ok P t" and "t_conn t = c"
    and "t_opCode t = choose_opCode L opts" and "t_pool t = pool" and "t_state t = (if client then StateClientSide L else StateServerSide L)"
    and "compresses t p \<longleftrightarrow> sint (o_CompressThreshold opts) \<le> int (length p)"
    and "fr_MaxFrameSize (t_reader t) = o_MaxFrameSize opts"
    and "op \<in> {OpText L, OpBinary L} \<Longrightarrow> op AND o_OpCode opts \<noteq> 0 \<Longrightarrow> peer_of L (\<not> client) op t"
proof -
  define t0 where "t0 = base_transport L D opts client req hs c fst0 wst rnd pool"
  define t1 where "t1 = t0\<lparr>t_reader := (t_reader t0)\<lparr>fr_Extensions := [perMessageDeflateRecvExt]\<rparr>\<rparr>"
  note [simp] = base_transport_fields
  let ?n = "parsePerMessageDeflate hs no_negotiation"
  have S: "lib_ok L" "check_laws L" "compression_laws L" "extended_laws L" "resettable D" "o_CompressEnabled opts"
    "n_enabled ?n" "\<not> o_CheckUTF8 opts" "quiet c" "o_readerPool opts" using su by (simp_all add: deflate_setup_def)
  then have sl: "state_laws L" by (simp add: lib_ok_def)
  have "n_enabled (t_negotiated t0)" using S by (simp add: t0_def)
  then obtain t2 where t2: "with_persistent_reader L D t1 = Some t2" and t: "with_persistent_writer L F t2 = Some t"
    using new S(6) by (auto simp: newWebsocketTransport_def Let_def t0_def [symmetric] t1_def [symmetric] bind_eq_Some_conv
        split: option.splits if_splits)
  have t1: "t_options t1 = opts" "t_negotiated t1 = ?n" "t_writers t1 = wst" "t_persistentFlateWriter t1 = None"
    "t_opCode t1 = choose_opCode L opts" "t_pool t1 = pool" "\<not> t_msgReader t1"
    "t_state t1 = (if client then StateClientSide L else StateServerSide L)"
    "fr_GetFlateReader (t_reader t1) = Some (\<lambda>st b. if o_readerPool (t_options t1) then pool_GetFlateReader D st b else None)"
    "fr_PutFlateReader (t_reader t1) = Some (pool_PutFlateReader D)"
    by (simp_all add: t1_def t0_def base_transport_def Let_def)
  have r1: "lw_src (fr_low (t_reader t1)) = c" "\<not> fr_CheckUTF8 (t_reader t1)" "fr_flateReader (t_reader t1) = None"
    "fr_Extensions (t_reader t1) = [perMessageDeflateRecvExt]" "fr_MaxFrameSize (t_reader t1) = o_MaxFrameSize opts"
    "fr_state (t_reader t1) = (if client then StateClientSide L else StateServerSide L) OR StateExtended L"
    using S(8) by (simp_all add: t1_def t0_def base_transport_def Let_def NewFrameReader_def)
  have "o_readerPool (t_options t1)" using t1 S by simp
  note p2 = with_persistent_reader_source [OF t2 S(5) this t1(9,10)]
  from p2(7) have t2': "t_options t2 = opts" "t_negotiated t2 = ?n" "t_writers t2 = wst" "t_persistentFlateWriter t2 = None"
    "t_opCode t2 = choose_opCode L opts" "t_pool t2 = pool" "\<not> t_msgReader t2" "t_state t2 = t_state t1"
    by (metis t1 ws_transport.select_convs ws_transport.surjective ws_transport.update_convs(5))+
  have "writer_setup F P (t_options t2) (t_negotiated t2) (t_writers t2)" using su t2' by (simp add: deflate_setup_def)
  note w = with_persistent_writer_good [OF t t2'(4) this]
  obtain ws a where t': "t = t2\<lparr>t_writers := ws, t_persistentFlateWriter := a\<rparr>" using w(2) by blast
  have r: "t_reader t = t_reader t2" "t_conn t = c" using p2(2) r1 by (simp_all add: t' t_conn_def fr_dst_def)
  have ext: "fr_Extensions (t_reader t) = [perMessageDeflateRecvExt]" "fr_MaxFrameSize (t_reader t) = o_MaxFrameSize opts"
    using p2(3) r1 r(1) by (simp_all add: fr_cfg_def)
  show "writers_ok P t" by (rule w(1))
  show "t_conn t = c" "fr_MaxFrameSize (t_reader t) = o_MaxFrameSize opts" using r ext by simp_all
  show "t_opCode t = choose_opCode L opts" "t_pool t = pool" "t_state t = (if client then StateClientSide L else StateServerSide L)"
    using t2' t1 by (simp_all add: t')
  show "ready L t" using S sl p2 r1 r t2' by (simp add: ready_def idle_def fragmented_def state_laws_def t')
  show infl: "inflate_peer L D (\<not> client) t" using S p2 r1 r ext by (simp add: inflate_peer_def)
  show "compresses t p \<longleftrightarrow> sint (o_CompressThreshold opts) \<le> int (length p)"
    using S t2' by (simp add: t' compresses_def compress_wanted_def)
  assume "op \<in> {OpText L, OpBinary L}" "op AND o_OpCode opts \<noteq> 0"
  moreover have "perMessageDeflateRecvExt h = (h, None)" if "h_rsv h = 0" for h
    using that by (cases h) (simp add: perMessageDeflateRecvExt_def)
  ultimately show "peer_of L (\<not> client) op t" using sl p2 r1 r ext t2' by (auto simp: peer_of_def state_laws_def t')
qed

end
