(* ===== verification/DeflateProperties.thy ===== *)
theory DeflateProperties
  imports WsDeflate Examples
begin

text \<open>
  The properties of compressed messages from one side to the other, each with a witness on concrete data where it has
  hypotheses.
\<close>

section \<open>A decompressor for the witnesses\<close>

text \<open>It reads its source to the end, drops the tail and maps the bytes; with the identity it is the inverse of \<^const>\<open>ex_comp\<close>.\<close>

definition ex_inflate_by :: "(byte \<Rightarrow> byte) \<Rightarrow> unit dec" where
  "ex_inflate_by f = \<lparr>d_new = (), d_reset = Some (\<lambda>_. ()),
     d_read = (\<lambda>up d u n. Option.bind (read_all up (\<lambda>_. 64) u []) (\<lambda>(u, bs, x).
       if x = EOF then Some (d, u, map f (take (length bs - 4) bs), None) else Some (d, u, [], Some x))), d_close = None\<rparr>"

lemma ex_inflate_resettable: "resettable (ex_inflate_by f)"
  by (simp add: resettable_def ex_inflate_by_def)

lemma ex_inflates_by: "inflates (ex_inflate_by f) z (map f z) n"
  unfolding inflates_def
proof (intro allI impI)
  fix b l assume ok: "base_ok b l" "clean_end l" "base_content b l = z"
  let ?up = "suffixed_read (base_read b)" and ?s = "(suffixed_reset True, l)"
  let ?I = "\<lambda>(sr, l'). base_ok b l' \<and> clean_end l' \<and> reads_to (base_read b) l l' \<and> (\<not> sr_r sr \<longrightarrow> base_content b l' = [])"
  have init: "sr_r (suffixed_reset True)" "sr_pos (suffixed_reset True) = 0" by (simp_all add: suffixed_reset_def)
  have step: "?I s'" if "?I s" "?up s m = Some (s', bs, e)" for s m s' bs e
  proof -
    obtain sr l1 where s: "s = (sr, l1)" by force
    show ?thesis
    proof (cases "sr_r sr")
      case False
      with that show ?thesis by (auto simp: s suffixed_read_def Let_def split: if_splits)
    next
      case True
      with that(2) obtain l2 e' where r: "base_read b l1 m = Some (l2, bs, e')"
        and s': "s' = (if e' = Some EOF then (sr\<lparr>sr_r := False\<rparr>, l2) else (sr, l2))"
        by (auto simp: s suffixed_read_def split: if_splits dest!: bind_eq_SomeD)
      from that(1) have i: "base_ok b l1 \<and> clean_end l1" "reads_to (base_read b) l l1" by (simp_all add: s)
      have "reads_to (base_read b) l l2"
        using i(2) r unfolding reads_to_def by (auto intro: rtranclp.rtrancl_into_rtrancl)
      moreover have "base_ok b l2 \<and> clean_end l2"
        using clean.rd_more [OF i(1)] clean.rd_sticky [OF i(1)] r by (cases e') blast+
      moreover have "e' = Some EOF \<Longrightarrow> base_content b l2 = []" using clean.rd_sticky [OF i(1)] r by blast
      ultimately show ?thesis using True by (auto simp: s')
    qed
  qed
  let ?C = "\<lambda>(sr, s). if sr_r sr then base_content b s @ compressionReadTail else drop (sr_pos sr) compressionReadTail"
  have "\<exists>u x s0 m bs. read_all ?up (\<lambda>_. 64) ?s [] = Some (u, [] @ ?C ?s, x) \<and> x \<in> (\<lambda>(sr, s). {EOF}) ?s
      \<and> (\<lambda>(sr, s). (base_ok b s \<and> clean_end s) \<and> {EOF} = {EOF} \<and> (sr_r sr \<longrightarrow> sr_pos sr = 0)) s0
      \<and> ?I s0 \<and> ?up s0 m = Some (u, bs, Some x)"
    by (rule byte_stream.read_all_last [OF sticky_stream.axioms(1) [OF clean.suffixed_sticky [of b]]])
      (use ok init step in \<open>auto simp: reads_to_def\<close>)
  then obtain u x s0 m bs where r: "read_all ?up (\<lambda>_. 64) ?s [] = Some (u, [] @ ?C ?s, x)" "x \<in> (\<lambda>(sr, s). {EOF}) ?s"
    and I0: "?I s0" and stop: "?up s0 m = Some (u, bs, Some x)" by blast
  have x: "x = EOF" and ra: "read_all ?up (\<lambda>_. 64) ?s [] = Some (u, z @ compressionReadTail, EOF)"
    using r ok(3) init by simp_all
  obtain sr l' where u: "u = (sr, l')" by force
  have I: "?I (sr, l')" using step [OF I0 stop] by (simp only: u)
  have "\<not> sr_r sr" using stop x by (cases s0) (auto simp: u suffixed_read_def Let_def split: if_splits dest!: bind_eq_SomeD)
  with I ra [unfolded u] show "\<exists>d sr l' e. d_read (ex_inflate_by f) ?up (d_new (ex_inflate_by f)) ?s n = Some (d, (sr, l'), map f z, e)
      \<and> (e = None \<or> e = Some EOF) \<and> reads_to (base_read b) l l' \<and> base_content b l' = []"
    by (simp add: ex_inflate_by_def compressionReadTail_def)
qed

abbreviation ex_inflate :: "unit dec" where
  "ex_inflate \<equiv> ex_inflate_by (\<lambda>b. b)"

lemma ex_inflates: "inflates ex_inflate z z n"
  using ex_inflates_by [of "\<lambda>b. b" z n] by simp


lemma ex_comp_deflates: "Z p \<Longrightarrow> deflates ex_comp Z p"
  by (simp add: deflates_def ex_comp_def)

section \<open>The round trip\<close>


text \<open>A client with context takeover and a window of its own, and a server that gives its reader back after each message.\<close>

definition ex_takeover :: "ext_option list" where
  "ex_takeover = [\<lparr>eo_Name = ''permessage-deflate'',
     eo_Get = (\<lambda>k. if k = ''client_max_window_bits'' then Some ''10'' else None)\<rparr>]"

definition ex_end_with :: "unit dec \<Rightarrow> bool \<Rightarrow> ext_option list \<Rightarrow> bytes list \<Rightarrow> (unit, unit, unit, unit) ws_transport" where
  "ex_end_with D client hs chunks =
     (case newWebsocketTransport rfc_lib D ex_flate OtherConn ex_compress_options client ex_request hs (ex_conn chunks)
        ex_flate_store ex_writer_store (\<lambda>i. Mask 1 2 3 (word_of_nat i)) (\<lambda>n. replicate n 7) of
        Some (Inr t) \<Rightarrow> t | _ \<Rightarrow> ex_transport client [])"

abbreviation ex_end_by :: "(byte \<Rightarrow> byte) \<Rightarrow> bool \<Rightarrow> ext_option list \<Rightarrow> bytes list \<Rightarrow> (unit, unit, unit, unit) ws_transport" where
  "ex_end_by f \<equiv> ex_end_with (ex_inflate_by f)"

abbreviation ex_end :: "bool \<Rightarrow> ext_option list \<Rightarrow> bytes list \<Rightarrow> (unit, unit, unit, unit) ws_transport" where
  "ex_end \<equiv> ex_end_by (\<lambda>b. b)"

lemma ex_new_end:
  assumes "hs \<in> {ex_offer, ex_takeover}"
  shows "newWebsocketTransport rfc_lib D ex_flate OtherConn ex_compress_options client ex_request hs (ex_conn chunks)
    ex_flate_store ex_writer_store (\<lambda>i. Mask 1 2 3 (word_of_nat i)) (\<lambda>n. replicate n 7) = Some (Inr (ex_end_with D client hs chunks))"
    (is "?new = _")
proof -
  have "\<exists>t. ?new = Some (Inr t)"
    using newWebsocketTransport_total [of ex_flate "\<lambda>_ _. None" "ex_options\<lparr>o_CompressEnabled := True, o_CompressThreshold := 2\<rparr>"
        ex_compress_options OtherConn ex_writer_store rfc_lib D client ex_request hs "ex_conn chunks" ex_flate_store]
    by (force simp: ex_compress_options_def Apply_def Let_def ex_flate_def ex_comp_def ex_writer_store_def ex_options_def DefaultOptions_def rfc_lib_def)
  then show ?thesis by (auto simp: ex_end_with_def)
qed

lemma rfc_extended_laws: "extended_laws rfc_lib"
  by (auto simp: extended_laws_def rfc_lib_def rfc_check_def word_le_nat_alt)

lemma ex_offer_params:
  "n_enabled (parsePerMessageDeflate ex_offer no_negotiation)" "n_enabled (parsePerMessageDeflate ex_takeover no_negotiation)"
  "n_clientMaxWindowBits (parsePerMessageDeflate ex_offer no_negotiation) = 0"
  "n_serverMaxWindowBits (parsePerMessageDeflate ex_offer no_negotiation) = 12"
  "n_clientMaxWindowBits (parsePerMessageDeflate ex_takeover no_negotiation) = 10"
  "n_serverMaxWindowBits (parsePerMessageDeflate ex_takeover no_negotiation) = 0"
  by code_simp+

lemma ex_compress_options_fields:
  "o_CompressEnabled ex_compress_options" "\<not> o_CheckUTF8 ex_compress_options" "o_readerPool ex_compress_options"
  "o_writerPool ex_compress_options = Some (Some ex_comp)" "o_MaxFrameSize ex_compress_options = 0" "o_OpCode ex_compress_options = 1"
  by (simp_all add: ex_compress_options_def ex_options_def DefaultOptions_def Apply_def rfc_lib_def Let_def ex_flate_def)

lemma ex_deflate_setup:
  assumes "hs \<in> {ex_offer, ex_takeover}"
  shows "deflate_setup rfc_lib (ex_inflate_by f) ex_flate (\<lambda>C. C = ex_comp) ex_compress_options hs (ex_conn chunks) ex_writer_store"
proof -
  have n: "n_enabled (parsePerMessageDeflate hs no_negotiation)"
    "n_clientMaxWindowBits (parsePerMessageDeflate hs no_negotiation) \<in> {0, 10}"
    "n_serverMaxWindowBits (parsePerMessageDeflate hs no_negotiation) \<in> {0, 12}"
    using ex_offer_params assms by auto
  have win: "kp_NewWriterWindow ex_flate (window_size 10) = ex_comp" "kp_NewWriterWindow ex_flate (window_size 12) = ex_comp"
    by (simp_all add: ex_flate_def window_size_def)
  have "c_new ex_comp \<noteq> None" by (simp add: ex_comp_def)
  then show ?thesis
    using n win ex_compress_options_fields rfc_lib_ok rfc_check_laws rfc_compression_laws rfc_extended_laws ex_inflate_resettable
    by (auto simp: deflate_setup_def writer_setup_def ex_writer_store_def quiet_def)
qed


section \<open>Messages in fragments\<close>

text \<open>C20: a compressed message in fragments is not inflated as one stream: RSV1 is on the first frame alone, and \<open>NextFrame\<close>
  installs the flate reader for that frame only, so \<open>Read\<close> delivers what the decompressor makes of the first fragment, followed
  by the payloads of the continuation frames as they came, still compressed.\<close>

theorem fragmented_message_raw:
  assumes "ready L t" and "peer_of L client op t" and "inflate_peer L D client t" and "fits t z"
    and "inflates D z p (k 0)" and "\<And>i. 0 < k i" and "\<not> in_eager (t_conn t)"
    and "conn_content (t_conn t) = wire_part False client op msk z @ rest"
    and "frags L (fr_cfg (t_reader t)) (st_set L (fr_state (t_reader t)) (StateFragmented L)) rest = Some (q, left)"
  shows "\<exists>t'. read_all (Read L D) k t [] = Some (t', p @ q, EOF)"
  using read_fragment_inflated [where k = k, OF assms(1-6,8,9)] assms(7) by blast

text \<open>The decompressor adds one to each byte: \<open>[10, 20]\<close> and \<open>[30]\<close> are compressed to \<open>[9, 19]\<close> and \<open>[29]\<close>, but 29 is delivered.\<close>

definition ex_parts :: bytes where
  "ex_parts = wire_part False True 1 (Mask 1 2 3 4) [9, 19] @ encode_header True False 0 (Some (Mask 0 0 0 0)) 1 @ [29]"

lemma fragmented_message_raw_witness:
  "\<exists>t'. read_all (Read rfc_lib (ex_inflate_by (\<lambda>b. b + 1))) (\<lambda>_. 8) (ex_end_by (\<lambda>b. b + 1) False ex_offer [ex_parts]) []
     = Some (t', [10, 20] @ [29], EOF)"
proof -
  let ?t = "ex_end_by (\<lambda>b. b + 1) False ex_offer [ex_parts]"
  have o: "ex_offer \<in> {ex_offer, ex_takeover}" by simp
  note nt = new_deflating [OF ex_new_end [OF o, where D = "ex_inflate_by (\<lambda>b. b + 1)" and client = False and chunks = "[ex_parts]"]
      ex_deflate_setup [OF o]]
  show ?thesis
  proof (rule fragmented_message_raw)
    show "ready rfc_lib ?t" by (rule nt(1))
    show "peer_of rfc_lib True 1 ?t" "inflate_peer rfc_lib (ex_inflate_by (\<lambda>b. b + 1)) True ?t"
      using nt(2,10) by (simp_all add: ex_compress_options_fields)
    show "fits ?t [9, 19]" using nt(9) by (simp add: fits_def ex_compress_options_fields)
    show "inflates (ex_inflate_by (\<lambda>b. b + 1)) [9, 19] [10, 20] 8"
      using ex_inflates_by [of "\<lambda>b. b + 1" "[9, 19]" 8] by simp
    show "conn_content (t_conn ?t) = wire_part False True 1 (Mask 1 2 3 4) [9, 19]
        @ encode_header True False 0 (Some (Mask 0 0 0 0)) 1 @ [29]"
      using nt(4) by (simp add: conn_content_def ex_parts_def)
    show "frags rfc_lib (fr_cfg (t_reader ?t)) (st_set rfc_lib (fr_state (t_reader ?t)) (StateFragmented rfc_lib))
        (encode_header True False 0 (Some (Mask 0 0 0 0)) 1 @ [29]) = Some ([29], [])"
      by code_simp
  qed (use nt(4) in simp_all)
qed

end
