(* ===== verification/WsSession.thy ===== *)
theory WsSession
  imports WsDeflate
begin

text \<open>
  A session: the client's and the server's transport, each of them writing and reading, and the network between them, which
  carries the bytes of either direction in pieces of its own.  The sessions are compared with two queues of messages.
\<close>

section \<open>Reading writes nothing\<close>

text \<open>Inside a message of one plain frame.\<close>

definition plain_at :: "('x, 'cw) ws_lib \<Rightarrow> ('d, 'x) frame_reader \<Rightarrow> bool" where
  "plain_at L r \<longleftrightarrow> \<not> fragmented L r \<and> (\<forall>f. fr_frame r = Some f \<longrightarrow> (\<exists>b. f = RInner (RBase b)))"

lemma reset_fields:
  "fr_state (reset L r) = fr_state r" "fr_frame (reset L r) = None" "lw_src (fr_low (reset L r)) = lw_src (fr_low r)"
  by (simp_all add: reset_def Let_def low_detach_def split: option.split)

lemma FrameReader_Read_plain:
  assumes "plain_at L r" and "FrameReader_Read L D onI onC r n = Some (r', bs, e)"
  shows "plain_at L r'" and "conn_env (fr_dst r') = conn_env (fr_dst r)"
proof -
  have "plain_at L r' \<and> conn_env (fr_dst r') = conn_env (fr_dst r)"
  proof (cases "fr_frame r")
    case None
    with assms show ?thesis by (auto simp: FrameReader_Read_def plain_at_def)
  next
    case (Some f)
    with assms(1) obtain b where f: "f = RInner (RBase b)" by (auto simp: plain_at_def)
    with assms(2) Some have "read_body L D (RInner (RBase b)) r n = Some (r', bs, e)" by (simp add: FrameReader_Read_def)
    then obtain l bs1 e1 where l: "base_read b (fr_low r) n = Some (l, bs1, e1)"
      and r': "r' \<in> {r\<lparr>fr_low := l\<rparr>, resetFragment (r\<lparr>fr_low := l\<rparr>), reset L (r\<lparr>fr_low := l\<rparr>)}"
      by (auto simp: read_body_def bind_eq_Some_conv split: if_splits)
    from base_read_frame(4) [OF l] r' assms(1) show ?thesis
      by (auto simp: plain_at_def fr_dst_def fragmented_def resetFragment_def low_detach_def reset_fields)
  qed
  then show "plain_at L r'" "conn_env (fr_dst r') = conn_env (fr_dst r)" by blast+
qed

lemma heard_simps [simp]: "heard t t"
  by (simp add: heard_def)

lemma heard_trans: "heard t t' \<Longrightarrow> heard t' t'' \<Longrightarrow> heard t t''"
  unfolding heard_def by (metis ws_transport.select_convs ws_transport.surjective ws_transport.update_convs(5,6))

lemma read_message_heard:
  assumes "plain_at L (t_reader t)" and "read_message L D t n = Some (t', bs, e)"
  shows "heard t t'" and "e = None \<Longrightarrow> plain_at L (t_reader t') \<and> t_msgReader t' = t_msgReader t"
proof -
  obtain r e' where r: "FrameReader_Read L D (Some (t_OnIntermediate L t)) None (t_reader t) n = Some (r, bs, e')"
    and t': "t' = (if e' = Some EOF then t\<lparr>t_reader := r, t_msgReader := False\<rparr> else t\<lparr>t_reader := r\<rparr>)" "e' = e"
    using assms(2) by (auto simp: read_message_def bind_eq_Some_conv)
  note p = FrameReader_Read_plain [OF assms(1) r]
  show "heard t t'" "e = None \<Longrightarrow> plain_at L (t_reader t') \<and> t_msgReader t' = t_msgReader t"
    using p t' by (auto simp: heard_def t_conn_def)
qed

lemma read_plain_heard:
  fixes t :: "('cert, 'c, 'd, 'x) ws_transport" and L :: "('x, 'cw) ws_lib"
  assumes ready: "ready L t" and peer: "peer_of L client op t" and fits: "fits t p"
    and net: "conn_content (t_conn t) = wire_frame client op msk False p @ rest"
    and rd: "read_all (Read L D) k t [] = Some (t', q, x)"
  shows "heard t t'"
proof -
  let ?r = "t_reader t" and ?cb = "Some (t_OnIntermediate L t)"
  from ready have lib: "lib_ok L" "check_laws L" "compression_laws L" and idle: "idle L ?r" and m: "\<not> t_msgReader t"
    by (auto simp: ready_def)
  then have sl: "state_laws L" and ops: "opcode_laws L" and nf: "\<not> fragmented L ?r" by (auto simp: lib_ok_def idle_def)
  from peer ops have op: "\<not> is_control L op" "op AND o_OpCode (t_options t) \<noteq> 0"
    by (auto simp: peer_of_def opcode_laws_def word_le_nat_alt)
  obtain h where h: "parse_header (wire_frame client op msk False p @ rest) = Parsed h ((if client then cipher_spec msk 0 p else p) @ rest)"
    "frame_passes L (fr_cfg ?r) (fr_state ?r) h" "h_fin h" "h_op h = op" "nat (sint (h_length h)) = length p"
    "unmask h (if client then cipher_spec msk 0 p else p) = p" by (rule wire_frame_passes [OF ops lib(2,3) peer fits nf])
  then have o: "opened L (fr_cfg ?r) (fr_state ?r) h ((if client then cipher_spec msk 0 p else p) @ rest) = Some (p, rest)"
    by (simp add: opened_def Let_def)
  have ph: "parse_header (conn_content (lw_src (fr_low ?r))) = Parsed h ((if client then cipher_spec msk 0 p else p) @ rest)"
    using h(1) net by (simp add: t_conn_def fr_dst_def)
  obtain r1 where r1: "NextFrame L D ?cb None ?r = Some (r1, h, None)" "\<not> fragmented L r1"
    "\<exists>b. fr_frame r1 = Some (RInner (RBase b))" "conn_env (fr_dst r1) = conn_env (fr_dst ?r)"
    using NextFrame_open [OF sl t_OnIntermediate_polite [OF lib(1)] idle ph o] h(3) by blast
  let ?t1 = "t\<lparr>t_reader := r1, t_msgReader := True\<rparr>"
  have p1: "plain_at L (t_reader ?t1)" using r1(2,3) by (auto simp: plain_at_def)
  have h1: "heard t ?t1" using r1(4) by (simp add: heard_def t_conn_def)
  have open1: "Read L D t n = read_message L D ?t1 n" for n using Read_opens [OF m r1(1)] op h(4) by simp
  define T where "T q s \<longleftrightarrow> s = t \<or> heard t s \<and> t_msgReader s \<and> plain_at L (t_reader s)" for q :: bytes and s
  have step: "heard t s' \<and> (e = None \<longrightarrow> T (q @ bs) s')" if "T q s" "Read L D s n = Some (s', bs, e)" for q s n s' bs e
  proof -
    have "\<exists>s1. heard t s1 \<and> t_msgReader s1 \<and> plain_at L (t_reader s1) \<and> read_message L D s1 n = Some (s', bs, e)"
    proof (cases "s = t")
      case True
      with that(2) open1 h1 p1 show ?thesis by (intro exI [of _ ?t1]) simp
    next
      case False
      with that show ?thesis by (intro exI [of _ s]) (simp add: T_def Read_def)
    qed
    then obtain s1 where s1: "heard t s1" "t_msgReader s1" "plain_at L (t_reader s1)" "read_message L D s1 n = Some (s', bs, e)"
      by blast
    note s' = read_message_heard [OF s1(3,4)]
    have "heard t s'" by (rule heard_trans [OF s1(1) s'(1)])
    moreover have "T (q @ bs) s'" if "e = None" using s'(2) [OF that] s1(2) \<open>heard t s'\<close> by (simp add: T_def)
    ultimately show ?thesis by blast
  qed
  show "heard t t'"
  proof (rule read_all_tracked [where T = T and R = "\<lambda>_ _ s. heard t s", OF _ _ rd])
    show "T (q @ bs) s'" if "T q s" "Read L D s n = Some (s', bs, None)" for q s n s' bs using step [OF that] by simp
    show "heard t s'" if "T q s" "Read L D s n = Some (s', bs, Some x)" for q s n s' bs x using step [OF that] by simp
  qed (simp add: T_def)
qed

lemma read_wired:
  assumes ready: "ready L t" and peer: "peer_of L client op t" "snd (snd m) \<noteq> None \<Longrightarrow> inflate_peer L D client t"
    and k: "\<And>i. 0 < k i" and m: "takes D k t m" and net: "conn_content (t_conn t) = wired client op m @ rest" and eager: "\<not> in_eager (t_conn t)"
  shows "\<exists>t'. read_all (Read L D) k t [] = Some (t', fst (snd m), EOF) \<and> ready L t' \<and> conn_content (t_conn t') = rest
    \<and> t_setup L t' = t_setup L t \<and> heard t t'"
proof -
  obtain msk p c where mm: "m = (msk, p, c)" by (metis prod_cases3)
  show ?thesis
  proof (cases c)
    case None
    have n: "conn_content (t_conn t) = wires client op [(msk, p)] @ rest" "fits t p" "conn_content (t_conn t) = wire_frame client op msk False p @ rest"
      using m net by (simp_all add: mm None wired_def takes_def)
    with receive_wires [where k = k and D = D and ms = "[(msk, p)]" and z = rest, OF ready peer(1) k] eager
    obtain t' where t': "receive L D k t 1 = Some (t', [p])" "ready L t'" "conn_content (t_conn t') = rest" "t_setup L t' = t_setup L t"
      by auto
    from t'(1) have r: "read_all (Read L D) k t [] = Some (t', p, EOF)" by (auto split: if_splits dest!: bind_eq_SomeD)
    from read_plain_heard [OF ready peer(1) n(2,3) r] t' r show ?thesis by (simp add: mm)
  next
    case (Some z)
    have "conn_content (t_conn t) = wire_frame client op msk True z @ rest" "fits t z" "inflates D z p (k 0)"
      using m net by (simp_all add: mm Some wired_def takes_def)
    with read_inflated [where k = k, OF ready peer(1)] peer(2) eager show ?thesis by (simp add: mm Some)
  qed
qed

section \<open>Writing leaves the reader alone\<close>

text \<open>What an end is made of, and what neither its reads nor its writes change.\<close>

definition compressing :: "('cert, 'c, 'd, 'x) ws_transport \<Rightarrow> bool" where
  "compressing t \<longleftrightarrow> o_CompressEnabled (t_options t) \<and> n_enabled (t_negotiated t)"

definition end_ok :: "('x, 'cw) ws_lib \<Rightarrow> ('c comp_ops \<Rightarrow> bool) \<Rightarrow> ('cert, 'c, 'd, 'x) ws_transport \<Rightarrow> bool" where
  "end_ok L P t \<longleftrightarrow> ready L t \<and> (compressing t \<longrightarrow> writers_ok P t) \<and> pool_ok t \<and> w_faults (t_conn t) = [] \<and> \<not> in_eager (t_conn t)"

text \<open>
  A message that the writer \<open>w\<close> can send and the reader \<open>t\<close> can take: below the limits, and if \<open>w\<close> compresses it, the
  compressors and the decompressor keep their promises on it.
\<close>

definition sendable ::
    "'d dec \<Rightarrow> (nat \<Rightarrow> nat) \<Rightarrow> ('c comp_ops \<Rightarrow> bool) \<Rightarrow> ('cert, 'c, 'd, 'x) ws_transport
      \<Rightarrow> ('cert, 'c, 'd, 'x) ws_transport \<Rightarrow> bytes \<Rightarrow> bool" where
  "sendable D k P w t p \<longleftrightarrow> length p < 2 ^ 63
     \<and> (if compresses w p then \<forall>C. P C \<longrightarrow> deflates C (\<lambda>z. fits t z \<and> inflates D z p (k 0)) p else fits t p)"

text \<open>What the frame of a message can be: one that the reader takes, compressed only by a writer that compresses.\<close>

definition carries ::
    "'d dec \<Rightarrow> (nat \<Rightarrow> nat) \<Rightarrow> ('cert, 'c, 'd, 'x) ws_transport \<Rightarrow> ('cert, 'c, 'd, 'x) ws_transport
      \<Rightarrow> mask \<times> bytes \<times> bytes option \<Rightarrow> bool" where
  "carries D k w t m \<longleftrightarrow> takes D k t m \<and> (snd (snd m) \<noteq> None \<longrightarrow> compressing w)"

definition wire_of :: "('x, 'cw) ws_lib \<Rightarrow> ('cert, 'c, 'd, 'x) ws_transport \<Rightarrow> mask \<times> bytes \<times> bytes option \<Rightarrow> bytes" where
  "wire_of L w = wired (st_client L (t_state w)) (t_opCode w)"

lemma idle_out:
  fixes r :: "('d, 'x) frame_reader"
  shows "idle L (fr_set_dst ((fr_dst r)\<lparr>out := os\<rparr>) r) = idle L r"
    and "fr_setup L (fr_set_dst ((fr_dst r)\<lparr>out := os\<rparr>) r) = fr_setup L r"
  using idle_set_dst(1,2) [of "(fr_dst r)\<lparr>out := os\<rparr>" r L] by simp_all

lemma writers_ok_cong:
  assumes "t_persistentFlateWriter t' = t_persistentFlateWriter t" "t_writers t' = t_writers t" "t_options t' = t_options t"
  shows "writers_ok P t' = writers_ok P t"
  unfolding writers_ok_def assms ..

lemma Write_sends:
  assumes ok: "end_ok L P w" and s: "sendable D k P w t p"
  shows "\<exists>w' q m. Write L w p = Some (w', q, length p, None) \<and> fst (snd m) = p \<and> carries D k w t m
    \<and> end_ok L P w' \<and> t_setup L w' = t_setup L w
    \<and> out (t_conn w') = out (t_conn w) @ [wire_of L w m] \<and> conn_content (t_conn w') = conn_content (t_conn w)"
proof -
  from ok have w: "pool_ok w" "w_faults (t_conn w) = []" "compressing w \<longrightarrow> writers_ok P w" "ready L w" by (auto simp: end_ok_def)
  from s have len: "length p < 2 ^ 63" by (simp add: sendable_def)
  have same: "end_ok L P w' \<and> t_setup L w' = t_setup L w \<and> conn_content (t_conn w') = conn_content (t_conn w)"
    if "compressing w \<longrightarrow> writers_ok P w'" "w_core w' = w_core w" "t_reader w' = fr_set_dst ((t_conn w)\<lparr>out := os\<rparr>) (t_reader w)"
      "t_msgReader w' = t_msgReader w" for w' os
  proof -
    have r: "t_reader w' = fr_set_dst ((fr_dst (t_reader w))\<lparr>out := os\<rparr>) (t_reader w)" using that(3) by (simp add: t_conn_def)
    have c: "t_conn w' = (t_conn w)\<lparr>out := os\<rparr>" unfolding t_conn_def r by (simp add: fr_dst_def fr_set_dst_def)
    show ?thesis
      using ok that(1,2,4) c idle_out [where L = L and r = "t_reader w" and os = os]
      by (auto simp: end_ok_def ready_def r w_core_def t_setup_def conn_content_def pool_ok_def compressing_def)
  qed
  show ?thesis
  proof (cases "compresses w p")
    case True
    have law: "deflates C (\<lambda>z. fits t z \<and> inflates D z p (k 0)) p" if "P C" for C
      using s True that by (simp add: sendable_def)
    have comp: "compressing w" using True by (simp add: compresses_def compressing_def compress_wanted_def)
    then have wok: "writers_ok P w" using w(3) by blast
    have small: "length z < 2 ^ 63" if "fits t z \<and> inflates D z p (k 0)" for z using that by (simp add: fits_def)
    obtain w' z where w': "Write L w p = Some (w', p, length p, None)" "fits t z \<and> inflates D z p (k 0)" "writers_ok P w'"
      "w_core w' = w_core w" "out (t_conn w') = out (t_conn w) @ [wire_frame (st_client L (t_state w)) (t_opCode w) (next_mask L w) True z]"
      "t_reader w' = fr_set_dst ((t_conn w)\<lparr>out := out (t_conn w')\<rparr>) (t_reader w)" "t_msgReader w' = t_msgReader w"
      using Write_deflated [where P = P and L = L, OF True w(1,2) wok law small] by blast
    from same [OF _ w'(4,6,7)] w'(1-3,5) comp show ?thesis
      by (intro exI [of _ w'] exI [of _ p] exI [of _ "(next_mask L w, p, Some z)"]) (simp add: carries_def takes_def wired_def wire_of_def)
  next
    case False
    let ?m = "(next_mask L w, p, None)"
    let ?c = "(t_conn w)\<lparr>out := out (t_conn w) @ [wire_of L w ?m]\<rparr>"
    let ?w = "t_set_conn ?c (after_mask L w)"
    have "Write L w p = Some (?w, masked_for L w p, length p, None)"
      using Write_plain_quiet [OF False w(1) len w(2), of L] by (simp add: wire_of_def wired_def)
    moreover have "compressing w \<longrightarrow> writers_ok P ?w" using w(3) writers_ok_cong [of ?w w] by simp
    moreover have "w_core ?w = w_core w" by (simp add: w_core_def)
    moreover have "t_reader ?w = fr_set_dst ?c (t_reader w)" by (simp add: t_set_conn_def)
    moreover have "fits t p" using s False by (simp add: sendable_def)
    ultimately show ?thesis using same [of ?w]
      by (intro exI [of _ ?w] exI [of _ "masked_for L w p"] exI [of _ ?m]) (simp add: carries_def takes_def)
  qed
qed

section \<open>Sessions\<close>

text \<open>
  The two ends, named by \<^const>\<open>True\<close> (the client) and \<^const>\<open>False\<close>, and how many bytes of what each of them wrote the network has
  brought to the other.
\<close>

record ('cert, 'c, 'd, 'x) session =
  s_end :: "bool \<Rightarrow> ('cert, 'c, 'd, 'x) ws_transport"
  s_carried :: "bool \<Rightarrow> nat"

definition transit :: "('cert, 'c, 'd, 'x) session \<Rightarrow> bool \<Rightarrow> bytes" where
  "transit s b = drop (s_carried s b) (concat (out (t_conn (s_end s b))))"

definition arrive :: "bytes \<Rightarrow> ('cert, 'c, 'd, 'x) ws_transport \<Rightarrow> ('cert, 'c, 'd, 'x) ws_transport" where
  "arrive bs t = t_set_conn ((t_conn t)\<lparr>in_chunks := in_chunks (t_conn t) @ [bs]\<rparr>) t"

text \<open>A \<open>Read\<close> blocks until the frame that it delivers has arrived.\<close>

definition whole_frame :: "bytes \<Rightarrow> bool" where
  "whole_frame bs = (case parse_header bs of Parsed h rest \<Rightarrow> nat (sint (h_length h)) \<le> length rest | _ \<Rightarrow> False)"

text \<open>A call of \<open>Write\<close> with its count and error, a piece that the network brings, and a message as \<open>Read\<close> gives it out, with its end.\<close>

datatype action = Send bool bytes nat "err option" | Carry bool nat | Receive bool bytes err

inductive session_step ::
    "('x, 'cw) ws_lib \<Rightarrow> 'd dec \<Rightarrow> (nat \<Rightarrow> nat) \<Rightarrow> ('cert, 'c, 'd, 'x) session \<Rightarrow> action \<Rightarrow> ('cert, 'c, 'd, 'x) session \<Rightarrow> bool"
  for L D k where
  step_send: "Write L (s_end s b) p = Some (t, q, n, e) \<Longrightarrow>
    session_step L D k s (Send b p n e) (s\<lparr>s_end := (s_end s)(b := t)\<rparr>)"
| step_carry: "0 < n \<Longrightarrow> n \<le> length (transit s b) \<Longrightarrow>
    session_step L D k s (Carry b n) (s\<lparr>s_end := (s_end s)((\<not> b) := arrive (take n (transit s b)) (s_end s (\<not> b))),
      s_carried := (s_carried s)(b := s_carried s b + n)\<rparr>)"
| step_receive: "whole_frame (conn_content (t_conn (s_end s b))) \<Longrightarrow> read_all (Read L D) k (s_end s b) [] = Some (t, p, x) \<Longrightarrow>
    session_step L D k s (Receive b p x) (s\<lparr>s_end := (s_end s)(b := t)\<rparr>)"

inductive_cases session_step_cases [consumes 1, case_names send carry receive]: "session_step L D k s a s'"

inductive session_run ::
    "('x, 'cw) ws_lib \<Rightarrow> 'd dec \<Rightarrow> (nat \<Rightarrow> nat) \<Rightarrow> ('cert, 'c, 'd, 'x) session \<Rightarrow> action list \<Rightarrow> ('cert, 'c, 'd, 'x) session \<Rightarrow> bool"
  for L D k where
  run_nil: "session_run L D k s [] s"
| run_snoc: "session_run L D k s as s' \<Longrightarrow> session_step L D k s' a s'' \<Longrightarrow> session_run L D k s (as @ [a]) s''"

text \<open>The specification: two queues of messages, with what an action does to them; \<^const>\<open>None\<close> if they do not allow it.\<close>

fun pipe_step :: "action \<Rightarrow> (bool \<Rightarrow> bytes list) \<Rightarrow> (bool \<Rightarrow> bytes list) option" where
  "pipe_step (Send b p n e) q = (if n = length p \<and> e = None then Some (q(b := q b @ [p])) else None)"
| "pipe_step (Carry b n) q = Some q"
| "pipe_step (Receive b p x) q =
     (case q (\<not> b) of [] \<Rightarrow> None | m # ms \<Rightarrow> if p = m \<and> x = EOF then Some (q((\<not> b) := ms)) else None)"

fun pipes :: "action list \<Rightarrow> (bool \<Rightarrow> bytes list) \<Rightarrow> (bool \<Rightarrow> bytes list) option" where
  "pipes [] q = Some q"
| "pipes (a # as) q = Option.bind (pipe_step a q) (pipes as)"

lemma pipes_append: "pipes (as @ bs) q = Option.bind (pipes as q) (pipes bs)"
proof (induction as arbitrary: q)
  case (Cons a as)
  then show ?case by (cases "pipe_step a q") simp_all
qed simp

text \<open>What the queues promise by themselves: each end receives what the other sent, in order, up to what is still queued.\<close>

fun sent_by :: "bool \<Rightarrow> action list \<Rightarrow> bytes list" where
  "sent_by b [] = []"
| "sent_by b (Send c p n e # as) = (if c = b then p # sent_by b as else sent_by b as)"
| "sent_by b (_ # as) = sent_by b as"

fun received_by :: "bool \<Rightarrow> action list \<Rightarrow> bytes list" where
  "received_by b [] = []"
| "received_by b (Receive c p x # as) = (if c = b then p # received_by b as else received_by b as)"
| "received_by b (_ # as) = received_by b as"

lemma by_append [simp]:
  "sent_by b (as @ bs) = sent_by b as @ sent_by b bs" "received_by b (as @ bs) = received_by b as @ received_by b bs"
  by (induction b as rule: sent_by.induct) auto

lemma pipes_order: "pipes as q = Some q' \<Longrightarrow> q b @ sent_by b as = received_by (\<not> b) as @ q' b"
proof (induction as arbitrary: q)
  case (Cons a as)
  then obtain q1 where q1: "pipe_step a q = Some q1" "pipes as q1 = Some q'" by (auto simp: bind_eq_Some_conv)
  from Cons.IH [OF q1(2)] q1(1) show ?case by (cases a) (auto split: if_splits list.splits)
qed simp

section \<open>A frame that has arrived\<close>

lemma parse_header_append:
  assumes "parse_header bs = Parsed h rest"
  shows "parse_header (bs @ z) = Parsed h (rest @ z)"
proof -
  obtain b0 b1 r where bs: "bs = b0 # b1 # r" using assms by (auto simp: parse_header_def split: list.splits)
  define lsz msz :: nat where "lsz = (if b1 AND 0x7f = 126 then 2 else if b1 AND 0x7f = 127 then 8 else 0)"
    and "msz = (if b1 AND 0x80 \<noteq> 0 then 4 else 0)"
  have e: "parse_header (b0 # b1 # r) = (if length r < lsz + msz then TooShort
      else if b1 AND 0x7f = 127 \<and> hd (take lsz r) AND 0x80 \<noteq> 0 then LengthMSB
      else Parsed \<lparr>h_fin = b0 AND 0x80 \<noteq> 0, h_rsv = drop_bit 4 (b0 AND 0x70), h_op = b0 AND 0x0f,
          h_masked = b1 AND 0x80 \<noteq> 0, h_mask = (if b1 AND 0x80 \<noteq> 0 then mask_of (take 4 (drop lsz r)) else Mask 0 0 0 0),
          h_length = (if lsz = 0 then ucast (b1 AND 0x7f) else word_of_nat (be_dec (take lsz r)))\<rparr> (drop msz (drop lsz r)))" for r
    unfolding parse_header_def Let_def lsz_def msz_def list.case ..
  have long: "\<not> length r < lsz + msz" using assms by (auto simp: bs e)
  then have t: "take lsz (r @ z) = take lsz r" "drop lsz (r @ z) = drop lsz r @ z" "drop msz (drop lsz r @ z) = drop msz (drop lsz r) @ z"
    by (simp_all add: msz_def)
  show ?thesis using assms long t(1-3) by (auto simp: bs e msz_def split: if_splits)
qed

lemma whole_frame_wire: "op AND 0x0f = op \<Longrightarrow> length p < 2 ^ 63 \<Longrightarrow> whole_frame (wire_frame client op msk cmp p @ z)"
  using parse_wire_frame [of op p client msk cmp z] unat_i64_small [of "length p"] by (simp add: whole_frame_def)

lemma whole_frame_arrived:
  assumes whole: "whole_frame c" and op: "op AND 0x0f = op" and len: "length p < 2 ^ 63"
    and eq: "c @ u = wire_frame client op msk cmp p @ z"
  shows "\<exists>rest. c = wire_frame client op msk cmp p @ rest \<and> z = rest @ u"
proof -
  let ?w = "wire_frame client op msk cmp p" and ?b = "if client then cipher_spec msk 0 p else p"
  obtain h rest where h: "parse_header c = Parsed h rest" "nat (sint (h_length h)) \<le> length rest"
    using whole by (auto simp: whole_frame_def split: parsed.splits)
  have "Parsed h (rest @ u) = parse_header (?w @ z)" using parse_header_append [OF h(1), of u] eq by simp
  with parse_wire_frame [OF op len, of client msk cmp z] unat_i64_small [OF len]
  have r: "rest @ u = ?b @ z" "nat (sint (h_length h)) = length p" by auto
  have "length rest + length u = length p + length z" using arg_cong [OF r(1), of length] by simp
  with h(2) r(2) have "length u \<le> length z" by simp
  moreover have "length c + length u = length ?w + length z" using arg_cong [OF eq, of length] by simp
  ultimately have "length ?w \<le> length c" by simp
  then have "take (length c) (?w @ z) = ?w @ take (length c - length ?w) z" by simp
  then have "c = ?w @ take (length c - length ?w) z" using arg_cong [OF eq, of "take (length c)"] by simp
  with eq show ?thesis by (metis append_assoc same_append_eq)
qed

section \<open>The session is two queues\<close>

text \<open>The ends at the start: each can read what the other writes.\<close>

definition linked ::
    "('x, 'cw) ws_lib \<Rightarrow> 'd dec \<Rightarrow> ('c comp_ops \<Rightarrow> bool) \<Rightarrow> (bool \<Rightarrow> ('cert, 'c, 'd, 'x) ws_transport) \<Rightarrow> bool" where
  "linked L D P e \<longleftrightarrow> (\<forall>b. end_ok L P (e b) \<and> peer_of L (st_client L (t_state (e b))) (t_opCode (e b)) (e (\<not> b))
     \<and> (compressing (e b) \<longrightarrow> inflate_peer L D (st_client L (t_state (e b))) (e (\<not> b))))"

text \<open>One direction: the bytes that have arrived and those in transit are the frames of the messages that are queued.\<close>

definition flow ::
    "('x, 'cw) ws_lib \<Rightarrow> 'd dec \<Rightarrow> (nat \<Rightarrow> nat) \<Rightarrow> (bool \<Rightarrow> ('cert, 'c, 'd, 'x) ws_transport) \<Rightarrow> ('cert, 'c, 'd, 'x) session \<Rightarrow> bool
      \<Rightarrow> bytes list \<Rightarrow> bool" where
  "flow L D k e s b q \<longleftrightarrow> s_carried s b \<le> length (concat (out (t_conn (s_end s b))))
     \<and> (\<exists>ms. conn_content (t_conn (s_end s (\<not> b))) @ transit s b = concat (map (wire_of L (e b)) ms)
          \<and> map (fst \<circ> snd) ms = q \<and> (\<forall>m \<in> set ms. carries D k (e b) (e (\<not> b)) m))"

definition session_inv ::
    "('x, 'cw) ws_lib \<Rightarrow> 'd dec \<Rightarrow> (nat \<Rightarrow> nat) \<Rightarrow> ('c comp_ops \<Rightarrow> bool) \<Rightarrow> (bool \<Rightarrow> ('cert, 'c, 'd, 'x) ws_transport)
      \<Rightarrow> ('cert, 'c, 'd, 'x) session \<Rightarrow> (bool \<Rightarrow> bytes list) \<Rightarrow> bool" where
  "session_inv L D k P e s q \<longleftrightarrow> (\<forall>b. end_ok L P (s_end s b) \<and> t_setup L (s_end s b) = t_setup L (e b) \<and> flow L D k e s b (q b))"

text \<open>A transport with the setup of another: the conditions on writer and reader carry over.\<close>

lemma same_setup:
  assumes su: "t_setup L t' = t_setup L t" and ok: "end_ok L P t" "end_ok L P' t'"
  shows "peer_of L c op t' = peer_of L c op t" "inflate_peer L D c t' = inflate_peer L D c t"
    "carries D k w t' = carries D k w t" "carries D k t' u = carries D k t u"
    "wire_of L t' = wire_of L t" "sendable D k P t' u = sendable D k P t u" "sendable D k P w t' = sendable D k P w t"
proof -
  have r: "state_laws L" "idle L (t_reader t)" "idle L (t_reader t')" using ok by (auto simp: end_ok_def ready_def lib_ok_def)
  note p = setup_peer [OF su r]
  show "peer_of L c op t' = peer_of L c op t" "inflate_peer L D c t' = inflate_peer L D c t"
    using p(1) setup_inflate_peer [OF su r] by simp_all
  have f: "fits t' = fits t" using p(2) by (simp add: fun_eq_iff)
  then show "carries D k w t' = carries D k w t" "sendable D k P w t' = sendable D k P w t"
    by (simp_all add: carries_def takes_def sendable_def fun_eq_iff)
  have s: "t_state t' = t_state t" "t_opCode t' = t_opCode t" "compresses t' = compresses t" "compressing t' = compressing t"
    using su by (simp_all add: t_setup_def compresses_def compress_wanted_def compressing_def fun_eq_iff)
  then show "carries D k t' u = carries D k t u" "wire_of L t' = wire_of L t" "sendable D k P t' u = sendable D k P t u"
    by (simp_all add: wire_of_def sendable_def carries_def fun_eq_iff)
qed

lemma takes_wire:
  assumes "carries D k w' t m"
  obtains msk cmp z where "wire_of L w m = wire_frame (st_client L (t_state w)) (t_opCode w) msk cmp z" and "length z < 2 ^ 63"
  using assms by (cases m) (auto simp: carries_def takes_def wire_of_def wired_def fits_def split: option.splits)

lemma linked_op: "linked L D P e \<Longrightarrow> t_opCode (e b) AND 0x0f = t_opCode (e b)"
proof -
  assume l: "linked L D P e"
  then have "opcode_laws L" "t_opCode (e b) \<in> {OpText L, OpBinary L}"
    by (auto simp: linked_def end_ok_def ready_def lib_ok_def peer_of_def)
  then show ?thesis by (auto simp: opcode_laws_def)
qed

section \<open>The actions, one by one\<close>

lemma send_inv:
  assumes inv: "session_inv L D k P e s q" and link: "linked L D P e" and p: "sendable D k P (e b) (e (\<not> b)) p"
    and w: "Write L (s_end s b) p = Some (t, x, n, err)"
  shows "n = length p \<and> err = None \<and> session_inv L D k P e (s\<lparr>s_end := (s_end s)(b := t)\<rparr>) (q(b := q b @ [p]))"
proof -
  have e: "end_ok L P (s_end s b)" "t_setup L (s_end s b) = t_setup L (e b)" using inv by (simp_all add: session_inv_def)
  have "end_ok L P (e b)" using link by (simp add: linked_def)
  note same = same_setup [OF e(2) this e(1)]
  have "sendable D k P (s_end s b) (e (\<not> b)) p" using p same(6) by simp
  from Write_sends [OF e(1) this] w obtain m where r: "n = length p" "err = None" "fst (snd m) = p" "carries D k (e b) (e (\<not> b)) m"
    "end_ok L P t" "t_setup L t = t_setup L (e b)" "out (t_conn t) = out (t_conn (s_end s b)) @ [wire_of L (e b) m]"
    "conn_content (t_conn t) = conn_content (t_conn (s_end s b))"
    using e(2) same(4,5) by auto
  let ?s = "s\<lparr>s_end := (s_end s)(b := t)\<rparr>"
  have "flow L D k e ?s c ((q(b := q b @ [p])) c)" for c
  proof -
    have fl: "flow L D k e s c (q c)" using inv by (simp add: session_inv_def)
    show ?thesis
    proof (cases "c = b")
      case True
      from fl obtain ms where ms: "conn_content (t_conn (s_end s (\<not> b))) @ transit s b = concat (map (wire_of L (e b)) ms)"
        "map (fst \<circ> snd) ms = q b" "\<forall>m \<in> set ms. carries D k (e b) (e (\<not> b)) m" "s_carried s b \<le> length (concat (out (t_conn (s_end s b))))"
        by (auto simp: flow_def True)
      have "transit ?s b = transit s b @ wire_of L (e b) m" using r(7) ms(4) by (simp add: transit_def)
      with ms r True show ?thesis unfolding flow_def by (intro conjI exI [of _ "ms @ [m]"]) auto
    next
      case False
      then have "c = (\<not> b)" by blast
      with fl r(8) False show ?thesis by (auto simp: flow_def transit_def)
    qed
  qed
  with inv r show ?thesis by (simp add: session_inv_def)
qed

lemma carry_inv:
  assumes inv: "session_inv L D k P e s q" and n: "n \<le> length (transit s b)"
  shows "session_inv L D k P e (s\<lparr>s_end := (s_end s)((\<not> b) := arrive (take n (transit s b)) (s_end s (\<not> b))),
    s_carried := (s_carried s)(b := s_carried s b + n)\<rparr>) q" (is "session_inv L D k P e ?s q")
proof -
  let ?t = "s_end s (\<not> b)" and ?u = "arrive (take n (transit s b)) (s_end s (\<not> b))"
  have i: "end_ok L P ?t" "t_setup L ?t = t_setup L (e (\<not> b))" "flow L D k e s b (q b)" "flow L D k e s (\<not> b) (q (\<not> b))"
    using inv by (simp_all add: session_inv_def)
  have u: "t_conn ?u = (t_conn ?t)\<lparr>in_chunks := in_chunks (t_conn ?t) @ [take n (transit s b)]\<rparr>" by (simp add: arrive_def)
  then have c: "conn_content (t_conn ?u) = conn_content (t_conn ?t) @ take n (transit s b)" "out (t_conn ?u) = out (t_conn ?t)"
    by (simp_all add: conn_content_def)
  have r: "t_reader ?u = fr_set_dst (t_conn ?u) (t_reader ?t)" unfolding u by (simp add: arrive_def t_set_conn_def)
  have wo: "writers_ok P ?u = writers_ok P ?t" by (rule writers_ok_cong) (simp_all add: arrive_def)
  have cm: "compressing ?u = compressing ?t" by (simp add: compressing_def arrive_def)
  have "ready L ?u" using i(1) u r
    by (simp add: end_ok_def ready_def idle_def fr_set_dst_def fragmented_def quiet_def arrive_def t_conn_def fr_dst_def)
  then have eu: "end_ok L P ?u" using i(1) u wo cm by (simp add: end_ok_def) (simp add: arrive_def)
  have "t_setup L ?u = t_setup L ?t" using u r
    by (simp add: t_setup_def arrive_def fr_setup_def fr_cfg_def fr_set_dst_def t_conn_def fr_dst_def)
  with i(2) have su: "t_setup L ?u = t_setup L (e (\<not> b))" by simp
  have tr: "transit s b = take n (transit s b) @ transit ?s b" "transit ?s (\<not> b) = transit s (\<not> b)"
    using c(2) by (simp_all add: transit_def drop_drop add.commute flip: drop_drop)
  have le: "s_carried s b + n \<le> length (concat (out (t_conn (s_end s b))))"
    using n conjunct1 [OF i(3) [unfolded flow_def]] by (simp add: transit_def del: length_concat)
  have "flow L D k e ?s b (q b)" using i(3) c(1) tr(1) le unfolding flow_def by auto
  moreover have "flow L D k e ?s (\<not> b) (q (\<not> b))" using i(4) c(2) tr(2) unfolding flow_def by auto
  ultimately have "flow L D k e ?s c (q c)" for c by (cases "c = b") auto
  with inv eu su show ?thesis by (simp add: session_inv_def)
qed

lemma flow_front:
  assumes inv: "session_inv L D k P e s q" and link: "linked L D P e" and q: "q b = p # ps"
  obtains m ms msk cmp z where "conn_content (t_conn (s_end s (\<not> b))) @ transit s b = wire_of L (e b) m @ concat (map (wire_of L (e b)) ms)"
    and "fst (snd m) = p" and "map (fst \<circ> snd) ms = ps" and "carries D k (e b) (e (\<not> b)) m" and "\<forall>m \<in> set ms. carries D k (e b) (e (\<not> b)) m"
    and "wire_of L (e b) m = wire_frame (st_client L (t_state (e b))) (t_opCode (e b)) msk cmp z" and "length z < 2 ^ 63"
proof -
  from inv obtain ms where ms: "conn_content (t_conn (s_end s (\<not> b))) @ transit s b = concat (map (wire_of L (e b)) ms)"
    "map (fst \<circ> snd) ms = q b" "\<forall>m \<in> set ms. carries D k (e b) (e (\<not> b)) m" by (auto simp: session_inv_def flow_def)
  with q obtain m ms' where m: "ms = m # ms'" "fst (snd m) = p" "map (fst \<circ> snd) ms' = ps" by auto
  with ms(3) have t: "carries D k (e b) (e (\<not> b)) m" by simp
  obtain msk cmp z where "wire_of L (e b) m = wire_frame (st_client L (t_state (e b))) (t_opCode (e b)) msk cmp z" "length z < 2 ^ 63"
    by (rule takes_wire [OF t])
  with that [of m ms'] m ms t show thesis by simp
qed

text \<open>What a \<open>Read\<close> finds when the first frame of its direction has arrived.\<close>

lemma receive_front:
  assumes inv: "session_inv L D k P e s q" and link: "linked L D P e" and k: "\<And>i. 0 < k i"
    and q: "q (\<not> b) = p # ps" and whole: "whole_frame (conn_content (t_conn (s_end s b)))"
  shows "\<exists>t. read_all (Read L D) k (s_end s b) [] = Some (t, p, EOF)
    \<and> session_inv L D k P e (s\<lparr>s_end := (s_end s)(b := t)\<rparr>) (q((\<not> b) := ps))"
proof -
  let ?t = "s_end s b" and ?w = "e (\<not> b)"
  have i: "end_ok L P ?t" "t_setup L ?t = t_setup L (e b)" using inv by (simp_all add: session_inv_def)
  have l: "end_ok L P (e b)" "peer_of L (st_client L (t_state ?w)) (t_opCode ?w) (e b)"
    "compressing ?w \<Longrightarrow> inflate_peer L D (st_client L (t_state ?w)) (e b)" using link [unfolded linked_def, rule_format, of b] link [unfolded linked_def, rule_format, of "\<not> b"] by simp_all
  note same = same_setup [OF i(2) l(1) i(1)]
  obtain m ms msk cmp z where f: "conn_content (t_conn ?t) @ transit s (\<not> b) = wire_of L ?w m @ concat (map (wire_of L ?w) ms)"
    "fst (snd m) = p" "map (fst \<circ> snd) ms = ps" "carries D k (e (\<not> b)) (e b) m" "\<forall>m \<in> set ms. carries D k (e (\<not> b)) (e b) m"
    "wire_of L ?w m = wire_frame (st_client L (t_state ?w)) (t_opCode ?w) msk cmp z" "length z < 2 ^ 63"
    by (rule flow_front [OF inv link q]) auto
  obtain rest where rest: "conn_content (t_conn ?t) = wire_of L ?w m @ rest" "concat (map (wire_of L ?w) ms) = rest @ transit s (\<not> b)"
    using whole_frame_arrived [OF whole linked_op [OF link, of "\<not> b"] f(7)] f(1,6) by metis
  have rd: "ready L ?t" "\<not> in_eager (t_conn ?t)" using i(1) by (auto simp: end_ok_def)
  have "conn_content (t_conn ?t) = wired (st_client L (t_state ?w)) (t_opCode ?w) m @ rest" using rest(1) by (simp add: wire_of_def)
  then obtain t where t: "read_all (Read L D) k ?t [] = Some (t, p, EOF)" "ready L t" "conn_content (t_conn t) = rest"
    "t_setup L t = t_setup L ?t" "heard ?t t"
    using read_wired [where k = k and D = D and m = m and t = ?t, OF rd(1) _ _ k _ _ rd(2)] l(2,3) f(2,4) same(1-3) carries_def by metis
  let ?s = "s\<lparr>s_end := (s_end s)(b := t)\<rparr>"
  have env: "conn_env (t_conn t) = conn_env (t_conn ?t)" and ht: "t = ?t\<lparr>t_reader := t_reader t, t_msgReader := t_msgReader t\<rparr>"
    using t(5) by (simp_all add: heard_def)
  have "t_persistentFlateWriter t = t_persistentFlateWriter ?t" "t_writers t = t_writers ?t" "t_options t = t_options ?t" "t_pool t = t_pool ?t"
    "t_negotiated t = t_negotiated ?t"
    by (subst ht, simp)+
  moreover from writers_ok_cong [OF this(1-3)] have "writers_ok P t = writers_ok P ?t" .
  ultimately have et: "end_ok L P t" using i(1) t(2) env by (simp add: end_ok_def pool_ok_def conn_env_def compressing_def)
  have tr: "transit ?s c = transit s c" for c using env by (simp add: transit_def conn_env_def)
  have o: "out (t_conn t) = out (t_conn ?t)" using env by (simp add: conn_env_def)
  have fl: "flow L D k e s c (q c)" for c using inv by (simp add: session_inv_def)
  have "flow L D k e ?s b (q b)" using fl [of b] o tr [of b] by (auto simp: flow_def)
  moreover have "flow L D k e ?s (\<not> b) ps"
    using fl [of "\<not> b"] f(3,5) rest(2) t(3) tr [of "\<not> b"] unfolding flow_def by (intro conjI exI [of _ ms]) auto
  ultimately have "flow L D k e ?s c ((q((\<not> b) := ps)) c)" for c by (cases "c = b") auto
  with inv et t(4) i(2) have "session_inv L D k P e ?s (q((\<not> b) := ps))" by (simp add: session_inv_def)
  with t(1) show ?thesis by blast
qed

lemma whole_frame_queued:
  assumes inv: "session_inv L D k P e s q" and whole: "whole_frame (conn_content (t_conn (s_end s (\<not> b))))"
  shows "q b \<noteq> []"
proof
  assume "q b = []"
  moreover have "flow L D k e s b (q b)" using inv by (simp add: session_inv_def)
  ultimately have "conn_content (t_conn (s_end s (\<not> b))) = []" by (auto simp: flow_def)
  with whole show False by (simp add: whole_frame_def parse_header_def)
qed

lemma arrived_whole:
  assumes inv: "session_inv L D k P e s q" and link: "linked L D P e" and q: "q b \<noteq> []" and t: "transit s b = []"
  shows "whole_frame (conn_content (t_conn (s_end s (\<not> b))))"
proof -
  obtain p ps where "q b = p # ps" using q by (cases "q b") auto
  from flow_front [OF inv link this] obtain m ms msk cmp z where
    "conn_content (t_conn (s_end s (\<not> b))) @ transit s b = wire_of L (e b) m @ concat (map (wire_of L (e b)) ms)"
    "wire_of L (e b) m = wire_frame (st_client L (t_state (e b))) (t_opCode (e b)) msk cmp z" "length z < 2 ^ 63" by metis
  with whole_frame_wire [OF linked_op [OF link, of b]] t show ?thesis by simp
qed

section \<open>Refinement\<close>

text \<open>The actions of which every message can be sent.\<close>

fun may_send ::
    "'d dec \<Rightarrow> (nat \<Rightarrow> nat) \<Rightarrow> ('c comp_ops \<Rightarrow> bool) \<Rightarrow> (bool \<Rightarrow> ('cert, 'c, 'd, 'x) ws_transport) \<Rightarrow> action \<Rightarrow> bool" where
  "may_send D k P e (Send b p n err) = sendable D k P (e b) (e (\<not> b)) p"
| "may_send D k P e (Carry b n) = True"
| "may_send D k P e (Receive b p x) = True"

lemma session_step_pipes:
  assumes step: "session_step L D k s a s'" and inv: "session_inv L D k P e s q" and link: "linked L D P e"
    and k: "\<And>i. 0 < k i" and a: "may_send D k P e a"
  shows "\<exists>q'. pipe_step a q = Some q' \<and> session_inv L D k P e s' q'"
  using step
proof (cases rule: session_step_cases)
  case (send b p t x n err)
  with send_inv [OF inv link, of b p t x n err] a show ?thesis by simp
next
  case (carry n b)
  with carry_inv [OF inv] show ?thesis by simp
next
  case (receive b t p x)
  have "q (\<not> b) \<noteq> []" using whole_frame_queued [OF inv, of "\<not> b"] receive(3) by simp
  then obtain m ms where "q (\<not> b) = m # ms" by (cases "q (\<not> b)") auto
  with receive_front [OF inv link k this receive(3)] receive(1,2,4) show ?thesis by auto
qed

lemma session_run_pipes:
  assumes "session_run L D k s as s'" and "session_inv L D k P e s q" and "linked L D P e" and "\<And>i. 0 < k i"
    and "\<forall>a \<in> set as. may_send D k P e a"
  shows "\<exists>q'. pipes as q = Some q' \<and> session_inv L D k P e s' q'"
  using assms(1,2,5)
proof (induction rule: session_run.induct)
  case (run_snoc s as s1 a s2)
  then obtain q1 where "pipes as q = Some q1" "session_inv L D k P e s1 q1" by auto
  with session_step_pipes [OF run_snoc.hyps(2) _ assms(3,4)] run_snoc.prems(2) show ?case by (force simp: pipes_append)
qed simp

section \<open>What a session can always do\<close>

lemma can_send:
  assumes inv: "session_inv L D k P e s q" and link: "linked L D P e" and p: "sendable D k P (e b) (e (\<not> b)) p"
  shows "\<exists>s'. session_step L D k s (Send b p (length p) None) s'"
proof -
  have i: "end_ok L P (s_end s b)" "t_setup L (s_end s b) = t_setup L (e b)" using inv by (simp_all add: session_inv_def)
  have "end_ok L P (e b)" using link by (simp add: linked_def)
  from same_setup(6) [OF i(2) this i(1)] p have "sendable D k P (s_end s b) (e (\<not> b)) p" by simp
  from Write_sends [OF i(1) this] step_send show ?thesis by metis
qed

lemma can_carry:
  assumes "transit s b \<noteq> []"
  shows "\<exists>n s'. session_step L D k s (Carry b n) s' \<and> transit s' b = []"
proof -
  let ?n = "length (transit s b)"
  let ?s = "s\<lparr>s_end := (s_end s)((\<not> b) := arrive (take ?n (transit s b)) (s_end s (\<not> b))),
      s_carried := (s_carried s)(b := s_carried s b + ?n)\<rparr>"
  have "session_step L D k s (Carry b ?n) ?s" by (rule step_carry) (use assms in simp_all)
  moreover have "transit ?s b = []" by (auto simp: transit_def simp del: length_concat)
  ultimately show ?thesis by blast
qed

lemma can_receive:
  assumes inv: "session_inv L D k P e s q" and link: "linked L D P e" and k: "\<And>i. 0 < k i"
    and q: "q b \<noteq> []" and t: "transit s b = []"
  shows "\<exists>s'. session_step L D k s (Receive (\<not> b) (hd (q b)) EOF) s'"
proof -
  note w = arrived_whole [OF inv link q t]
  obtain p ps where "q b = p # ps" using q by (cases "q b") auto
  with receive_front [OF inv link k, of "\<not> b" p ps] w step_receive [OF w] show ?thesis by fastforce
qed

section \<open>The ends that \<open>newWebsocketTransport\<close> makes\<close>

text \<open>Both negotiated compression, or both leave it off.\<close>

definition plain_setup :: "('x, 'cw) ws_lib \<Rightarrow> ('cert, 'c) ws_options \<Rightarrow> ext_option list \<Rightarrow> conn \<Rightarrow> bool" where
  "plain_setup L opts hs c \<longleftrightarrow> lib_ok L \<and> check_laws L \<and> compression_laws L \<and> \<not> o_CheckUTF8 opts \<and> quiet c
     \<and> \<not> (o_CompressEnabled opts \<and> n_enabled (parsePerMessageDeflate hs no_negotiation))"

definition session_setup ::
    "('x, 'cw) ws_lib \<Rightarrow> 'd dec \<Rightarrow> 'c flate_lib \<Rightarrow> ('c comp_ops \<Rightarrow> bool) \<Rightarrow> bool \<Rightarrow> ('cert, 'c) ws_options \<Rightarrow> ext_option list
      \<Rightarrow> conn \<Rightarrow> 'c writer_store \<Rightarrow> bool" where
  "session_setup L D F P deflating opts hs c wst \<longleftrightarrow> (if deflating then deflate_setup L D F P opts hs c wst else plain_setup L opts hs c)"

lemma new_plain:
  assumes new: "newWebsocketTransport L D F nc opts client req hs c fst0 wst rnd pool = Some (Inr t)"
    and su: "plain_setup L opts hs c"
  shows "ready L t" and "\<not> compressing t" and "t_conn t = c" and "t_opCode t = choose_opCode L opts" and "t_pool t = pool"
    and "t_state t = (if client then StateClientSide L else StateServerSide L)"
    and "op \<in> {OpText L, OpBinary L} \<Longrightarrow> op AND o_OpCode opts \<noteq> 0 \<Longrightarrow> peer_of L (\<not> client) op t"
proof -
  have t: "t = base_transport L D opts client req hs c fst0 wst rnd pool" and neg: "\<not> compressing t"
    using new su
    by (auto simp: newWebsocketTransport_def plain_setup_def compressing_def Let_def base_transport_fields no_negotiation_def
        parsePerMessageDeflate.simps split: option.splits if_splits)
  show "\<not> compressing t" by (rule neg)
  have f: "t_options t = opts" "\<not> t_msgReader t" "lw_src (fr_low (t_reader t)) = c" "\<not> fr_CheckUTF8 (t_reader t)"
    "fr_flateReader (t_reader t) = None" "fr_Extensions (t_reader t) = []"
    "fr_state (t_reader t) = (if client then StateClientSide L else StateServerSide L) OR StateExtended L"
    using su by (simp_all add: t base_transport_def Let_def NewFrameReader_def plain_setup_def)
  show "t_opCode t = choose_opCode L opts" "t_pool t = pool" "t_state t = (if client then StateClientSide L else StateServerSide L)"
    by (simp_all add: t base_transport_def Let_def)
  show "t_conn t = c" using f(3) by (simp add: t_conn_def fr_dst_def)
  have sl: "state_laws L" using su by (simp add: plain_setup_def lib_ok_def)
  show "ready L t" using su f sl by (simp add: ready_def idle_def plain_setup_def fragmented_def state_laws_def)
  assume "op \<in> {OpText L, OpBinary L}" "op AND o_OpCode opts \<noteq> 0"
  with f sl show "peer_of L (\<not> client) op t" by (auto simp: peer_of_def state_laws_def)
qed

text \<open>The end that one of the two makes, whatever was negotiated.\<close>

lemma new_end:
  assumes new: "newWebsocketTransport L D F nc opts client req hs c fst0 wst rnd pool = Some (Inr t)"
    and su: "session_setup L D F P deflating opts hs c wst" and pool: "\<forall>n. length (pool n) = n" and eager: "\<not> in_eager c"
  shows "end_ok L P t" and "compressing t = deflating" and "st_client L (t_state t) = client" and "t_conn t = c"
    and "t_opCode t = choose_opCode L opts" and "deflating \<Longrightarrow> inflate_peer L D (\<not> client) t"
    and "op \<in> {OpText L, OpBinary L} \<Longrightarrow> op AND o_OpCode opts \<noteq> 0 \<Longrightarrow> peer_of L (\<not> client) op t"
proof -
  have sl: "state_laws L" "quiet c"
    using su by (auto simp: session_setup_def deflate_setup_def plain_setup_def lib_ok_def split: if_splits)
  have "end_ok L P t \<and> compressing t = deflating \<and> st_client L (t_state t) = client \<and> t_conn t = c
      \<and> t_opCode t = choose_opCode L opts \<and> (deflating \<longrightarrow> inflate_peer L D (\<not> client) t)
      \<and> (op \<in> {OpText L, OpBinary L} \<longrightarrow> op AND o_OpCode opts \<noteq> 0 \<longrightarrow> peer_of L (\<not> client) op t)" for op
  proof (cases deflating)
    case True
    with su have d: "deflate_setup L D F P opts hs c wst" by (simp add: session_setup_def)
    note n = new_deflating [OF new d]
    have "compresses t (replicate (nat (sint (o_CompressThreshold opts))) 0)" using n(8) by simp
    then have "compressing t" by (simp add: compresses_def compressing_def compress_wanted_def)
    with n(1-7) n(10) [of op] pool eager sl True show ?thesis by (simp add: end_ok_def pool_ok_def quiet_def state_laws_def)
  next
    case False
    with su have d: "plain_setup L opts hs c" by (simp add: session_setup_def)
    note n = new_plain [OF new d]
    from n(1-6) n(7) [of op] pool eager sl False show ?thesis by (simp add: end_ok_def pool_ok_def quiet_def state_laws_def)
  qed
  then show "end_ok L P t" "compressing t = deflating" "st_client L (t_state t) = client" "t_conn t = c"
    "t_opCode t = choose_opCode L opts" "deflating \<Longrightarrow> inflate_peer L D (\<not> client) t"
    "op \<in> {OpText L, OpBinary L} \<Longrightarrow> op AND o_OpCode opts \<noteq> 0 \<Longrightarrow> peer_of L (\<not> client) op t" by blast+
qed

lemma new_linked:
  assumes c: "newWebsocketTransport L D F ncc oc True rqc hc cc fsc wsc rndc poolc = Some (Inr c)" "session_setup L D F P z oc hc cc wsc"
    and v: "newWebsocketTransport L D F ncv ov False rqv hv cv fsv wsv rndv poolv = Some (Inr v)" "session_setup L D F P z ov hv cv wsv"
    and accepted: "choose_opCode L oc AND o_OpCode ov \<noteq> 0" "choose_opCode L ov AND o_OpCode oc \<noteq> 0"
    and pool: "\<forall>n. length (poolc n) = n" "\<forall>n. length (poolv n) = n" and eager: "\<not> in_eager cc" "\<not> in_eager cv"
  shows "linked L D P (\<lambda>b. if b then c else v)"
proof -
  note nc = new_end [OF c pool(1) eager(1)] and nv = new_end [OF v pool(2) eager(2)]
  have "t_opCode c \<in> {OpText L, OpBinary L}" "t_opCode v \<in> {OpText L, OpBinary L}"
    using nc(5) nv(5) by (simp_all add: choose_opCode_def)
  then have "peer_of L True (t_opCode c) v" "peer_of L False (t_opCode v) c"
    using nc(5,7) nv(5,7) accepted by simp_all
  then show ?thesis using nc(1-3,6) nv(1-3,6) by (auto simp: linked_def)
qed

lemma session_inv_start:
  assumes "linked L D P e" and "\<And>b. in_chunks (t_conn (e b)) = [] \<and> out (t_conn (e b)) = []"
  shows "session_inv L D k P e \<lparr>s_end = e, s_carried = (\<lambda>_. 0)\<rparr> (\<lambda>_. [])"
  using assms by (simp add: session_inv_def linked_def flow_def transit_def conn_content_def)

end
