(* ===== verification/SessionProperties.thy ===== *)
theory SessionProperties
  imports WsSession DeflateProperties
begin

text \<open>
  Both directions of a connection at once: the sessions of two transports against the specification as two queues.
\<close>


text \<open>The client sends a message that is compressed, the server one that is not; the network brings the first, and it is read.\<close>

definition ex_ends :: "bool \<Rightarrow> (unit, unit, unit, unit) ws_transport" where
  "ex_ends = (\<lambda>b. if b then ex_end True ex_takeover [] else ex_end False ex_offer [])"

lemma ex_ends_sendable: "length p < 9 \<Longrightarrow> sendable ex_inflate (\<lambda>_. 8) (\<lambda>C. C = ex_comp) (ex_ends b) (ex_ends c) p"
proof -
  assume p: "length p < 9"
  have o: "ex_takeover \<in> {ex_offer, ex_takeover}" "ex_offer \<in> {ex_offer, ex_takeover}" by simp_all
  have "fits (ex_ends c) p"
    using p new_deflating(9) [OF ex_new_end [OF o(1)] ex_deflate_setup [OF o(1)]] new_deflating(9) [OF ex_new_end [OF o(2)] ex_deflate_setup [OF o(2)]]
    by (simp add: fits_def ex_ends_def ex_compress_options_fields)
  with p show ?thesis by (auto simp: sendable_def intro!: ex_comp_deflates ex_inflates)
qed


end
