(* ===== verification/Progress.thy ===== *)
theory Progress
  imports Control
begin

text \<open>
  Readers on which no loop hangs: the contract of a reader that answers in every good state, whatever its source sends, and
  makes progress unless it returns an error.  Unlike \<open>byte_stream\<close> it says nothing of what is read; it is the interface on
  which the safety of the frame reader and of the transport rests, on input that need not be a WebSocket stream at all.
\<close>

section \<open>The interface\<close>

locale progressing =
  fixes rd :: "'s rd"
    and good :: "'s \<Rightarrow> bool"
    and left :: "'s \<Rightarrow> nat"
  assumes rd_safe: "good s \<Longrightarrow> \<exists>s' bs e. rd s n = Some (s', bs, e) \<and> good s' \<and> left s' \<le> left s
    \<and> (e = None \<longrightarrow> 0 < n \<longrightarrow> left s' < left s)"
begin

lemma read_loop_safe:
  assumes "good s"
  shows "\<exists>s' bs e. read_loop rd k s acc = Some (s', bs, e) \<and> good s' \<and> left s' \<le> left s
    \<and> (e = None \<longrightarrow> length acc < k \<longrightarrow> left s' < left s)"
  using assms
proof (induction "left s" arbitrary: s acc rule: less_induct)
  case less
  show ?case
  proof (cases "length acc < k")
    case False
    then show ?thesis using less.prems by (subst read_loop.simps) simp
  next
    case True
    obtain s1 bs e where r: "rd s (k - length acc) = Some (s1, bs, e)" "good s1" "left s1 \<le> left s"
      "e = None \<longrightarrow> 0 < k - length acc \<longrightarrow> left s1 < left s" using rd_safe [OF less.prems] by blast
    show ?thesis
    proof (cases e)
      case None
      with r True have lt: "left s1 < left s" by simp
      from less.hyps [OF this r(2), of "acc @ bs"] obtain s2 bs2 e2 where
        "read_loop rd k s1 (acc @ bs) = Some (s2, bs2, e2)" "good s2" "left s2 \<le> left s1" by blast
      with r(1) None True lt show ?thesis by (subst read_loop.simps) simp
    next
      case (Some x)
      with r True show ?thesis by (subst read_loop.simps) simp
    qed
  qed
qed

lemma read_full_safe:
  assumes "good s"
  shows "\<exists>s' bs e. read_full rd s k = Some (s', bs, e) \<and> good s' \<and> left s' \<le> left s"
  using read_loop_safe [OF assms, of k "[]"] by (auto simp: read_full_def)

lemma io_discard_safe:
  assumes "good s"
  shows "\<exists>s' e. io_discard rd s = Some (s', e) \<and> good s' \<and> left s' \<le> left s"
  using assms
proof (induction "left s" arbitrary: s rule: less_induct)
  case less
  obtain s1 bs e where r: "rd s 8192 = Some (s1, bs, e)" "good s1" "left s1 \<le> left s"
    "e = None \<longrightarrow> left s1 < left s" using rd_safe [OF less.prems, of 8192] by auto
  show ?case
  proof (cases e)
    case None
    with r(4) have "left s1 < left s" by simp
    from less.hyps [OF this r(2)] r(3) obtain s2 e2 where
      "io_discard rd s1 = Some (s2, e2)" "good s2" "left s2 \<le> left s" by (meson order_trans)
    with r(1) None show ?thesis by (subst io_discard.simps) simp
  next
    case (Some x)
    with r show ?thesis by (subst io_discard.simps) simp
  qed
qed

text \<open>\<open>io.Copy\<close> to a writer that may change the reader's state, but not for the worse.\<close>

lemma io_copy_safe:
  assumes "good s" and wr: "\<And>w s bs w' s' n e. good s \<Longrightarrow> wr w s bs = (w', s', n, e) \<Longrightarrow> good s' \<and> left s' \<le> left s"
  shows "\<exists>w' s' e. io_copy wr rd w s = Some (w', s', e) \<and> good s' \<and> left s' \<le> left s"
  using assms(1)
proof (induction "left s" arbitrary: s w rule: less_induct)
  case less
  obtain s1 bs e where r: "rd s 32768 = Some (s1, bs, e)" "good s1" "left s1 \<le> left s"
    "e = None \<longrightarrow> left s1 < left s" using rd_safe [OF less.prems, of 32768] by auto
  obtain w2 s2 ew where c: "copy_chunk wr w s1 bs = (w2, s2, ew)" by (metis prod_cases3)
  have s2: "good s2" "left s2 \<le> left s1"
    using c r(2) wr [OF r(2)] by (auto simp: copy_chunk_def split: if_splits prod.splits)
  show ?case
  proof (cases "ew = None \<and> e = None")
    case True
    then have "left s2 < left s" using r(4) s2(2) by auto
    from less.hyps [OF this s2(1), of w2] obtain w3 s3 e3 where
      "io_copy wr rd w2 s2 = Some (w3, s3, e3)" "good s3" "left s3 \<le> left s2" by blast
    with r(1,3) c s2 True show ?thesis by (subst io_copy.simps) simp
  next
    case False
    with r(1,3) c s2 show ?thesis by (subst io_copy.simps) (auto split: option.split)
  qed
qed

end

text \<open>A property of the state that every read keeps can be added.\<close>

lemma progressing_restrict:
  assumes "progressing rd good left" and "\<And>s n s' bs e. good s \<Longrightarrow> J s \<Longrightarrow> rd s n = Some (s', bs, e) \<Longrightarrow> J s'"
  shows "progressing rd (\<lambda>s. good s \<and> J s) left"
proof
  fix s n assume "good s \<and> J s"
  then show "\<exists>s' bs e. rd s n = Some (s', bs, e) \<and> (good s' \<and> J s') \<and> left s' \<le> left s \<and> (e = None \<longrightarrow> 0 < n \<longrightarrow> left s' < left s)"
    using progressing.rd_safe [OF assms(1), of s n] assms(2) by blast
qed

text \<open>A reader on a part of a bigger state.\<close>

lemma progressing_via:
  assumes "progressing rd good left" and "\<And>t s. get (put s t) = s"
  shows "progressing (via get put rd) (\<lambda>t. good (get t)) (\<lambda>t. left (get t))"
proof
  fix t n assume "good (get t)"
  then show "\<exists>t' bs e. via get put rd t n = Some (t', bs, e) \<and> good (get t') \<and> left (get t') \<le> left (get t)
      \<and> (e = None \<longrightarrow> 0 < n \<longrightarrow> left (get t') < left (get t))"
    using progressing.rd_safe [OF assms(1), of "get t" n] by (auto simp: via_def assms(2))
qed

section \<open>The connection and the readers below a frame\<close>

text \<open>What the connection still has: its bytes, and the reads that may return none.\<close>

definition conn_left :: "conn \<Rightarrow> nat" where
  "conn_left c = length (conn_content c) + length (in_chunks c)"

interpretation conn_prog: progressing conn_read "\<lambda>_. True" conn_left
proof
  fix c n
  obtain c' bs e where r: "conn_read c n = Some (c', bs, e)" by (rule net.rd_answers [OF TrueI])
  have "conn_left c' \<le> conn_left c" using conn_read_content [OF r] conn_read_chunks [OF r] by (simp add: conn_left_def)
  moreover have "conn_left c' < conn_left c" if "e = None" "0 < n"
    using net.rd_more [OF TrueI, of c n c' bs] r that conn_read_chunks [OF r] by (cases bs) (auto simp: conn_left_def)
  ultimately show "\<exists>s' bs e. conn_read c n = Some (s', bs, e) \<and> True \<and> conn_left s' \<le> conn_left c
      \<and> (e = None \<longrightarrow> 0 < n \<longrightarrow> conn_left s' < conn_left c)" using r by blast
qed

definition low_good :: "base_ref \<Rightarrow> lower \<Rightarrow> bool" where
  "low_good b l \<longleftrightarrow> base_ok b l \<and> 0 \<le> lw_n l"

abbreviation low_left :: "lower \<Rightarrow> nat" where
  "low_left l \<equiv> conn_left (lw_src l)"

interpretation base_prog: progressing "base_read b" "low_good b" low_left for b
proof
  fix l n assume "low_good b l"
  then have ok: "base_ok b l" "0 \<le> lw_n l" by (simp_all add: low_good_def)
  obtain l' bs e where r: "base_read b l n = Some (l', bs, e)" by (rule base.rd_answers [OF ok(1)])
  note f = base_read_frame [OF r]
  have "low_good b l'" using f(1) [OF ok(2)] base.rd_more [OF ok(1)] base.rd_sticky [OF ok(1)] r
    by (cases e) (auto simp: low_good_def)
  moreover have "low_left l' \<le> low_left l" using f(3,5) by (simp add: conn_left_def)
  moreover have "low_left l' < low_left l" if "e = None" "0 < n"
    using base.rd_more [OF ok(1), of n l' bs] r that f(3,5) by (cases bs) (auto simp: conn_left_def raw_stall_def)
  ultimately show "\<exists>s' bs e. base_read b l n = Some (s', bs, e) \<and> low_good b s' \<and> low_left s' \<le> low_left l
      \<and> (e = None \<longrightarrow> 0 < n \<longrightarrow> low_left s' < low_left l)" using r by blast
qed

text \<open>A header that was read used the connection, and its length is not negative.\<close>

lemma ReadHeader_safe:
  "\<exists>c' h e. ReadHeader conn_read c = Some (c', h, e) \<and> conn_left c' \<le> conn_left c
    \<and> (e = None \<longrightarrow> conn_left c' < conn_left c \<and> 0 \<le> sint (h_length h))"
proof -
  obtain c' h e where r: "ReadHeader conn_read c = Some (c', h, e)" using net.ReadHeader_returns [OF TrueI, of c]
    by (metis prod_cases3)
  have chunks: "length (in_chunks c') \<le> length (in_chunks c)"
    by (rule ReadHeader_keeps [where I = "\<lambda>s. length (in_chunks s) \<le> length (in_chunks c)", OF _ r]) (auto dest: conn_read_chunks)
  have "length (conn_content c') \<le> length (conn_content c)"
    by (rule ReadHeader_keeps [where I = "\<lambda>s. length (conn_content s) \<le> length (conn_content c)", OF _ r])
      (auto dest!: conn_read_content)
  moreover have "length (conn_content c') < length (conn_content c) \<and> 0 \<le> sint (h_length h)" if "e = None"
  proof (cases "parse_header (conn_content c)")
    case (Parsed h' rest)
    with net.ReadHeader_Parsed [OF TrueI, of c h' rest] r that have "h = h'" "conn_content c' = rest" by auto
    with parse_header_shorter [OF Parsed] parse_header_length [OF Parsed] show ?thesis by simp
  next
    case TooShort
    with net.ReadHeader_TooShort [OF TrueI, of c] r that show ?thesis by auto
  next
    case LengthMSB
    with net.ReadHeader_LengthMSB [OF TrueI, of c] r that show ?thesis by auto
  qed
  ultimately show ?thesis using r chunks by (auto simp: conn_left_def)
qed

section \<open>The control handler\<close>

text \<open>
  What the library writes goes to the \<open>io.Writer\<close> that it was given: it does not touch what the connection has still to read.
\<close>

definition writes_only :: "('x, 'cw) ws_lib \<Rightarrow> bool" where
  "writes_only L \<longleftrightarrow>
     (\<forall>w c bs. in_chunks (fst (snd (cw_write L w c bs))) = in_chunks c)
     \<and> (\<forall>w c. in_chunks (fst (snd (cw_flush L w c))) = in_chunks c)
     \<and> (\<forall>c h. in_chunks (fst (ws_write_header L c h)) = in_chunks c)
     \<and> (\<forall>c h p. in_chunks (fst (ws_write_frame L c h p)) = in_chunks c)"

lemma writes_only_simps:
  assumes "writes_only L"
  shows "cw_write L w c bs = (w', c', n, e) \<Longrightarrow> in_chunks c' = in_chunks c"
    and "cw_flush L w c = (w', c', e) \<Longrightarrow> in_chunks c' = in_chunks c"
    and "ws_write_header L c h = (c', e) \<Longrightarrow> in_chunks c' = in_chunks c"
    and "ws_write_frame L c h p = (c', e) \<Longrightarrow> in_chunks c' = in_chunks c"
  using assms unfolding writes_only_def by (metis fst_conv snd_conv)+

text \<open>A handler that is given a reader of this kind returns, in a state as good and with no more left.\<close>

definition handler_safe :: "'r handler \<Rightarrow> 'r rd \<Rightarrow> ('r \<Rightarrow> bool) \<Rightarrow> ('r \<Rightarrow> nat) \<Rightarrow> bool" where
  "handler_safe cb rd good left \<longleftrightarrow>
     (\<forall>h r. good r \<longrightarrow> (\<exists>r' e. cb h rd r = Some (r', e) \<and> good r' \<and> left r' \<le> left r))"

context progressing begin

lemma Handle_safe:
  assumes lib: "writes_only L" and src: "ch_Src C = rd"
    and put: "\<And>r c. good r \<Longrightarrow> in_chunks c = in_chunks (ch_get C r) \<Longrightarrow> good (ch_put C c r) \<and> left (ch_put C c r) \<le> left r"
    and good: "good r"
  shows "\<exists>r' e. Handle L C h r = Some (r', e) \<and> good r' \<and> left r' \<le> left r"
proof -
  note lw = writes_only_simps [OF lib]
  have vs: "progressing (ch_source L C h) (\<lambda>t. good (fst t)) (\<lambda>t. left (fst t))"
  proof
    fix t :: "'s \<times> nat" and n assume "good (fst t)"
    then show "\<exists>t' bs e. ch_source L C h t n = Some (t', bs, e) \<and> good (fst t') \<and> left (fst t') \<le> left (fst t)
        \<and> (e = None \<longrightarrow> 0 < n \<longrightarrow> left (fst t') < left (fst t))"
      using rd_safe [of "fst t" n] by (auto simp: ch_source_def src split_beta)
  qed
  have wr: "good (fst t') \<and> left (fst t') \<le> left (fst t)" if "good (fst t)" "ch_writer L C w t bs = (w', t', n, e)" for w t bs w' t' n e
    using that put lw(1) by (auto simp: ch_writer_def split: prod.splits)
  have fl: "good r2 \<and> left r2 \<le> left r1" if "good r1" "ch_flush L C w r1 = (r2, e)" for w r1 r2 e
    using that put lw(2) by (auto simp: ch_flush_def split: prod.splits)
  have ping: "\<exists>r' e. HandlePing L C h r = Some (r', e) \<and> good r' \<and> left r' \<le> left r"
  proof (cases "h_length h = 0")
    case True
    then show ?thesis using put [OF good] lw(3) by (auto simp: HandlePing_def split: prod.splits)
  next
    case False
    have "\<exists>w' t e. io_copy (ch_writer L C) (ch_source L C h) (cw_new L (ch_State C) (OpPong L) (ch_bufSize L C h)) (r, 0)
        = Some (w', t, e) \<and> good (fst t) \<and> left (fst t) \<le> left (fst (r, 0 :: nat))"
      by (rule progressing.io_copy_safe [OF vs]) (simp add: good, rule wr)
    then obtain w1 r1 pos e where c: "io_copy (ch_writer L C) (ch_source L C h) (cw_new L (ch_State C) (OpPong L) (ch_bufSize L C h)) (r, 0)
        = Some (w1, (r1, pos), e)" "good r1" "left r1 \<le> left r" by auto
    obtain r2 e2 where "ch_flush L C w1 r1 = (r2, e2)" by force
    with fl [OF c(2) this] c False show ?thesis by (cases e) (auto simp: HandlePing_def)
  qed
  have pong: "\<exists>r' e. HandlePong L C h r = Some (r', e) \<and> good r' \<and> left r' \<le> left r"
    using io_discard_safe [OF good] good by (simp add: HandlePong_def src)
  have pe: "good (fst (closeWithProtocolError L C x r1)) \<and> left (fst (closeWithProtocolError L C x r1)) \<le> left r1" if "good r1" for x r1
    using put [OF that] lw(4) by (auto simp: closeWithProtocolError_def Let_def split: prod.splits)
  have close: "\<exists>r' e. HandleClose L C h r = Some (r', e) \<and> good r' \<and> left r' \<le> left r"
  proof (cases "h_length h = 0")
    case True
    then show ?thesis using put [OF good] lw(3) by (auto simp: HandleClose_def split: prod.splits option.splits)
  next
    case False
    have "\<exists>t b e. read_full (ch_source L C h) (r, 0) (nat (sint (h_length h))) = Some (t, b, e)
        \<and> good (fst t) \<and> left (fst t) \<le> left (fst (r, 0 :: nat))"
      by (rule progressing.read_full_safe [OF vs]) (simp add: good)
    then obtain r1 pos b e where c: "read_full (ch_source L C h) (r, 0) (nat (sint (h_length h))) = Some ((r1, pos), b, e)"
      "good r1" "left r1 \<le> left r" by auto
    obtain code reason where pc: "parse_close L b = (code, reason)" by force
    let ?p = "take 2 (b @ drop (length b) (ch_pool C (ch_bufSize L C h)))"
    obtain w2 r2 pos2 n2 e2 where w: "ch_writer L C (cw_new L (ch_State C) (OpClose L) (ch_bufSize L C h)) (r1, 0) ?p
        = (w2, (r2, pos2), n2, e2)" by (metis prod_cases4 surj_pair)
    obtain r3 e3 where f: "ch_flush L C w2 r2 = (r3, e3)" by force
    note g2 = wr [OF _ w, simplified, OF c(2)]
    note g3 = fl [OF conjunct1 [OF g2] f]
    have "good (fst (closeWithProtocolError L C x r1)) \<and> left (fst (closeWithProtocolError L C x r1)) \<le> left r" for x
      using pe [OF c(2), of x] c(3) by (meson order_trans)
    then show ?thesis using False c pc w f g2 g3
      by (simp add: HandleClose_def Let_def split: option.split)
  qed
  from ping pong close good show ?thesis by (simp add: Handle_def)
qed

lemma ControlFrameHandler_safe:
  assumes "writes_only L"
    and "\<And>r c. good r \<Longrightarrow> in_chunks c = in_chunks (get r) \<Longrightarrow> good (put c r) \<and> left (put c r) \<le> left r"
  shows "handler_safe (ControlFrameHandler L get put pool s) rd good left"
  unfolding handler_safe_def ControlFrameHandler_def using Handle_safe [OF assms(1)] assms(2) by simp

end

end
