(* ===== verification/FrameSafe.thy ===== *)
theory FrameSafe
  imports Progress WsInflate
begin

text \<open>
  The frame reader on arbitrary input: its references always lead to an object that is there, no flate reader is in use and in
  the pool at once, every operation returns, and the operations keep this.  Nothing is assumed of the bytes that the peer sends.
\<close>

section \<open>Well-formed frame readers\<close>

text \<open>The flate readers: those in the pool are different, were made, and are not the persistent one.\<close>

definition store_ok :: "'d flate_store \<Rightarrow> bool" where
  "store_ok st \<longleftrightarrow> distinct (fs_pool st) \<and> (\<forall>a \<in> set (fs_pool st). a < fs_next st)
     \<and> (\<forall>a. fs_persistent st = Some a \<longrightarrow> a < fs_next st \<and> a \<notin> set (fs_pool st))"

text \<open>The closures of the frame reader fit its store: the pool's, or those of the persistent reader.\<close>

definition flate_pair :: "'d dec \<Rightarrow> ('d, 'x) frame_reader \<Rightarrow> bool" where
  "flate_pair D r \<longleftrightarrow>
     (if fs_persistent (fr_store r) = None
      then (\<exists>get. fr_GetFlateReader r = Some get \<and> (\<forall>st b. get st b = pool_GetFlateReader D st b))
        \<and> fr_PutFlateReader r = Some (pool_PutFlateReader D)
      else fr_GetFlateReader r = Some (persistent_GetFlateReader D) \<and> fr_PutFlateReader r = Some persistent_PutFlateReader)"

definition in_use_ok :: "('d, 'x) frame_reader \<Rightarrow> bool" where
  "in_use_ok r \<longleftrightarrow> (\<forall>a. fr_flateReader r = Some a \<longrightarrow> a < fs_next (fr_store r) \<and> a \<notin> set (fs_pool (fr_store r)))"

text \<open>A reference that can be read through.\<close>

fun ref_ok :: "inner_ref \<Rightarrow> ('d, 'x) frame_reader \<Rightarrow> bool" where
  "ref_ok (RBase b) r = base_ok b (fr_low r)"
| "ref_ok RFlate r = (\<exists>a. fr_flateReader r = Some a \<and> fl_d (fs_obj (fr_store r) a) \<noteq> None
     \<and> base_ok (fs_src (fr_store r) a) (fr_low r))"

fun frame_ok :: "reader_ref option \<Rightarrow> ('d, 'x) frame_reader \<Rightarrow> bool" where
  "frame_ok None r = True"
| "frame_ok (Some (RInner i)) r = ref_ok i r"
| "frame_ok (Some RUtf8) r = (\<exists>i. fr_utf8_src r = Some i \<and> ref_ok i r)"

definition fr_core :: "'d dec \<Rightarrow> ('d, 'x) frame_reader \<Rightarrow> bool" where
  "fr_core D r \<longleftrightarrow> 0 \<le> lw_n (fr_low r) \<and> flate_pair D r \<and> store_ok (fr_store r) \<and> in_use_ok r
     \<and> fr_Extensions r \<in> {[], [perMessageDeflateRecvExt]} \<and> \<not> fr_SkipHeaderCheck r"

definition fr_wf :: "'d dec \<Rightarrow> ('d, 'x) frame_reader \<Rightarrow> bool" where
  "fr_wf D r \<longleftrightarrow> fr_core D r \<and> frame_ok (fr_frame r) r"

text \<open>What is left: the connection's, and the end of the frame at hand.\<close>

definition fr_left :: "('d, 'x) frame_reader \<Rightarrow> nat" where
  "fr_left r = 2 * low_left (fr_low r) + (if fr_frame r = None then 0 else 1)"

section \<open>What reading changes\<close>

definition low_keeps :: "lower \<Rightarrow> lower \<Rightarrow> bool" where
  "low_keeps l l' \<longleftrightarrow> (\<forall>b. base_ok b l \<longrightarrow> base_ok b l') \<and> (0 \<le> lw_n l \<longrightarrow> 0 \<le> lw_n l') \<and> low_left l' \<le> low_left l"

definition store_keeps :: "'d flate_store \<Rightarrow> 'd flate_store \<Rightarrow> bool" where
  "store_keeps st st' \<longleftrightarrow> fs_pool st' = fs_pool st \<and> fs_next st' = fs_next st \<and> fs_persistent st' = fs_persistent st
     \<and> fs_src st' = fs_src st \<and> (\<forall>a. fl_d (fs_obj st a) \<noteq> None \<longrightarrow> fl_d (fs_obj st' a) \<noteq> None)"

lemma keeps_refl [simp]: "low_keeps l l" "store_keeps st st"
  by (simp_all add: low_keeps_def store_keeps_def)

lemma low_keeps_trans: "low_keeps l l' \<Longrightarrow> low_keeps l' l'' \<Longrightarrow> low_keeps l l''"
  by (auto simp: low_keeps_def)

lemma base_read_keeps:
  assumes "base_read b l n = Some (l', bs, e)"
  shows "low_keeps l l'"
proof -
  have "base_ok b' l'" if "base_ok b' l" for b'
    using assms that by (cases b; cases b') (auto simp: ciph_read_Some dest!: raw_read_frame(1))
  with base_read_frame(1,3,5) [OF assms] show ?thesis by (auto simp: low_keeps_def conn_left_def)
qed

lemma reads_to_low: "reads_to (base_read b) l l' \<Longrightarrow> low_keeps l l'"
  by (rule reads_to_keeps [where I = "low_keeps l"]) (auto intro: low_keeps_trans base_read_keeps)

lemma ref_ok_keeps: "ref_ok i r \<Longrightarrow> low_keeps (fr_low r) l \<Longrightarrow> store_keeps (fr_store r) st \<Longrightarrow> ref_ok i (r\<lparr>fr_low := l, fr_store := st\<rparr>)"
  by (cases i) (auto simp: low_keeps_def store_keeps_def)

lemma ref_ok_cong:
  assumes "fr_low r' = fr_low r" "fr_store r' = fr_store r" "fr_flateReader r' = fr_flateReader r"
  shows "ref_ok i r' = ref_ok i r"
  using assms by (cases i) simp_all

lemma frame_ok_keeps:
  assumes "low_keeps (fr_low r) l" and "store_keeps (fr_store r) st"
  shows "frame_ok f r \<Longrightarrow> frame_ok f (r\<lparr>fr_low := l, fr_store := st\<rparr>)"
  using ref_ok_keeps [OF _ assms] by (cases "(f, r)" rule: frame_ok.cases) auto

lemma fr_wf_keeps:
  assumes "fr_wf D r" and "low_keeps (fr_low r) l" and "store_keeps (fr_store r) st"
  shows "fr_wf D (r\<lparr>fr_low := l, fr_store := st\<rparr>)"
  using assms frame_ok_keeps [OF assms(2,3), of "fr_frame r"]
  by (simp add: fr_wf_def fr_core_def low_keeps_def store_keeps_def flate_pair_def store_ok_def in_use_ok_def)

section \<open>Reading the frame at hand\<close>

text \<open>A decompressor's \<open>Read\<close> returns, and it uses its source by reading alone.\<close>

definition dec_safe :: "'d dec \<Rightarrow> bool" where
  "dec_safe D \<longleftrightarrow> (\<forall>b d sr l n. low_good b l \<longrightarrow>
     (\<exists>d' sr' l' bs e. d_read D (suffixed_read (base_read b)) d (sr, l) n = Some (d', (sr', l'), bs, e) \<and> reads_to (base_read b) l l'))"

lemma inner_read_safe:
  assumes ok: "ref_ok i r" "0 \<le> lw_n (fr_low r)" and dec: "dec_safe D" and wf: "in_use_ok r"
  shows "\<exists>l st bs e. inner_read D i r n = Some (r\<lparr>fr_low := l, fr_store := st\<rparr>, bs, e)
    \<and> low_keeps (fr_low r) l \<and> store_keeps (fr_store r) st
    \<and> (i \<noteq> RFlate \<longrightarrow> e = None \<longrightarrow> 0 < n \<longrightarrow> low_left l < low_left (fr_low r))"
proof (cases i)
  case (RBase b)
  with ok have "low_good b (fr_low r)" by (simp add: low_good_def)
  then obtain l bs e where r: "base_read b (fr_low r) n = Some (l, bs, e)"
    "e = None \<longrightarrow> 0 < n \<longrightarrow> low_left l < low_left (fr_low r)" using base_prog.rd_safe by blast
  have "inner_read D i r n = Some (r\<lparr>fr_low := l, fr_store := fr_store r\<rparr>, bs, e)" using r(1) RBase by simp
  with r(2) base_read_keeps [OF r(1)] show ?thesis by (metis keeps_refl(2))
next
  case RFlate
  with ok obtain a d where a: "fr_flateReader r = Some a" "fl_d (fs_obj (fr_store r) a) = Some d" "base_ok (fs_src (fr_store r) a) (fr_low r)"
    by auto
  let ?b = "fs_src (fr_store r) a" and ?fl = "fs_obj (fr_store r) a" and ?l = "fr_low r"
  have good: "low_good ?b ?l" using a ok by (simp add: low_good_def)
  obtain fl l bs e where f: "fl_read D (base_read ?b) ?fl ?l n = Some (fl, l, bs, e)" "low_keeps ?l l" "fl_d fl \<noteq> None"
  proof (cases "fl_err ?fl")
    case None
    obtain d' sr' l' bs e where "d_read D (suffixed_read (base_read ?b)) d (fl_sr ?fl, ?l) n = Some (d', (sr', l'), bs, e)"
      "reads_to (base_read ?b) ?l l'" using dec good unfolding dec_safe_def by blast
    with that [of "?fl\<lparr>fl_d := Some d', fl_sr := sr'\<rparr>" l' bs e] None a(2) show ?thesis by (simp add: fl_read_def reads_to_low)
  next
    case (Some x)
    with that [of ?fl ?l "[]" "Some x"] a(2) show ?thesis by (simp add: fl_read_def)
  qed
  let ?st = "(fr_store r)\<lparr>fs_obj := (fs_obj (fr_store r))(a := fl)\<rparr>"
  have "inner_read D i r n = Some (r\<lparr>fr_low := l, fr_store := ?st\<rparr>, bs, e)" using f(1) a(1) RFlate by simp
  moreover have "store_keeps (fr_store r) ?st" using f(3) by (simp add: store_keeps_def)
  ultimately show ?thesis using f(2) RFlate by blast
qed

lemma frame_read_safe:
  assumes wf: "fr_wf D r" and dec: "dec_safe D" and f: "fr_frame r = Some f"
  shows "\<exists>l st x bs e. frame_read L D f r n = Some (r\<lparr>fr_low := l, fr_store := st, fr_utf8 := x\<rparr>, bs, e)
    \<and> low_keeps (fr_low r) l \<and> store_keeps (fr_store r) st
    \<and> (\<forall>b. f = RInner (RBase b) \<longrightarrow> e = None \<longrightarrow> 0 < n \<longrightarrow> low_left l < low_left (fr_low r))"
proof (cases f)
  case (RInner i)
  with wf f have "ref_ok i r" "0 \<le> lw_n (fr_low r)" "in_use_ok r" by (simp_all add: fr_wf_def fr_core_def)
  from inner_read_safe [OF this(1,2) dec this(3), of n] obtain l st bs e where
    "inner_read D i r n = Some (r\<lparr>fr_low := l, fr_store := st\<rparr>, bs, e)" "low_keeps (fr_low r) l" "store_keeps (fr_store r) st"
    "i \<noteq> RFlate \<longrightarrow> e = None \<longrightarrow> 0 < n \<longrightarrow> low_left l < low_left (fr_low r)" by blast
  then show ?thesis using RInner
    by (intro exI [of _ l] exI [of _ st] exI [of _ "fr_utf8 r"] exI [of _ bs] exI [of _ e]) auto
next
  case RUtf8
  with wf f obtain i where i: "fr_utf8_src r = Some i" "ref_ok i r" "0 \<le> lw_n (fr_low r)" "in_use_ok r" by (auto simp: fr_wf_def fr_core_def)
  from inner_read_safe [OF i(2,3) dec i(4), of n] obtain l st bs e where
    r: "inner_read D i r n = Some (r\<lparr>fr_low := l, fr_store := st\<rparr>, bs, e)" "low_keeps (fr_low r) l" "store_keeps (fr_store r) st"
    by blast
  obtain x bs' e' where "utf8_post L (fr_utf8 r) bs e = (x, bs', e')" by (metis prod_cases3)
  with r i(1) RUtf8 show ?thesis by (intro exI [of _ l] exI [of _ st] exI [of _ x] exI [of _ bs'] exI [of _ e']) simp
qed

lemma fr_wf_utf8 [simp]: "fr_wf D (r\<lparr>fr_utf8 := x\<rparr>) = fr_wf D r"
proof -
  have "ref_ok i (r\<lparr>fr_utf8 := x\<rparr>) = ref_ok i r" for i by (rule ref_ok_cong) simp_all
  then have "frame_ok f (r\<lparr>fr_utf8 := x\<rparr>) = frame_ok f r" for f by (cases "(f, r)" rule: frame_ok.cases) simp_all
  then show ?thesis by (simp add: fr_wf_def fr_core_def flate_pair_def in_use_ok_def)
qed

section \<open>The end of a frame and of a message\<close>

lemma low_left_detach [simp]: "low_left (low_detach l) = low_left l" "lw_n (low_detach l) = 0"
  by (simp_all add: low_detach_def)

lemma resetFragment_safe:
  assumes "fr_wf D r"
  shows "fr_wf D (resetFragment r)" and "fr_left (resetFragment r) \<le> fr_left r" and "fr_frame r \<noteq> None \<Longrightarrow> fr_left (resetFragment r) < fr_left r"
  using assms by (simp_all add: resetFragment_def fr_wf_def fr_core_def flate_pair_def in_use_ok_def fr_left_def)

text \<open>At the end of a message the flate reader goes back to the pool that it came from, where it was not.\<close>

lemma reset_safe:
  assumes wf: "fr_wf D r"
  shows "fr_wf D (reset L r)" and "fr_left (reset L r) \<le> fr_left r" and "fr_frame r \<noteq> None \<Longrightarrow> fr_left (reset L r) < fr_left r"
    and "fr_frame (reset L r) = None" and "fr_flateReader (reset L r) = None"
proof -
  show "fr_left (reset L r) \<le> fr_left r" "fr_frame r \<noteq> None \<Longrightarrow> fr_left (reset L r) < fr_left r"
    "fr_frame (reset L r) = None" "fr_flateReader (reset L r) = None"
    by (simp_all add: reset_def Let_def fr_left_def split: option.split)
  show "fr_wf D (reset L r)"
  proof (cases "fr_flateReader r")
    case None
    with wf show ?thesis by (simp add: reset_def Let_def fr_wf_def fr_core_def flate_pair_def in_use_ok_def)
  next
    case (Some a)
    with wf have a: "a < fs_next (fr_store r)" "a \<notin> set (fs_pool (fr_store r))" by (simp_all add: fr_wf_def fr_core_def in_use_ok_def)
    show ?thesis
    proof (cases "fs_persistent (fr_store r)")
      case None
      then have put: "fr_PutFlateReader r = Some (pool_PutFlateReader D)" using wf by (simp add: fr_wf_def fr_core_def flate_pair_def)
      have "store_ok (pool_PutFlateReader D (fr_store r) a)"
        using wf a None by (auto simp: fr_wf_def fr_core_def store_ok_def pool_PutFlateReader_def reader_reset_def Let_def)
      with wf None Some put show ?thesis
        by (simp add: reset_def Let_def fr_wf_def fr_core_def flate_pair_def in_use_ok_def pool_PutFlateReader_def reader_reset_def)
    next
      case (Some p)
      then have "fr_PutFlateReader r = Some persistent_PutFlateReader" using wf by (simp add: fr_wf_def fr_core_def flate_pair_def)
      with wf Some \<open>fr_flateReader r = Some a\<close> show ?thesis
        by (simp add: reset_def Let_def fr_wf_def fr_core_def flate_pair_def in_use_ok_def persistent_PutFlateReader_def)
    qed
  qed
qed

definition fr_role :: "('x, 'cw) ws_lib \<Rightarrow> ('d, 'x) frame_reader \<Rightarrow> byte" where
  "fr_role L r = st_clear L (fr_state r) (StateFragmented L)"

text \<open>
  One read of the frame at hand.  An \<open>EOF\<close> ends the message; the reader of a frame that is not compressed and not checked
  for UTF-8 makes progress.
\<close>

lemma read_body_safe:
  assumes wf: "fr_wf D r" and dec: "dec_safe D" and f: "fr_frame r = Some f"
  shows "\<exists>r' bs e. read_body L D f r n = Some (r', bs, e) \<and> fr_wf D r' \<and> fr_left r' \<le> fr_left r \<and> fr_state r' = fr_state r
    \<and> (e = Some EOF \<longrightarrow> \<not> fragmented L r' \<and> fr_frame r' = None) \<and> (fr_frame r' = None \<or> fr_frame r' = fr_frame r)
    \<and> (\<forall>b. f = RInner (RBase b) \<longrightarrow> e = None \<longrightarrow> 0 < n \<longrightarrow> fr_left r' < fr_left r)"
proof -
  obtain l st x bs e where r: "frame_read L D f r n = Some (r\<lparr>fr_low := l, fr_store := st, fr_utf8 := x\<rparr>, bs, e)"
    and k: "low_keeps (fr_low r) l" "store_keeps (fr_store r) st"
    and prog: "\<forall>b. f = RInner (RBase b) \<longrightarrow> e = None \<longrightarrow> 0 < n \<longrightarrow> low_left l < low_left (fr_low r)"
    using frame_read_safe [OF wf dec f, of L n] by (elim exE conjE) (rule that; assumption)
  define r1 where "r1 = r\<lparr>fr_low := l, fr_store := st, fr_utf8 := x\<rparr>"
  have wf1: "fr_wf D r1" using fr_wf_keeps [OF wf k] by (simp add: r1_def)
  have l1: "fr_left r1 \<le> fr_left r" using k(1) by (simp add: fr_left_def r1_def low_keeps_def)
  have p1: "\<forall>b. f = RInner (RBase b) \<longrightarrow> e = None \<longrightarrow> 0 < n \<longrightarrow> fr_left r1 < fr_left r"
    using prog by (simp add: fr_left_def r1_def)
  have s1: "fr_state r1 = fr_state r" "fr_frame r1 = Some f" using f by (simp_all add: r1_def)
  note rs = reset_safe [OF wf1, of L] and fs = resetFragment_safe [OF wf1]
  have rst: "fr_state (reset L r1) = fr_state r1" "fr_state (resetFragment r1) = fr_state r1" "fr_frame (resetFragment r1) = None"
    by (simp_all add: reset_def Let_def resetFragment_def split: option.split)
  have fr: "read_body L D f r n =
      (if e \<noteq> None \<and> e \<noteq> Some EOF then Some (r1, bs, e)
       else if e = None \<and> lw_n (fr_low r1) \<noteq> 0 then Some (r1, bs, None)
       else if lw_n (fr_low r1) \<noteq> 0 then Some (r1, bs, Some ErrUnexpectedEOF)
       else if fragmented L r1 then Some (resetFragment r1, bs, None)
       else if fr_CheckUTF8 r1 \<and> \<not> utf8_valid L (fr_utf8 r1)
         then Some (r1, take (utf8_accepted L (fr_utf8 r1)) bs, Some ErrInvalidUTF8)
       else Some (reset L r1, bs, Some EOF))" by (simp add: read_body_def r r1_def)
  consider (err) "e \<noteq> None \<and> e \<noteq> Some EOF" | (more) "e = None \<and> lw_n (fr_low r1) \<noteq> 0" | (short) "e = Some EOF" "lw_n (fr_low r1) \<noteq> 0"
    | (frag) "e = None \<or> e = Some EOF" "lw_n (fr_low r1) = 0" "fragmented L r1"
    | (utf8) "e = None \<or> e = Some EOF" "lw_n (fr_low r1) = 0" "\<not> fragmented L r1" "fr_CheckUTF8 r1 \<and> \<not> utf8_valid L (fr_utf8 r1)"
    | (fin) "e = None \<or> e = Some EOF" "lw_n (fr_low r1) = 0" "\<not> fragmented L r1" "\<not> (fr_CheckUTF8 r1 \<and> \<not> utf8_valid L (fr_utf8 r1))"
    by (cases "e = None \<or> e = Some EOF"; cases "lw_n (fr_low r1) = 0"; cases "fragmented L r1") auto
  then show ?thesis
  proof cases
    case err
    then show ?thesis using wf1 l1 s1 f by (auto simp: fr)
  next
    case more
    then show ?thesis using wf1 l1 p1 s1 f by (auto simp: fr)
  next
    case short
    then show ?thesis using wf1 l1 s1 f by (simp add: fr)
  next
    case frag
    then have "read_body L D f r n = Some (resetFragment r1, bs, None)" by (auto simp: fr)
    moreover have "fr_left (resetFragment r1) < fr_left r" using fs(3) s1(2) l1 by simp
    ultimately show ?thesis using fs(1) rst s1 by simp
  next
    case utf8
    then have "read_body L D f r n = Some (r1, take (utf8_accepted L (fr_utf8 r1)) bs, Some ErrInvalidUTF8)" by (auto simp: fr)
    then show ?thesis using wf1 l1 s1 f by simp
  next
    case fin
    then have "read_body L D f r n = Some (reset L r1, bs, Some EOF)" by (auto simp: fr)
    moreover have "\<not> fragmented L (reset L r1)" using fin(3) rst by (simp add: fragmented_def)
    ultimately show ?thesis using rs rst s1 l1 by simp
  qed
qed

section \<open>Advancing to the next frame\<close>

text \<open>
  What \<open>NextFrame\<close> relies on: only a data frame is compressed, a control frame is final, and the handler of control frames
  returns when it is given the reader of a frame.
\<close>

definition control_laws :: "('x, 'cw) ws_lib \<Rightarrow> bool" where
  "control_laws L \<longleftrightarrow> (\<forall>h. is_compressed L h = (True, None) \<longrightarrow> \<not> is_control L (h_op h))
     \<and> (\<forall>h s. is_control L (h_op h) \<longrightarrow> check_header L h s = None \<longrightarrow> h_fin h)"

definition in_frame :: "'d dec \<Rightarrow> base_ref \<Rightarrow> reader_ref option \<Rightarrow> byte \<Rightarrow> ('d, 'x) frame_reader \<Rightarrow> bool" where
  "in_frame D b f s r \<longleftrightarrow> fr_wf D r \<and> base_ok b (fr_low r) \<and> fr_frame r = f \<and> fr_state r = s"

definition ctrl_safe :: "'d dec \<Rightarrow> ('d, 'x) frame_reader handler \<Rightarrow> bool" where
  "ctrl_safe D cb \<longleftrightarrow> (\<forall>b f s. handler_safe cb (inner_read D (RBase b)) (in_frame D b f s) fr_left)"

lemma fr_wf_low: "fr_wf D r \<Longrightarrow> low_keeps (fr_low r) l \<Longrightarrow> fr_wf D (r\<lparr>fr_low := l\<rparr>)"
  using fr_wf_keeps [of D r l "fr_store r"] by simp

lemma fr_set_dst_safe:
  assumes "fr_wf D r" and "in_chunks c = in_chunks (fr_dst r)"
  shows "fr_wf D (fr_set_dst c r)" and "fr_left (fr_set_dst c r) = fr_left r"
    and "fr_frame (fr_set_dst c r) = fr_frame r" and "fr_state (fr_set_dst c r) = fr_state r" and "base_ok b (fr_low (fr_set_dst c r)) = base_ok b (fr_low r)"
proof -
  have same: "conn_left c = conn_left (fr_dst r)" using assms(2) by (simp add: conn_left_def conn_content_def)
  have base: "base_ok b ((fr_low r)\<lparr>lw_src := c\<rparr>) = base_ok b (fr_low r)" for b by (cases b) simp_all
  then have "low_keeps (fr_low r) ((fr_low r)\<lparr>lw_src := c\<rparr>)" using same by (simp add: low_keeps_def fr_dst_def)
  with fr_wf_low [OF assms(1)] show "fr_wf D (fr_set_dst c r)" by (simp add: fr_set_dst_def)
  show "fr_left (fr_set_dst c r) = fr_left r" "fr_frame (fr_set_dst c r) = fr_frame r" "fr_state (fr_set_dst c r) = fr_state r"
    "base_ok b (fr_low (fr_set_dst c r)) = base_ok b (fr_low r)"
    using same base by (simp_all add: fr_left_def fr_set_dst_def fr_dst_def)
qed

lemma in_frame_progressing: "progressing (inner_read D (RBase b)) (in_frame D b f s) fr_left"
proof
  fix r :: "('a, 'b) frame_reader" and n assume g: "in_frame D b f s r"
  then have "low_good b (fr_low r)" by (simp add: in_frame_def low_good_def fr_wf_def fr_core_def)
  then obtain l bs e where r: "base_read b (fr_low r) n = Some (l, bs, e)" "low_good b l" "low_left l \<le> low_left (fr_low r)"
    "e = None \<longrightarrow> 0 < n \<longrightarrow> low_left l < low_left (fr_low r)" using base_prog.rd_safe by blast
  have "in_frame D b f s (r\<lparr>fr_low := l\<rparr>)"
    using g fr_wf_low [OF _ base_read_keeps [OF r(1)]] r(2) by (simp add: in_frame_def low_good_def)
  with r show "\<exists>r' bs e. inner_read D (RBase b) r n = Some (r', bs, e) \<and> in_frame D b f s r' \<and> fr_left r' \<le> fr_left r
      \<and> (e = None \<longrightarrow> 0 < n \<longrightarrow> fr_left r' < fr_left r)" by (auto simp: fr_left_def)
qed

lemma ControlFrameHandler_ctrl_safe:
  assumes "writes_only L" shows "ctrl_safe D (ControlFrameHandler L fr_dst fr_set_dst pool s)"
  unfolding ctrl_safe_def
  by (intro allI progressing.ControlFrameHandler_safe [OF in_frame_progressing assms])
    (auto simp: in_frame_def fr_set_dst_safe [where D = D])

lemma attach_raw_safe:
  assumes "attach_raw h l = (l', b)" and "0 \<le> sint (h_length h)"
  shows "low_keeps l l'" and "base_ok b l'" and "lw_src l' = lw_src l" and "lw_n l' = sint (h_length h)"
proof -
  have "base_ok b' l \<longrightarrow> base_ok b' l'" for b'
    using assms by (cases b') (auto simp: attach_raw_def Let_def cipher_reset_def NewCipherReader_def split: if_splits option.splits)
  with assms show "low_keeps l l'" "base_ok b l'" "lw_src l' = lw_src l" "lw_n l' = sint (h_length h)"
    by (auto simp: low_keeps_def attach_raw_def Let_def cipher_reset_def NewCipherReader_def split: if_splits option.splits)
qed

lemma flate_get_safe:
  assumes core: "fr_core D r" and b: "base_ok b (fr_low r)"
  obtains get st a where "fr_GetFlateReader r = Some get" and "get (fr_store r) b = Some (st, a)"
    and "fr_core D (r\<lparr>fr_store := st, fr_flateReader := Some a\<rparr>)" and "ref_ok RFlate (r\<lparr>fr_store := st, fr_flateReader := Some a\<rparr>)"
proof (cases "fs_persistent (fr_store r)")
  case None
  with core obtain get where get: "fr_GetFlateReader r = Some get" "\<And>st b. get st b = pool_GetFlateReader D st b"
    by (auto simp: fr_core_def flate_pair_def)
  obtain st a where g: "reader_pool_get D (fr_store r) = (st, a)" by force
  have st: "store_ok st" "a < fs_next st" "a \<notin> set (fs_pool st)" "fs_persistent st = None"
    using core None g by (auto simp: fr_core_def store_ok_def reader_pool_get_def split: list.splits)
  let ?st = "reader_reset D st a (Some b)"
  have "store_ok ?st" "fs_next ?st = fs_next st" using st(1) by (simp_all add: store_ok_def reader_reset_def)
  moreover have "fl_d (fl_reset D fl src) \<noteq> None" for fl src by (simp add: fl_reset_def Let_def split: option.split)
  ultimately show thesis using that [OF get(1), of ?st a] core None st b g get(2)
    by (simp add: fr_core_def flate_pair_def in_use_ok_def pool_GetFlateReader_def)
next
  case (Some p)
  with core have get: "fr_GetFlateReader r = Some (persistent_GetFlateReader D)"
    and p: "p < fs_next (fr_store r)" "p \<notin> set (fs_pool (fr_store r))"
    by (simp_all add: fr_core_def flate_pair_def store_ok_def)
  let ?st = "reader_reset D (fr_store r) p (Some b)"
  have "store_ok ?st" "fs_next ?st = fs_next (fr_store r)" using core by (simp_all add: fr_core_def store_ok_def reader_reset_def)
  moreover have "fl_d (fl_reset D fl src) \<noteq> None" for fl src by (simp add: fl_reset_def Let_def split: option.split)
  ultimately show thesis using that [OF get, of ?st p] core Some p b
    by (simp add: fr_core_def flate_pair_def in_use_ok_def persistent_GetFlateReader_def)
qed

text \<open>The end of \<open>NextFrame\<close>: the frame at hand is readable, whether it is checked for UTF-8 or not.\<close>

lemma install_frame_safe:
  assumes core: "fr_core D r" and ref: "ref_ok i r"
  shows "\<exists>r'. install_frame L D None h i r = Some (r', h, None) \<and> fr_wf D r' \<and> fr_low r' = fr_low r
    \<and> (h_op h \<noteq> OpText L \<longrightarrow> \<not> fragmented L r \<longrightarrow> fr_frame r' = Some (RInner i))
    \<and> fr_state r' = (if h_fin h then st_clear L (fr_state r) (StateFragmented L) else st_set L (fr_state r) (StateFragmented L))"
proof -
  let ?st = "if h_fin h then st_clear L (fr_state r) (StateFragmented L) else st_set L (fr_state r) (StateFragmented L)"
  let ?u = "fr_CheckUTF8 r \<and> (h_op h = OpText L \<or> fragmented L r \<and> fr_opCode r = OpText L)"
  define r' where "r' = (if ?u then r\<lparr>fr_utf8_src := Some i, fr_frame := Some RUtf8, fr_state := ?st\<rparr>
      else r\<lparr>fr_frame := Some (RInner i), fr_state := ?st\<rparr>)"
  have fields: "fr_low r' = fr_low r" "fr_store r' = fr_store r" "fr_flateReader r' = fr_flateReader r" "fr_state r' = ?st"
    by (simp_all add: r'_def)
  have "ref_ok i r'" using ref ref_ok_cong [OF fields(1-3)] by simp
  moreover have "fr_frame r' = (if ?u then Some RUtf8 else Some (RInner i))" "?u \<Longrightarrow> fr_utf8_src r' = Some i" by (simp_all add: r'_def)
  ultimately have "frame_ok (fr_frame r') r'" by simp
  moreover have "fr_core D r'" using core by (simp add: fr_core_def flate_pair_def in_use_ok_def r'_def)
  moreover have "install_frame L D None h i r = Some (r', h, None)"
    unfolding install_frame_def r'_def by (cases ?u) (simp_all only: if_True if_False Let_def prod.case option.case bind.bind_lunit, simp_all)
  moreover have "h_op h \<noteq> OpText L \<longrightarrow> \<not> fragmented L r \<longrightarrow> fr_frame r' = Some (RInner i)" by (simp add: r'_def)
  ultimately show ?thesis using fields by (simp add: fr_wf_def)
qed

lemma discard_raw_safe:
  assumes wf: "fr_wf D r"
  shows "\<exists>l e. discard_raw r = Some (r\<lparr>fr_low := l\<rparr>, e) \<and> low_keeps (fr_low r) l"
proof -
  have "progressing raw_read (\<lambda>l. low_good RRaw l \<and> low_keeps (fr_low r) l) low_left"
  proof (rule progressing_restrict)
    have "base_read RRaw = raw_read" by (simp add: fun_eq_iff)
    then show "progressing raw_read (low_good RRaw) low_left" using base_prog.progressing_axioms [of RRaw] by simp
    show "low_keeps (fr_low r) l'" if "low_keeps (fr_low r) l" "raw_read l n = Some (l', bs, e)" for l n l' bs e
      using low_keeps_trans [OF that(1) base_read_keeps [of RRaw]] that(2) by simp
  qed
  moreover have "low_good RRaw (fr_low r)" using wf by (simp add: low_good_def fr_wf_def fr_core_def)
  ultimately obtain l e where "io_discard raw_read (fr_low r) = Some (l, e)" "low_keeps (fr_low r) l"
    using progressing.io_discard_safe by fastforce
  then show ?thesis by (auto simp: discard_raw_def)
qed

text \<open>An extension leaves the opcode alone.\<close>

lemma unset_bits_op:
  assumes "xs \<in> {[], [perMessageDeflateRecvExt]}" shows "\<exists>h'. unset_bits xs h = (h', None) \<and> h_op h' = h_op h \<and> h_fin h' = h_fin h"
  using assms by (auto simp: perMessageDeflateRecvExt_def)

text \<open>\<open>fr_role\<close>: the state without the flag for fragments.\<close>

lemma fr_role_state:
  assumes "state_laws L"
  shows "st_clear L (if b then st_clear L s (StateFragmented L) else st_set L s (StateFragmented L)) (StateFragmented L)
    = st_clear L s (StateFragmented L)"
  using state_laws_clear [OF assms] by simp

text \<open>\<open>NextFrame\<close> in two parts: the header with its checks, and the frame that it announces.\<close>

definition next_frame ::
    "('x, 'cw) ws_lib \<Rightarrow> 'd dec \<Rightarrow> ('d, 'x) frame_reader handler option \<Rightarrow> ('d, 'x) frame_reader handler option
      \<Rightarrow> header \<Rightarrow> ('d, 'x) frame_reader \<Rightarrow> (('d, 'x) frame_reader \<times> header \<times> err option) option" where
  "next_frame L D onI onC h r =
     (case attach_raw h (fr_low r) of (l, b) \<Rightarrow>
       case is_compressed L h of
         (_, Some x) \<Rightarrow> Some (r\<lparr>fr_low := l\<rparr>, h, Some x)
       | (compressed, None) \<Rightarrow>
         Option.bind
           (if compressed then
              (case fr_GetFlateReader (r\<lparr>fr_low := l\<rparr>) of
                 None \<Rightarrow> Some (r\<lparr>fr_low := l\<rparr>, RBase b, Some (Errorf ''required `GetFlateReader`''))
               | Some get \<Rightarrow> Option.bind (get (fr_store (r\<lparr>fr_low := l\<rparr>)) b) (\<lambda>(st, a).
                   Some (r\<lparr>fr_low := l, fr_store := st, fr_flateReader := Some a\<rparr>, RFlate, None)))
            else Some (r\<lparr>fr_low := l\<rparr>, RBase b, None))
           (\<lambda>(r, i, e).
             case e of Some x \<Rightarrow> Some (r, h, Some x)
             | None \<Rightarrow>
               (case unset_bits (fr_Extensions r) h of
                  (h, Some x) \<Rightarrow> Some (r, h, Some x)
                | (h, None) \<Rightarrow>
                  (if fragmented L r then
                     if is_control L (h_op h) then
                       Option.bind
                         (case onI of Some cb \<Rightarrow> cb h (inner_read D i) r | None \<Rightarrow> Some (r, None))
                         (\<lambda>(r, e).
                           case e of Some x \<Rightarrow> Some (r, h, Some x)
                           | None \<Rightarrow> Option.bind (discard_raw r) (\<lambda>(r, e). Some (r, h, e)))
                     else install_frame L D onC h i r
                   else install_frame L D onC h i (r\<lparr>fr_opCode := h_op h\<rparr>)))))"

lemma NextFrame_parts:
  assumes "ReadHeader conn_read (lw_src (fr_low r)) = Some (c, h, e0)" and "r0 = r\<lparr>fr_low := (fr_low r)\<lparr>lw_src := c\<rparr>\<rparr>"
    and "e1 = (if e0 = Some EOF \<and> fragmented L r0 then Some ErrUnexpectedEOF else e0)"
    and "e2 = (if e1 = None \<and> \<not> fr_SkipHeaderCheck r0 then check_header L h (fr_state r0) else e1)"
  shows "NextFrame L D onI onC r = (case e2 of Some x \<Rightarrow> Some (r0, h, Some x)
    | None \<Rightarrow> if 0 < sint (fr_MaxFrameSize r0) \<and> sint (fr_MaxFrameSize r0) < sint (h_length h)
        then Some (r0, h, Some ErrFrameTooLarge) else next_frame L D onI onC h r0)"
  unfolding NextFrame_def next_frame_def assms(1) assms(2-4) by (simp only: bind.bind_lunit prod.case Let_def)

text \<open>The frame: a payload that can be read, the flate reader in front of it if the frame is compressed.\<close>

lemma next_frame_safe:
  fixes r :: "('d, 'x) frame_reader" and L :: "('x, 'cw) ws_lib"
  assumes wf: "fr_wf D r" and laws: "control_laws L" "state_laws L" "opcode_laws L" and cb: "ctrl_safe D cb"
    and nonneg: "0 \<le> sint (h_length h)" and check: "check_header L h (fr_state r) = None"
  shows "\<exists>r' h' e. next_frame L D (Some cb) None h r = Some (r', h', e) \<and> fr_wf D r' \<and> low_left (fr_low r') \<le> low_left (fr_low r)
    \<and> fr_role L r' = fr_role L r \<and> (e \<noteq> None \<or> fragmented L r \<and> is_control L (h_op h) \<longrightarrow> fr_frame r' = fr_frame r)
    \<and> h_op h' = h_op h
    \<and> (e = None \<longrightarrow> \<not> fragmented L r \<longrightarrow> is_control L (h_op h) \<longrightarrow> \<not> fragmented L r' \<and> (\<exists>b. fr_frame r' = Some (RInner (RBase b))))"
proof -
  obtain l b where at: "attach_raw h (fr_low r) = (l, b)" by force
  note al = attach_raw_safe [OF at nonneg]
  define r1 where "r1 = r\<lparr>fr_low := l\<rparr>"
  have wf1: "fr_wf D r1" using fr_wf_low [OF wf al(1)] by (simp add: r1_def)
  have r1: "low_left (fr_low r1) = low_left (fr_low r)" "fr_state r1 = fr_state r" "fr_frame r1 = fr_frame r" "base_ok b (fr_low r1)"
    "fr_role L r1 = fr_role L r" "fragmented L r1 = fragmented L r"
    using al(2,3) by (simp_all add: r1_def fr_role_def fragmented_def)
  have "fr_Extensions r1 \<in> {[], [perMessageDeflateRecvExt]}" using wf1 by (simp add: fr_wf_def fr_core_def)
  obtain z e where ic: "is_compressed L h = (z, e)" by force
  show ?thesis
  proof (cases e)
    case (Some x)
    then have "next_frame L D (Some cb) None h r = Some (r1, h, Some x)" by (simp add: next_frame_def at ic r1_def)
    with wf1 r1 show ?thesis by simp
  next
    case None
    have core1: "fr_core D r1" using wf1 by (simp add: fr_wf_def)
    obtain r2 i where r2: "(if z then (case fr_GetFlateReader r1 of
          None \<Rightarrow> Some (r1, RBase b, Some (Errorf ''required `GetFlateReader`''))
        | Some get \<Rightarrow> Option.bind (get (fr_store r1) b) (\<lambda>(st, a). Some (r1\<lparr>fr_store := st, fr_flateReader := Some a\<rparr>, RFlate, None)))
        else Some (r1, RBase b, None)) = Some (r2, i, None)" "fr_core D r2" "ref_ok i r2" "fr_low r2 = fr_low r1" "fr_state r2 = fr_state r1"
        "fr_Extensions r2 = fr_Extensions r1" "\<not> z \<longrightarrow> r2 = r1 \<and> i = RBase b"
    proof (cases z)
      case True
      obtain get st a where g: "fr_GetFlateReader r1 = Some get" "get (fr_store r1) b = Some (st, a)"
        "fr_core D (r1\<lparr>fr_store := st, fr_flateReader := Some a\<rparr>)" "ref_ok RFlate (r1\<lparr>fr_store := st, fr_flateReader := Some a\<rparr>)"
        by (rule flate_get_safe [OF core1 r1(4)])
      show ?thesis
        by (rule that [of "r1\<lparr>fr_store := st, fr_flateReader := Some a\<rparr>" RFlate]) (use True g in simp_all)
    next
      case False
      show ?thesis by (rule that [of r1 "RBase b"]) (use False core1 r1 in simp_all)
    qed
    obtain h' where ub: "unset_bits (fr_Extensions r2) h = (h', None)" "h_op h' = h_op h" "h_fin h' = h_fin h"
      using unset_bits_op [of "fr_Extensions r2" h] wf1 r2(6) by (auto simp: fr_wf_def fr_core_def)
    have nf: "next_frame L D (Some cb) None h r =
        (if fragmented L r2 then
           if is_control L (h_op h) then
             Option.bind (cb h' (inner_read D i) r2) (\<lambda>(r, e).
               case e of Some x \<Rightarrow> Some (r, h', Some x) | None \<Rightarrow> Option.bind (discard_raw r) (\<lambda>(r, e). Some (r, h', e)))
           else install_frame L D None h' i r2
         else install_frame L D None h' i (r2\<lparr>fr_opCode := h_op h'\<rparr>))"
      using r2(1) ub unfolding next_frame_def at ic None r1_def by simp
    have fr2: "fragmented L r2 = fragmented L r" "low_left (fr_low r2) = low_left (fr_low r)" "fr_role L r2 = fr_role L r"
      using r1 r2 by (simp_all add: fragmented_def fr_role_def)
    have ctl: "\<not> z" "h_fin h" if "is_control L (h_op h)" using laws(1) that ic None check unfolding control_laws_def by auto
    show ?thesis
    proof (cases "fragmented L r2 \<and> is_control L (h_op h)")
      case True
      with ctl r2(7) have r2': "r2 = r1" "i = RBase b" by blast+
      have "in_frame D b (fr_frame r1) (fr_state r1) r1" using wf1 r1(4) by (simp add: in_frame_def)
      with cb obtain r3 e3 where r3: "cb h' (inner_read D (RBase b)) r1 = Some (r3, e3)" "in_frame D b (fr_frame r1) (fr_state r1) r3"
        "fr_left r3 \<le> fr_left r1" unfolding ctrl_safe_def handler_safe_def by blast
      from r3(2) have in3: "fr_wf D r3" "fr_frame r3 = fr_frame r" "fr_state r3 = fr_state r" using r1 by (simp_all add: in_frame_def)
      then have l3: "low_left (fr_low r3) \<le> low_left (fr_low r)" using r3(3) r1 by (simp add: fr_left_def)
      show ?thesis
      proof (cases e3)
        case (Some x)
        with True r3 r2' in3 l3 ub show ?thesis by (simp add: nf fr_role_def)
      next
        case None
        obtain l4 e4 where d: "discard_raw r3 = Some (r3\<lparr>fr_low := l4\<rparr>, e4)" "low_keeps (fr_low r3) l4"
          using discard_raw_safe [OF in3(1)] by blast
        have "low_left l4 \<le> low_left (fr_low r)" using d(2) l3 by (simp add: low_keeps_def)
        with None True r3 r2' in3 d fr_wf_low [OF in3(1) d(2)] ub fr2 show ?thesis by (simp add: nf fr_role_def)
      qed
    next
      case False
      define r3 where "r3 = (if fragmented L r2 then r2 else r2\<lparr>fr_opCode := h_op h'\<rparr>)"
      have "fr_low r3 = fr_low r2" "fr_store r3 = fr_store r2" "fr_flateReader r3 = fr_flateReader r2" "fr_state r3 = fr_state r2"
        by (simp_all add: r3_def)
      with r2(2,3) ref_ok_cong [of r3 r2 i] have c3: "fr_core D r3" "ref_ok i r3" "low_left (fr_low r3) = low_left (fr_low r)"
        "fragmented L r3 = fragmented L r" "fr_role L r3 = fr_role L r"
        using fr2 by (simp_all add: fr_core_def flate_pair_def in_use_ok_def r3_def fragmented_def fr_role_def)
      obtain r4 where i4: "install_frame L D None h' i r3 = Some (r4, h', None)" "fr_wf D r4" "fr_low r4 = fr_low r3"
        "h_op h' \<noteq> OpText L \<longrightarrow> \<not> fragmented L r3 \<longrightarrow> fr_frame r4 = Some (RInner i)"
        "fr_state r4 = (if h_fin h' then st_clear L (fr_state r3) (StateFragmented L) else st_set L (fr_state r3) (StateFragmented L))"
        using install_frame_safe [OF c3(1,2), of L h'] by blast
      have "next_frame L D (Some cb) None h r = Some (r4, h', None)" using False i4(1) by (auto simp: nf r3_def)
      moreover have "fr_role L r4 = fr_role L r" using i4(5) c3(5) fr_role_state [OF laws(2)] by (simp add: fr_role_def)
      moreover have "\<not> fragmented L r4 \<and> (\<exists>b. fr_frame r4 = Some (RInner (RBase b)))" if "\<not> fragmented L r" "is_control L (h_op h)"
      proof -
        have "h_op h' \<noteq> OpText L" using that(2) laws(3) ub(2) by (auto simp: opcode_laws_def word_le_nat_alt)
        moreover have "\<not> fragmented L r4" using i4(5) ctl(2) [OF that(2)] ub(3) laws(2) by (simp add: fragmented_def state_laws_def)
        ultimately show ?thesis using i4(4) c3(4) that r2(7) ctl(1) [OF that(2)] by simp
      qed
      ultimately show ?thesis using i4(2,3) c3(3) False fr2(1) ub(2) by auto
    qed
  qed
qed

lemma NextFrame_safe:
  fixes r :: "('d, 'x) frame_reader" and L :: "('x, 'cw) ws_lib"
  assumes wf: "fr_wf D r" and laws: "control_laws L" "state_laws L" "opcode_laws L" and cb: "ctrl_safe D cb"
  shows "\<exists>r' h e. NextFrame L D (Some cb) None r = Some (r', h, e) \<and> fr_wf D r' \<and> fr_left r' \<le> fr_left r
    \<and> fr_role L r' = fr_role L r \<and> (e = None \<longrightarrow> fr_left r' < fr_left r)
    \<and> (e = None \<longrightarrow> \<not> fragmented L r \<longrightarrow> is_control L (h_op h) \<longrightarrow> \<not> fragmented L r' \<and> (\<exists>b. fr_frame r' = Some (RInner (RBase b))))"
proof -
  let ?l = "fr_low r"
  obtain c h e0 where rh: "ReadHeader conn_read (lw_src ?l) = Some (c, h, e0)" "conn_left c \<le> low_left ?l"
    "e0 = None \<longrightarrow> conn_left c < low_left ?l \<and> 0 \<le> sint (h_length h)" using ReadHeader_safe by blast
  define r0 where "r0 = r\<lparr>fr_low := ?l\<lparr>lw_src := c\<rparr>\<rparr>"
  define e1 where "e1 = (if e0 = Some EOF \<and> fragmented L r0 then Some ErrUnexpectedEOF else e0)"
  define e2 where "e2 = (if e1 = None \<and> \<not> fr_SkipHeaderCheck r0 then check_header L h (fr_state r0) else e1)"
  have base: "base_ok b (?l\<lparr>lw_src := c\<rparr>) = base_ok b ?l" for b by (cases b) simp_all
  have "low_keeps ?l (?l\<lparr>lw_src := c\<rparr>)" using rh(2) base by (simp add: low_keeps_def)
  with fr_wf_low [OF wf] have wf0: "fr_wf D r0" by (simp add: r0_def)
  have l0: "fr_left r0 \<le> fr_left r" "fr_role L r0 = fr_role L r" "fragmented L r0 = fragmented L r" "low_left (fr_low r0) = conn_left c"
    "fr_frame r0 = fr_frame r" using rh(2) by (simp_all add: fr_left_def r0_def fr_role_def fragmented_def)
  have skip: "\<not> fr_SkipHeaderCheck r0" using wf0 by (simp add: fr_wf_def fr_core_def)
  note NF = NextFrame_parts [OF rh(1) r0_def e1_def e2_def, of D "Some cb" None]
  show ?thesis
  proof (cases "e2 = None \<and> \<not> (0 < sint (fr_MaxFrameSize r0) \<and> sint (fr_MaxFrameSize r0) < sint (h_length h))")
    case False
    then have "\<exists>x. NextFrame L D (Some cb) None r = Some (r0, h, Some x)" unfolding NF by (cases e2) auto
    with wf0 l0 show ?thesis by auto
  next
    case True
    then have "e0 = None" and check: "check_header L h (fr_state r0) = None"
      using skip by (auto simp: e2_def e1_def split: if_splits)
    with rh have lt: "conn_left c < low_left ?l" and nonneg: "0 \<le> sint (h_length h)" by simp_all
    obtain r' h' e where n: "next_frame L D (Some cb) None h r0 = Some (r', h', e)" "fr_wf D r'" "low_left (fr_low r') \<le> low_left (fr_low r0)"
      "fr_role L r' = fr_role L r0" "e \<noteq> None \<or> fragmented L r0 \<and> is_control L (h_op h) \<longrightarrow> fr_frame r' = fr_frame r0" "h_op h' = h_op h"
      "e = None \<longrightarrow> \<not> fragmented L r0 \<longrightarrow> is_control L (h_op h) \<longrightarrow> \<not> fragmented L r' \<and> (\<exists>b. fr_frame r' = Some (RInner (RBase b)))"
      using next_frame_safe [OF wf0 laws cb nonneg check] by blast
    have "fr_left r' < fr_left r" using lt n(3) l0(4) by (simp add: fr_left_def)
    moreover have "NextFrame L D (Some cb) None r = Some (r', h', e)" using True n(1) unfolding NF by auto
    ultimately show ?thesis using n l0 by auto
  qed
qed

section \<open>Read and Discard\<close>

lemma FrameReader_Read_safe:
  fixes r :: "('d, 'x) frame_reader" and L :: "('x, 'cw) ws_lib"
  assumes wf: "fr_wf D r" and dec: "dec_safe D" and laws: "control_laws L" "state_laws L" "opcode_laws L" and cb: "ctrl_safe D cb"
  shows "\<exists>r' bs e. FrameReader_Read L D (Some cb) None r n = Some (r', bs, e) \<and> fr_wf D r' \<and> fr_left r' \<le> fr_left r
    \<and> fr_role L r' = fr_role L r"
proof (cases "fr_frame r")
  case (Some f)
  then show ?thesis using read_body_safe [OF wf dec Some, of L n] by (auto simp: FrameReader_Read_def fr_role_def)
next
  case None
  show ?thesis
  proof (cases "fragmented L r")
    case False
    with None wf show ?thesis by (simp add: FrameReader_Read_def)
  next
    case True
    obtain r1 h e where n: "NextFrame L D (Some cb) None r = Some (r1, h, e)" "fr_wf D r1" "fr_left r1 \<le> fr_left r" "fr_role L r1 = fr_role L r"
      using NextFrame_safe [OF wf laws cb] by blast
    show ?thesis
    proof (cases "e = None \<and> fr_frame r1 \<noteq> None")
      case True': True
      then obtain f where f: "fr_frame r1 = Some f" by blast
      obtain r2 bs e2 where "read_body L D f r1 n = Some (r2, bs, e2)" "fr_wf D r2" "fr_left r2 \<le> fr_left r1" "fr_state r2 = fr_state r1"
        using read_body_safe [OF n(2) dec f, of L n] by (elim exE conjE) (rule that; assumption)
      with n f True True' None show ?thesis by (simp add: FrameReader_Read_def fr_role_def)
    next
      case False
      with n True None show ?thesis by (cases e) (simp_all add: FrameReader_Read_def)
    qed
  qed
qed

text \<open>A frame that stands alone, neither compressed nor checked for UTF-8: its reader makes progress.\<close>

definition plain :: "('x, 'cw) ws_lib \<Rightarrow> 'd dec \<Rightarrow> byte \<Rightarrow> ('d, 'x) frame_reader \<Rightarrow> bool" where
  "plain L D s r \<longleftrightarrow> fr_wf D r \<and> \<not> fragmented L r \<and> fr_state r = s \<and> (fr_frame r = None \<or> (\<exists>b. fr_frame r = Some (RInner (RBase b))))"

lemma plain_progressing:
  assumes dec: "dec_safe D"
  shows "progressing (FrameReader_Read L D onI None) (plain L D s) fr_left"
proof
  fix r :: "('a, 'b) frame_reader" and n assume p: "plain L D s r"
  show "\<exists>r' bs e. FrameReader_Read L D onI None r n = Some (r', bs, e) \<and> plain L D s r' \<and> fr_left r' \<le> fr_left r
    \<and> (e = None \<longrightarrow> 0 < n \<longrightarrow> fr_left r' < fr_left r)"
  proof (cases "fr_frame r")
    case None
    with p show ?thesis by (simp add: FrameReader_Read_def plain_def)
  next
    case (Some f)
    with p obtain b where b: "f = RInner (RBase b)" by (auto simp: plain_def)
    obtain r' bs e where r': "read_body L D f r n = Some (r', bs, e)" "fr_wf D r'" "fr_left r' \<le> fr_left r" "fr_state r' = fr_state r"
      "fr_frame r' = None \<or> fr_frame r' = fr_frame r" "e = None \<longrightarrow> 0 < n \<longrightarrow> fr_left r' < fr_left r"
      using read_body_safe [OF _ dec Some, of L n] p b by (auto simp: plain_def)
    have "plain L D s r'" using p r' Some b by (auto simp: plain_def fragmented_def)
    with r' Some show ?thesis by (simp add: FrameReader_Read_def)
  qed
qed

lemma Discard_safe:
  fixes r :: "('d, 'x) frame_reader" and L :: "('x, 'cw) ws_lib"
  assumes wf: "fr_wf D r" and laws: "control_laws L" "state_laws L" "opcode_laws L" and cb: "ctrl_safe D cb"
  shows "\<exists>r' e. Discard L D (Some cb) None r = Some (r', e) \<and> fr_wf D r' \<and> fr_left r' \<le> fr_left r \<and> fr_role L r' = fr_role L r
    \<and> (e = None \<longrightarrow> \<not> fragmented L r')"
proof -
  have "\<exists>r' e. discard_loop L D (Some cb) None r = Some (r', e) \<and> fr_wf D r' \<and> fr_left r' \<le> fr_left r \<and> fr_role L r' = fr_role L r
      \<and> (e = None \<longrightarrow> \<not> fragmented L r')" using wf
  proof (induction "fr_left r" arbitrary: r rule: less_induct)
    case less
    obtain l e1 where d: "discard_raw r = Some (r\<lparr>fr_low := l\<rparr>, e1)" "low_keeps (fr_low r) l" using discard_raw_safe [OF less.prems] by blast
    let ?r1 = "r\<lparr>fr_low := l\<rparr>"
    have r1: "fr_wf D ?r1" "fr_left ?r1 \<le> fr_left r" "fr_role L ?r1 = fr_role L r"
      using fr_wf_low [OF less.prems d(2)] d(2) by (simp_all add: fr_left_def low_keeps_def fr_role_def)
    show ?case
    proof (cases "e1 = None \<and> fragmented L ?r1")
      case False
      then have "discard_loop L D (Some cb) None r = Some (?r1, e1)" using d(1) by (subst discard_loop.simps) auto
      with r1 False show ?thesis by auto
    next
      case True
      obtain r2 h e2 where n: "NextFrame L D (Some cb) None ?r1 = Some (r2, h, e2)" "fr_wf D r2" "fr_left r2 \<le> fr_left ?r1"
        "fr_role L r2 = fr_role L ?r1" "e2 = None \<longrightarrow> fr_left r2 < fr_left ?r1" using NextFrame_safe [OF r1(1) laws cb] by blast
      show ?thesis
      proof (cases e2)
        case None
        with n r1 have "fr_left r2 < fr_left r" by simp
        from less.hyps [OF this n(2)] obtain r3 e3 where "discard_loop L D (Some cb) None r2 = Some (r3, e3)" "fr_wf D r3"
          "fr_left r3 \<le> fr_left r2" "fr_role L r3 = fr_role L r2" "e3 = None \<longrightarrow> \<not> fragmented L r3" by blast
        with n r1 d(1) True None show ?thesis by (subst discard_loop.simps) auto
      next
        case (Some x)
        with n r1 d(1) True show ?thesis by (subst discard_loop.simps) auto
      qed
    qed
  qed
  then obtain r1 e where r1: "discard_loop L D (Some cb) None r = Some (r1, e)" "fr_wf D r1" "fr_left r1 \<le> fr_left r" "fr_role L r1 = fr_role L r"
    "e = None \<longrightarrow> \<not> fragmented L r1" by blast
  have "fr_state (reset L r1) = fr_state r1" by (simp add: reset_def Let_def split: option.split)
  then show ?thesis using r1 reset_safe [OF r1(2), of L] by (simp add: Discard_def fr_role_def fragmented_def)
qed

end
