(* ===== verification/WsSafe.thy ===== *)
theory WsSafe
  imports FrameSafe WsDeflate
begin

text \<open>
  The transport on arbitrary input: the state that \<open>newWebsocketTransport\<close> sets up and every operation keeps, and that in it no
  operation panics or loops, whatever the peer sends and whatever the connection answers.
\<close>

section \<open>Well-formed transports\<close>

definition safe_laws :: "('x, 'cw) ws_lib \<Rightarrow> 'd dec \<Rightarrow> bool" where
  "safe_laws L D \<longleftrightarrow> writes_only L \<and> control_laws L \<and> state_laws L \<and> opcode_laws L \<and> dec_safe D"

text \<open>The writers, when there is compression at all.\<close>

definition writers_wf :: "('cert, 'c, 'd, 'x) ws_transport \<Rightarrow> bool" where
  "writers_wf t \<longleftrightarrow> (if o_CompressEnabled (t_options t) \<and> n_enabled (t_negotiated t) then writers_ok (\<lambda>_. True) t
     else t_persistentFlateWriter t = None)"

text \<open>\<open>t_safe\<close> holds after every operation, \<open>t_wf\<close> where \<open>Read\<close> may go on.\<close>

definition t_safe :: "('x, 'cw) ws_lib \<Rightarrow> 'd dec \<Rightarrow> ('cert, 'c, 'd, 'x) ws_transport \<Rightarrow> bool" where
  "t_safe L D t \<longleftrightarrow> fr_wf D (t_reader t) \<and> fr_role L (t_reader t) = t_state t OR StateExtended L
     \<and> t_state t \<in> {StateClientSide L, StateServerSide L} \<and> t_opCode t \<in> {OpText L, OpBinary L} \<and> writers_wf t"

definition t_wf :: "('x, 'cw) ws_lib \<Rightarrow> 'd dec \<Rightarrow> ('cert, 'c, 'd, 'x) ws_transport \<Rightarrow> bool" where
  "t_wf L D t \<longleftrightarrow> t_safe L D t \<and> (\<not> t_msgReader t \<longrightarrow> \<not> fragmented L (t_reader t))"

text \<open>Writing to the connection, whatever it answers.\<close>

definition dst_changed :: "('d, 'x) frame_reader \<Rightarrow> ('d, 'x) frame_reader \<Rightarrow> bool" where
  "dst_changed r r' \<longleftrightarrow> (\<exists>c. r' = fr_set_dst c r \<and> in_chunks c = in_chunks (fr_dst r))"

lemma fr_set_dst_simps [simp]:
  "fr_set_dst (fr_dst r) r = r" "fr_dst (fr_set_dst c r) = c" "fr_set_dst c (fr_set_dst c' r) = fr_set_dst c r"
  by (simp_all add: fr_set_dst_def fr_dst_def)

lemma dst_changed_refl [simp]: "dst_changed r r"
  unfolding dst_changed_def by (intro exI [of _ "fr_dst r"]) simp

lemma dst_changed_trans: "dst_changed r r' \<Longrightarrow> dst_changed r' r'' \<Longrightarrow> dst_changed r r''"
  by (auto simp: dst_changed_def)

lemma dst_changed_safe:
  assumes "dst_changed r r'" and "fr_wf D r"
  shows "fr_wf D r'" and "fr_left r' = fr_left r" and "fr_role L r' = fr_role L r" and "fragmented L r' = fragmented L r"
  using assms fr_set_dst_safe [OF assms(2)] by (auto simp: dst_changed_def fr_role_def fragmented_def)

text \<open>What a write leaves of the transport.\<close>

definition t_written :: "('cert, 'c, 'd, 'x) ws_transport \<Rightarrow> ('cert, 'c, 'd, 'x) ws_transport \<Rightarrow> bool" where
  "t_written t t' \<longleftrightarrow> dst_changed (t_reader t) (t_reader t') \<and> t_options t' = t_options t \<and> t_state t' = t_state t
     \<and> t_opCode t' = t_opCode t \<and> t_negotiated t' = t_negotiated t \<and> t_msgReader t' = t_msgReader t"

lemma t_written_refl [simp]: "t_written t t"
  by (simp add: t_written_def)

lemma t_written_trans: "t_written t t' \<Longrightarrow> t_written t' t'' \<Longrightarrow> t_written t t''"
  using dst_changed_trans by (auto simp: t_written_def)

lemma t_written_safe:
  assumes "t_written t t'" and "writers_wf t \<Longrightarrow> writers_wf t'"
  shows "t_safe L D t \<Longrightarrow> t_safe L D t'" and "t_wf L D t \<Longrightarrow> t_wf L D t'"
proof -
  note w = assms(1) [unfolded t_written_def]
  note d = dst_changed_safe [OF conjunct1 [OF w], of D]
  show s: "t_safe L D t'" if "t_safe L D t"
    using that assms(2) w d(1) d(3) [of L] by (simp add: t_safe_def)
  show "t_wf L D t'" if "t_wf L D t"
    using that s w d(4) [of L] by (simp add: t_wf_def t_safe_def)
qed

lemma t_set_conn_written: "in_chunks c = in_chunks (t_conn t) \<Longrightarrow> t_written t (t_set_conn c t)"
  unfolding t_written_def by (auto simp: t_set_conn_def t_conn_def dst_changed_def)

lemma draw_mask_written:
  "draw_mask L t = (t', msk) \<Longrightarrow> t_written t t' \<and> writers_wf t' = writers_wf t \<and> t_conn t' = t_conn t
     \<and> t_writers t' = t_writers t \<and> t_persistentFlateWriter t' = t_persistentFlateWriter t"
proof -
  assume "draw_mask L t = (t', msk)"
  then consider "t' = t" | "t' = t\<lparr>t_draws := Suc (t_draws t)\<rparr>" by (auto simp: draw_mask_def split: if_splits)
  then show ?thesis
    by cases (simp_all add: t_written_def writers_wf_def writers_ok_def t_conn_def split: option.split)
qed

section \<open>Writing\<close>

lemma conn_flush_chunks: "conn_flush c = (c', e) \<Longrightarrow> in_chunks c' = in_chunks c"
  by (auto simp: conn_flush_def split: list.splits option.splits)

lemma write_packet_written:
  assumes "write_packet L t msk p z n = (t', k, e)"
  shows "t_written t t' \<and> t_writers t' = t_writers t \<and> t_persistentFlateWriter t' = t_persistentFlateWriter t"
proof -
  let ?buf = "t_pool t (14 + length p)"
  obtain hdr hn e0 where ph: "packHeader (st_client L (t_state t)) (t_opCode t) (take 14 ?buf) True msk
      (word_of_nat (length p)) z = (hdr, hn, e0)" by (metis prod_cases3)
  show ?thesis
  proof (cases e0)
    case (Some x)
    with assms ph show ?thesis by (simp add: write_packet_def Let_def)
  next
    case None
    obtain c m e' where w: "conn_write (t_conn t) (take (hn + length p) (go_copy (hdr @ drop 14 ?buf) hn p)) = (c, m, e')"
      by (metis prod_cases3)
    with assms ph None have "t' = t_set_conn c t" by (simp add: write_packet_def Let_def)
    with conn_write_frame(1) [OF w] show ?thesis by (simp add: t_set_conn_written)
  qed
qed

lemma fw_write_good:
  assumes "fw_c fw = Some (Some c)" and "fw_err fw = None"
  shows "\<exists>fw' w' n e c'. fw_write C dw fw w p = Some (fw', w', n, e) \<and> fw_c fw' = Some (Some c')"
proof -
  obtain c' bs n e where "c_write C c p = (c', bs, n, e)" by (metis prod_cases4)
  moreover obtain cb w' where "blocks_write dw (fw_cbuf fw, w) bs = (cb, w')" by force
  ultimately show ?thesis using assms by (simp add: fw_write_def)
qed

lemma fw_flush_good:
  assumes "fw_c fw = Some (Some c)"
  shows "\<exists>fw' w' e c'. fw_flush C dw fw w = Some (fw', w', e) \<and> fw_c fw' = Some (Some c')"
proof (cases "fw_err fw")
  case (Some x)
  with assms show ?thesis by (simp add: fw_flush_def)
next
  case None
  obtain c' bs e where "c_flush C c = (c', bs, e)" by (metis prod_cases3)
  moreover obtain cb w' where "blocks_write dw (fw_cbuf fw, w) bs = (cb, w')" by force
  ultimately show ?thesis using assms None by (simp add: fw_flush_def fw_checkTail_def Let_def)
qed

text \<open>A good writer takes any message, whatever the compressor answers.\<close>

lemma compress_payload_safe:
  assumes good: "good_writer P (wst_obj st a)"
  obtains st' z e where "compress_payload st a p = Some (st', z, e)" and "good_writer P (wst_obj st' a)"
    and "\<And>b. b \<noteq> a \<Longrightarrow> wst_obj st' b = wst_obj st b" and "wst_pool st' = wst_pool st"
proof -
  obtain C fw where o: "wst_obj st a = (C, fw)" by force
  obtain fw0 c where r: "fw_reset C fw = Some fw0" "fw_c fw0 = Some (Some c)" "fw_err fw0 = None"
    using fw_reset_good [OF good [unfolded o]] by blast
  have P: "P C" "c_new C \<noteq> None" using good o by (simp_all add: good_writer_def)
  obtain c1 fw1 w1 k e1 where w: "fw_write C buffer_write fw0 [] p = Some (fw1, w1, k, e1)" "fw_c fw1 = Some (Some c1)"
    using fw_write_good [OF r(2,3), of C buffer_write "[]" p] by blast
  have "\<exists>fw2 w2 e2. (if e1 = None then fw_flush C buffer_write fw1 w1 else Some (fw1, w1, e1)) = Some (fw2, w2, e2) \<and> fw_c fw2 \<noteq> Some None"
    using w(2) fw_flush_good [OF w(2), of C buffer_write w1] by (cases "e1 = None") auto
  then obtain fw2 w2 e2 where f: "(if e1 = None then fw_flush C buffer_write fw1 w1 else Some (fw1, w1, e1)) = Some (fw2, w2, e2)"
    "fw_c fw2 \<noteq> Some None" by blast
  let ?st = "st\<lparr>wst_obj := (wst_obj st)(a := (C, fw2))\<rparr>"
  show thesis
    by (rule that [of ?st w2 e2]) (use o r w f P in \<open>simp_all add: compress_payload_def writer_reset_def good_writer_def\<close>)
qed

lemma writers_wf_written: "t_written t t' \<Longrightarrow> t_writers t' = t_writers t \<Longrightarrow>
    t_persistentFlateWriter t' = t_persistentFlateWriter t \<Longrightarrow> writers_wf t' = writers_wf t"
  by (simp add: t_written_def writers_wf_def writers_ok_def split: option.split)

text \<open>Masking and the packet, as both paths of \<open>Write\<close> have them.\<close>

lemma mask_and_write_safe:
  assumes "draw_mask L t = (t1, msk)" and "write_packet L t1 msk q z n = (t2, k, e)"
  shows "t_written t t2" and "t_writers t2 = t_writers t" and "t_persistentFlateWriter t2 = t_persistentFlateWriter t"
  using draw_mask_written [OF assms(1)] write_packet_written [OF assms(2)] t_written_trans by auto

lemma put_back_safe:
  assumes comp: "o_CompressEnabled (t_options t) \<and> n_enabled (t_negotiated t)"
    and good: "good_writer (\<lambda>_. True) (wst_obj (t_writers t) a)"
    and pool: "t_persistentFlateWriter t = None \<longrightarrow> (\<forall>b \<in> set (wst_pool (t_writers t)). good_writer (\<lambda>_. True) (wst_obj (t_writers t) b))"
    and new: "t_persistentFlateWriter t = None \<longrightarrow> (\<exists>C. o_writerPool (t_options t) = Some (Some C) \<and> c_new C \<noteq> None)"
    and pers: "t_persistentFlateWriter t \<noteq> None \<longrightarrow> t_persistentFlateWriter t = Some a"
  shows "\<exists>t'. put_back a t = Some t' \<and> t_written t t' \<and> writers_wf t'"
proof -
  obtain t' where t': "put_back a t = Some t'" "writers_ok (\<lambda>_. True) t'" "w_core t' = w_core t"
    by (rule put_back_good [of "\<lambda>_. True" t a]) (use assms in auto)
  have "t' = t \<or> (\<exists>st. t' = t\<lparr>t_writers := st\<rparr>)"
    using t'(1) by (auto simp: put_back_def bind_eq_Some_conv split: if_splits)
  then have "t_written t t'" by (auto simp: t_written_def)
  with t'(1,2) comp show ?thesis by (auto simp: writers_wf_def t_written_def)
qed

lemma writeCompress_safe:
  assumes wf: "writers_wf t" and comp: "o_CompressEnabled (t_options t) \<and> n_enabled (t_negotiated t)" "compress_wanted t p"
  shows "\<exists>t' q n e. writeCompress L t p = Some (t', q, n, e) \<and> t_written t t' \<and> writers_wf t'"
proof -
  have ok: "writers_ok (\<lambda>_. True) t" using wf comp(1) by (simp add: writers_wf_def)
  obtain st a where tw: "take_writer t = Some (st, a)" "good_writer (\<lambda>_. True) (wst_obj st a)"
    "t_persistentFlateWriter t = None \<longrightarrow> (\<forall>b \<in> set (wst_pool st). good_writer (\<lambda>_. True) (wst_obj st b))"
    "t_persistentFlateWriter t \<noteq> None \<longrightarrow> t_persistentFlateWriter t = Some a"
    by (rule take_writer_good [OF ok])
  obtain st' z e where cp: "compress_payload st a p = Some (st', z, e)" "good_writer (\<lambda>_. True) (wst_obj st' a)"
    "\<And>b. b \<noteq> a \<Longrightarrow> wst_obj st' b = wst_obj st b" "wst_pool st' = wst_pool st"
    by (rule compress_payload_safe [OF tw(2), of p]) blast
  have pool: "t_persistentFlateWriter t = None \<longrightarrow> (\<forall>b \<in> set (wst_pool st'). good_writer (\<lambda>_. True) (wst_obj st' b))"
    using tw(3) cp(2-4) by metis
  have new: "t_persistentFlateWriter t = None \<longrightarrow> (\<exists>C. o_writerPool (t_options t) = Some (Some C) \<and> c_new C \<noteq> None)"
    using ok by (auto simp: writers_ok_def)
  let ?t = "t\<lparr>t_writers := st'\<rparr>"
  have pb: "\<exists>t'. put_back a t2 = Some t' \<and> t_written t t' \<and> writers_wf t'"
    if "t_written ?t t2" "t_writers t2 = st'" "t_persistentFlateWriter t2 = t_persistentFlateWriter t" for t2
  proof -
    have o: "t_options t2 = t_options t" "t_negotiated t2 = t_negotiated t" "t_written t t2" using that(1) by (auto simp: t_written_def)
    have "\<exists>t'. put_back a t2 = Some t' \<and> t_written t2 t' \<and> writers_wf t'"
      by (rule put_back_safe) (use o that(2,3) comp(1) cp(2) pool new tw(4) in simp_all)
    with t_written_trans [OF o(3)] show ?thesis by blast
  qed
  show ?thesis
  proof (cases e)
    case (Some x)
    obtain t' where "put_back a ?t = Some t'" "t_written t t'" "writers_wf t'" using pb [of ?t] by auto
    with Some comp(2) tw(1) cp(1) show ?thesis by (simp add: writeCompress_def)
  next
    case None
    obtain t1 msk where dm: "draw_mask L ?t = (t1, msk)" by force
    let ?z = "if st_client L (t_state t) then FastCipher z msk 0 else z"
    obtain t2 n e2 where wp: "write_packet L t1 msk ?z True (length p) = (t2, n, e2)" by (metis prod_cases3)
    have st1: "t_state t1 = t_state t" using draw_mask_written [OF dm] by (simp add: t_written_def)
    note m = mask_and_write_safe [OF dm wp]
    obtain t' where "put_back a t2 = Some t'" "t_written t t'" "writers_wf t'" using pb [OF m(1)] m by auto
    with None comp(2) tw(1) cp(1) dm wp st1 show ?thesis by (simp add: writeCompress_def Let_def)
  qed
qed

lemma Write_safe:
  assumes "writers_wf t"
  shows "\<exists>t' q n e. Write L t p = Some (t', q, n, e) \<and> t_written t t' \<and> writers_wf t'"
proof (cases "o_CompressEnabled (t_options t) \<and> n_enabled (t_negotiated t) \<and> sint (o_CompressThreshold (t_options t)) \<le> int (length p)")
  case True
  then have "Write L t p = writeCompress L t p" "compress_wanted t p" by (simp_all add: Write_def compress_wanted_def)
  with writeCompress_safe [OF assms, of p L] True show ?thesis by simp
next
  case False
  obtain t1 msk where dm: "draw_mask L t = (t1, msk)" by force
  let ?q = "if st_client L (t_state t) then FastCipher p msk 0 else p"
  obtain t2 n e where wp: "write_packet L t1 msk ?q False (length p) = (t2, n, e)" by (metis prod_cases3)
  have st1: "t_state t1 = t_state t" using draw_mask_written [OF dm] by (simp add: t_written_def)
  note m = mask_and_write_safe [OF dm wp]
  have "Write L t p = Some (t2, ?q, n, e)" using False dm wp st1 by (auto simp: Write_def Let_def)
  with m writers_wf_written [OF m(1-3)] assms show ?thesis by blast
qed

lemma Writev_safe:
  assumes "writers_wf t"
  shows "\<exists>t' qs n e. Writev L t ps = Some (t', qs, n, e) \<and> t_written t t' \<and> writers_wf t'"
proof -
  have "\<exists>t' qs n' e. Writev_loop L t ps n = Some (t', qs, n', e) \<and> t_written t t' \<and> writers_wf t'" for n
    using assms
  proof (induction ps arbitrary: t n)
    case (Cons p ps)
    obtain t1 q k e where w: "Write L t p = Some (t1, q, k, e)" "t_written t t1" "writers_wf t1" using Write_safe [OF Cons.prems] by blast
    show ?case
    proof (cases e)
      case (Some x)
      with w show ?thesis by simp
    next
      case None
      obtain t' qs n' e' where "Writev_loop L t1 ps (n + length p) = Some (t', qs, n', e')" "t_written t1 t'" "writers_wf t'"
        using Cons.IH [OF w(3)] by blast
      with w None t_written_trans [OF w(2)] show ?thesis by simp
    qed
  qed simp
  then show ?thesis by (simp add: Writev_def)
qed

lemma WriteClose_safe:
  assumes lib: "writes_only L" and "WriteClose L t code reason = (t', e)"
  shows "t_written t t'" and "writers_wf t' = writers_wf t"
proof -
  obtain t1 msk where dm: "draw_mask L t = (t1, msk)" by force
  note d = draw_mask_written [OF dm]
  have "\<exists>c. t' = t_set_conn c t1 \<and> in_chunks c = in_chunks (t_conn t1)"
    using assms(2) dm writes_only_simps(4) [OF lib] conn_flush_chunks
    by (auto simp: WriteClose_def Let_def split: prod.splits option.splits)
  then obtain c where c: "t' = t_set_conn c t1" "in_chunks c = in_chunks (t_conn t1)" by blast
  then show "t_written t t'" using d t_set_conn_written t_written_trans by blast
  from writers_wf_written [OF this] show "writers_wf t' = writers_wf t" using c d by simp
qed

lemma Flush_safe:
  assumes "Flush t = (t', e)"
  shows "t_written t t'" and "writers_wf t' = writers_wf t"
proof -
  obtain c where c: "conn_flush (t_conn t) = (c, e)" "t' = t_set_conn c t" using assms by (auto simp: Flush_def split: prod.splits)
  then show "t_written t t'" using t_set_conn_written conn_flush_chunks by blast
  from writers_wf_written [OF this] show "writers_wf t' = writers_wf t" using c by simp
qed

section \<open>Reading\<close>

lemma t_safe_reader:
  assumes "t_safe L D t" and "fr_wf D r" and "fr_role L r = fr_role L (t_reader t)"
  shows "t_safe L D (t\<lparr>t_reader := r\<rparr>)" and "t_safe L D (t\<lparr>t_reader := r, t_msgReader := m\<rparr>)"
proof -
  have "writers_wf (t\<lparr>t_reader := r\<rparr>) = writers_wf t" "writers_wf (t\<lparr>t_reader := r, t_msgReader := m\<rparr>) = writers_wf t"
    by (simp_all add: writers_wf_def writers_ok_def split: option.split)
  with assms show "t_safe L D (t\<lparr>t_reader := r\<rparr>)" "t_safe L D (t\<lparr>t_reader := r, t_msgReader := m\<rparr>)"
    by (simp_all add: t_safe_def)
qed

text \<open>
  A turn of the loop of \<open>Read\<close>: a control frame is answered with the frame reader itself as the source, a frame of a type that is
  not accepted is dropped and the peer is told.
\<close>

inductive turn :: "('x, 'cw) ws_lib \<Rightarrow> 'd dec \<Rightarrow> ('cert, 'c, 'd, 'x) ws_transport \<Rightarrow> ('cert, 'c, 'd, 'x) ws_transport \<Rightarrow> bool"
  for L D t where
  turn_control: "\<lbrakk>NextFrame L D (Some (t_OnIntermediate L t)) None (t_reader t) = Some (r, h, None); is_control L (h_op h);
      t_OnIntermediate L t h (FrameReader_Read L D (Some (t_OnIntermediate L t)) None) r = Some (r', None)\<rbrakk>
    \<Longrightarrow> turn L D t (t\<lparr>t_reader := r'\<rparr>)"
| turn_refuse: "\<lbrakk>NextFrame L D (Some (t_OnIntermediate L t)) None (t_reader t) = Some (r, h, None); \<not> is_control L (h_op h);
      h_op h AND o_OpCode (t_options t) = 0; Discard L D (Some (t_OnIntermediate L t)) None r = Some (r', None)\<rbrakk>
    \<Longrightarrow> turn L D t (fst (WriteClose L (t\<lparr>t_reader := r'\<rparr>) (StatusUnsupportedData L) unsupported_reason))"

inductive_cases turn_cases [consumes 1, case_names control refuse]: "turn L D t t'"

lemma t_OnIntermediate_ctrl_safe: "writes_only L \<Longrightarrow> ctrl_safe D (t_OnIntermediate L t)"
  unfolding t_OnIntermediate_def by (rule ControlFrameHandler_ctrl_safe)

lemma control_frame_safe:
  fixes t :: "('cert, 'c, 'd, 'x) ws_transport" and L :: "('x, 'cw) ws_lib"
  assumes "writes_only L" "dec_safe D" "plain L D s r"
  shows "\<exists>r' e. t_OnIntermediate L t h (FrameReader_Read L D (Some (t_OnIntermediate L t)) None) r = Some (r', e)
    \<and> plain L D s r' \<and> fr_left r' \<le> fr_left r"
proof -
  have "handler_safe (t_OnIntermediate L t) (FrameReader_Read L D (Some (t_OnIntermediate L t)) None) (plain L D s) fr_left"
    unfolding t_OnIntermediate_def
    by (rule progressing.ControlFrameHandler_safe [OF plain_progressing [OF assms(2)] assms(1)])
      (auto simp: plain_def fragmented_def fr_set_dst_safe [where D = D])
  with assms(3) show ?thesis unfolding handler_safe_def by blast
qed

text \<open>The next frame is an error, another turn, or the begin of a message; a turn uses up some of the connection.\<close>

lemma next_message_cases:
  fixes t :: "('cert, 'c, 'd, 'x) ws_transport" and L :: "('x, 'cw) ws_lib"
  assumes laws: "safe_laws L D" and safe: "t_safe L D t" and whole: "\<not> fragmented L (t_reader t)"
  obtains (error) t' x where "next_message L D t = Some (t', Some x)" "t_safe L D t'"
        "x = EOF \<Longrightarrow> \<exists>r h r'. NextFrame L D (Some (t_OnIntermediate L t)) None (t_reader t) = Some (r, h, None) \<and> is_control L (h_op h)
          \<and> t_OnIntermediate L t h (FrameReader_Read L D (Some (t_OnIntermediate L t)) None) r = Some (r', Some EOF)
          \<and> t' = t\<lparr>t_reader := r'\<rparr>"
    | (turn) t' where "turn L D t t'" "next_message L D t = next_message L D t'" "t_safe L D t'" "\<not> fragmented L (t_reader t')"
        "fr_left (t_reader t') < fr_left (t_reader t)"
    | (opens) r h where "NextFrame L D (Some (t_OnIntermediate L t)) None (t_reader t) = Some (r, h, None)" "\<not> is_control L (h_op h)"
        "h_op h AND o_OpCode (t_options t) \<noteq> 0" "next_message L D t = Some (t\<lparr>t_reader := r, t_msgReader := True\<rparr>, None)"
        "t_safe L D (t\<lparr>t_reader := r, t_msgReader := True\<rparr>)"
proof -
  let ?cb = "t_OnIntermediate L t" and ?r = "t_reader t"
  from laws have lib: "writes_only L" "control_laws L" "state_laws L" "opcode_laws L" "dec_safe D" by (simp_all add: safe_laws_def)
  have wf: "fr_wf D ?r" using safe by (simp add: t_safe_def)
  note cb = t_OnIntermediate_ctrl_safe [OF lib(1), of D t]
  obtain r1 h e where n: "NextFrame L D (Some ?cb) None ?r = Some (r1, h, e)" "fr_wf D r1" "fr_left r1 \<le> fr_left ?r"
    "fr_role L r1 = fr_role L ?r" "e = None \<longrightarrow> fr_left r1 < fr_left ?r"
    "e = None \<longrightarrow> \<not> fragmented L ?r \<longrightarrow> is_control L (h_op h) \<longrightarrow> \<not> fragmented L r1 \<and> (\<exists>b. fr_frame r1 = Some (RInner (RBase b)))"
    using NextFrame_safe [OF wf lib(2-4) cb] by blast
  note s1 = t_safe_reader [OF safe n(2,4)]
  consider (err) x where "e = Some x" | (ctl) "e = None" "is_control L (h_op h)"
    | (refuse) "e = None" "\<not> is_control L (h_op h)" "h_op h AND o_OpCode (t_options t) = 0"
    | (msg) "e = None" "\<not> is_control L (h_op h)" "h_op h AND o_OpCode (t_options t) \<noteq> 0" by (cases e) auto
  then show thesis
  proof cases
    case err
    show thesis
      by (rule error [of "t\<lparr>t_reader := r1\<rparr>" "eof_unexpected x"])
        (use n(1) s1(1) err in \<open>auto simp: next_message.simps [of L D t] eof_unexpected_def split: if_splits\<close>)
  next
    case msg
    with n(1) s1(2) opens show thesis by (subst (asm) next_message.simps) simp
  next
    case ctl
    with n whole have "plain L D (fr_state r1) r1" by (simp add: plain_def)
    then obtain r2 e2 where c: "?cb h (FrameReader_Read L D (Some ?cb) None) r1 = Some (r2, e2)" "plain L D (fr_state r1) r2"
      "fr_left r2 \<le> fr_left r1" using control_frame_safe [OF lib(1,5)] by blast
    then have r2: "fr_wf D r2" "fr_role L r2 = fr_role L ?r" "\<not> fragmented L r2" using n(4) by (auto simp: plain_def fr_role_def)
    note s2 = t_safe_reader(1) [OF safe r2(1,2)]
    show thesis
    proof (cases e2)
      case (Some x)
      show thesis
        by (rule error [of "t\<lparr>t_reader := r2\<rparr>" x]) (use n(1) ctl c(1) s2 Some in \<open>auto simp: next_message.simps [of L D t]\<close>)
    next
      case None
      show thesis
      proof (rule turn)
        show "turn L D t (t\<lparr>t_reader := r2\<rparr>)" using n(1) c(1) ctl None by (intro turn_control) simp_all
        show "next_message L D t = next_message L D (t\<lparr>t_reader := r2\<rparr>)" using n(1) ctl c(1) None by (subst next_message.simps) simp
      qed (use s2 r2(3) n(5) c(3) ctl in simp_all)
    qed
  next
    case refuse
    obtain r2 e2 where d: "Discard L D (Some ?cb) None r1 = Some (r2, e2)" "fr_wf D r2" "fr_left r2 \<le> fr_left r1"
      "fr_role L r2 = fr_role L r1" "e2 = None \<longrightarrow> \<not> fragmented L r2" using Discard_safe [OF n(2) lib(2-4) cb] by blast
    have s2: "t_safe L D (t\<lparr>t_reader := r2\<rparr>)" using t_safe_reader(1) [OF safe d(2)] d(4) n(4) by simp
    show thesis
    proof (cases e2)
      case (Some x)
      show thesis
        by (rule error [of "t\<lparr>t_reader := r2\<rparr>" "eof_unexpected x"])
          (use n(1) refuse d(1) s2 Some in \<open>auto simp: next_message.simps [of L D t] eof_unexpected_def split: if_splits\<close>)
    next
      case None
      obtain t3 e3 where w: "WriteClose L (t\<lparr>t_reader := r2\<rparr>) (StatusUnsupportedData L) unsupported_reason = (t3, e3)" by force
      note ws = WriteClose_safe [OF lib(1) w]
      have ch: "dst_changed r2 (t_reader t3)" using ws(1) by (simp add: t_written_def)
      note dc = dst_changed_safe [OF ch d(2)]
      show thesis
      proof (rule turn)
        show "turn L D t t3" using turn_refuse [OF n(1) [unfolded refuse(1)] refuse(2,3), of r2] d(1) None w by simp
        show "next_message L D t = next_message L D t3" using n(1) refuse d(1) None w by (subst next_message.simps) simp
        show "t_safe L D t3" by (rule t_written_safe(1) [OF ws(1) _ s2]) (use ws(2) in simp)
      qed (use dc(2) dc(4) [of L] d(3,5) n(5) refuse None in simp_all)
    qed
  qed
qed

text \<open>So the loop ends.\<close>

lemma next_message_safe:
  fixes t :: "('cert, 'c, 'd, 'x) ws_transport" and L :: "('x, 'cw) ws_lib"
  assumes laws: "safe_laws L D" and safe: "t_safe L D t" and whole: "\<not> fragmented L (t_reader t)"
  shows "\<exists>t' e. next_message L D t = Some (t', e) \<and> t_safe L D t' \<and> (e = None \<longrightarrow> t_msgReader t')"
  using safe whole
proof (induction "fr_left (t_reader t)" arbitrary: t rule: less_induct)
  case less
  from laws less.prems show ?case
  proof (cases rule: next_message_cases)
    case (turn t')
    with less.hyps show ?thesis by metis
  qed simp_all
qed

lemma Read_safe:
  assumes laws: "safe_laws L D" and wf: "t_wf L D t"
  shows "\<exists>t' bs e. Read L D t n = Some (t', bs, e) \<and> t_safe L D t' \<and> (e = None \<longrightarrow> t_msgReader t')"
proof -
  from laws have lib: "writes_only L" "control_laws L" "state_laws L" "opcode_laws L" "dec_safe D" by (simp_all add: safe_laws_def)
  have rm: "\<exists>t' bs e. read_message L D t1 n = Some (t', bs, e) \<and> t_safe L D t' \<and> (e = None \<longrightarrow> t_msgReader t')"
    if "t_safe L D t1" "t_msgReader t1" for t1
  proof -
    have cb: "ctrl_safe D (t_OnIntermediate L t1)" unfolding t_OnIntermediate_def by (rule ControlFrameHandler_ctrl_safe [OF lib(1)])
    have "fr_wf D (t_reader t1)" using that(1) by (simp add: t_safe_def)
    from FrameReader_Read_safe [OF this lib(5,2-4) cb] obtain r bs e where
      r: "FrameReader_Read L D (Some (t_OnIntermediate L t1)) None (t_reader t1) n = Some (r, bs, e)" "fr_wf D r" "fr_role L r = fr_role L (t_reader t1)"
      by blast
    note s = t_safe_reader [OF that(1) r(2,3)]
    show ?thesis using r(1) s that(2) by (simp add: read_message_def)
  qed
  show ?thesis
  proof (cases "t_msgReader t")
    case True
    with rm [of t] wf show ?thesis by (simp add: Read_def t_wf_def)
  next
    case False
    then obtain t1 e where n: "next_message L D t = Some (t1, e)" "t_safe L D t1" "e = None \<longrightarrow> t_msgReader t1"
      using next_message_safe [OF laws] wf by (force simp: t_wf_def)
    with rm [of t1] False show ?thesis by (cases e) (auto simp: Read_def)
  qed
qed

lemma Close_safe:
  assumes "writers_wf t"
  shows "\<exists>t' e. Close D t = Some (t', e)"
proof -
  have w: "t_writers (close_reader D t) = t_writers t" "t_persistentFlateWriter (close_reader D t) = t_persistentFlateWriter t"
    by (simp_all add: close_reader_def split: option.split)
  have "\<exists>t1. close_writer (close_reader D t) = Some t1"
  proof (cases "t_persistentFlateWriter t")
    case None
    with w show ?thesis by (simp add: close_writer_def)
  next
    case (Some a)
    with assms have "good_writer (\<lambda>_. True) (wst_obj (t_writers t) a)" by (auto simp: writers_wf_def writers_ok_def split: if_splits)
    then obtain st where "writer_reset (t_writers t) a = Some st" by (rule writer_reset_good) 
    with Some w show ?thesis by (simp add: close_writer_def writer_pool_put_def)
  qed
  then obtain t1 where "close_writer (close_reader D t) = Some t1" by blast
  then show ?thesis by (cases "conn_close (t_conn t1)") (simp add: Close_def)
qed

section \<open>The life of a transport\<close>

text \<open>
  What can happen to a transport until it is closed.  \<open>Read\<close> goes on as long as there was no error but the \<open>EOF\<close> of a whole
  message.
\<close>

inductive t_step :: "('x, 'cw) ws_lib \<Rightarrow> 'd dec \<Rightarrow> ('cert, 'c, 'd, 'x) ws_transport \<Rightarrow> ('cert, 'c, 'd, 'x) ws_transport \<Rightarrow> bool"
  for L D where
  st_Read: "Read L D t n = Some (t', bs, e) \<Longrightarrow> e = None \<or> e = Some EOF \<and> \<not> fragmented L (t_reader t') \<Longrightarrow> t_step L D t t'"
| st_Write: "Write L t p = Some (t', q, n, e) \<Longrightarrow> t_step L D t t'"
| st_Writev: "Writev L t ps = Some (t', qs, n, e) \<Longrightarrow> t_step L D t t'"
| st_WriteClose: "WriteClose L t code reason = (t', e) \<Longrightarrow> t_step L D t t'"
| st_Flush: "Flush t = (t', e) \<Longrightarrow> t_step L D t t'"

lemma t_step_wf:
  assumes "t_step L D t t'" and laws: "safe_laws L D" and wf: "t_wf L D t"
  shows "t_wf L D t'"
  using assms(1)
proof cases
  case (st_Read n bs e)
  with Read_safe [OF laws wf, of n] show ?thesis by (auto simp: t_wf_def)
next
  case (st_Write p q n e)
  have "writers_wf t" using wf by (simp add: t_wf_def t_safe_def)
  from Write_safe [OF this, of L p] st_Write have "t_written t t'" "writers_wf t'" by auto
  with t_written_safe(2) wf show ?thesis by blast
next
  case (st_Writev ps qs n e)
  have "writers_wf t" using wf by (simp add: t_wf_def t_safe_def)
  from Writev_safe [OF this, of L ps] st_Writev have "t_written t t'" "writers_wf t'" by auto
  with t_written_safe(2) wf show ?thesis by blast
next
  case (st_WriteClose code reason e)
  have "writes_only L" using laws by (simp add: safe_laws_def)
  from WriteClose_safe [OF this st_WriteClose] t_written_safe(2) wf show ?thesis by blast
next
  case (st_Flush e)
  from Flush_safe [OF this] t_written_safe(2) wf show ?thesis by blast
qed

lemma t_run_wf: "(t_step L D)\<^sup>*\<^sup>* t t' \<Longrightarrow> safe_laws L D \<Longrightarrow> t_wf L D t \<Longrightarrow> t_wf L D t'"
  by (induction rule: rtranclp_induct) (use t_step_wf in blast)+

section \<open>A new transport\<close>

text \<open>
  What \<open>newWebsocketTransport\<close> is given: options that \<open>Apply\<close> completed, a pool of flate readers in order, and, when there is
  going to be compression, compressors that can be made.
\<close>

definition new_setup ::
    "('x, 'cw) ws_lib \<Rightarrow> 'd dec \<Rightarrow> 'c flate_lib \<Rightarrow> ('cert, 'c) ws_options \<Rightarrow> ext_option list \<Rightarrow> 'd flate_store \<Rightarrow> 'c writer_store \<Rightarrow> bool" where
  "new_setup L D F opts hs fst0 wst \<longleftrightarrow> safe_laws L D \<and> o_readerPool opts \<and> store_ok (fst0\<lparr>fs_persistent := None\<rparr>)
     \<and> (o_CompressEnabled opts \<longrightarrow> n_enabled (parsePerMessageDeflate hs no_negotiation) \<longrightarrow>
          writer_setup F (\<lambda>_. True) opts (parsePerMessageDeflate hs no_negotiation) wst)"

lemma base_transport_wf:
  assumes su: "new_setup L D F opts hs fst0 wst"
    and ext: "exts \<in> {[], [perMessageDeflateRecvExt]}"
    and t: "t = base_transport L D opts client req hs c fst0 wst rnd pool"
  shows "fr_wf D ((t_reader t)\<lparr>fr_Extensions := exts\<rparr>)" and "fr_role L (t_reader t) = t_state t OR StateExtended L"
    and "t_state t \<in> {StateClientSide L, StateServerSide L}" and "t_opCode t \<in> {OpText L, OpBinary L}"
    and "\<not> fragmented L (t_reader t)" and "\<not> t_msgReader t" and "t_persistentFlateWriter t = None"
proof -
  from su have S: "o_readerPool opts" "store_ok (fst0\<lparr>fs_persistent := None\<rparr>)" "state_laws L"
    by (simp_all add: new_setup_def safe_laws_def)
  show "fr_wf D ((t_reader t)\<lparr>fr_Extensions := exts\<rparr>)"
    using S ext by (auto simp: t base_transport_def Let_def NewFrameReader_def fr_wf_def fr_core_def flate_pair_def in_use_ok_def)
  show nf: "\<not> fragmented L (t_reader t)" and "fr_role L (t_reader t) = t_state t OR StateExtended L"
    using S(3) by (simp_all add: t base_transport_def Let_def NewFrameReader_def fragmented_def fr_role_def state_laws_def)
  show "t_state t \<in> {StateClientSide L, StateServerSide L}" "t_opCode t \<in> {OpText L, OpBinary L}" "\<not> t_msgReader t"
    "t_persistentFlateWriter t = None" by (simp_all add: t base_transport_def Let_def choose_opCode_def)
qed

lemma with_persistent_reader_wf:
  assumes "with_persistent_reader L D t = Some t'" and wf: "fr_wf D (t_reader t)"
    and none: "fs_persistent (fr_store (t_reader t)) = None" "fr_flateReader (t_reader t) = None" "fr_frame (t_reader t) = None"
  shows "\<exists>r. t' = t\<lparr>t_reader := r\<rparr> \<and> fr_wf D r \<and> fr_state r = fr_state (t_reader t)"
proof -
  let ?r = "t_reader t"
  obtain st a where g: "reader_pool_get D (fr_store ?r) = (st, a)" by force
  have st: "store_ok st" "a < fs_next st" "a \<notin> set (fs_pool st)"
    using wf none(1) g by (auto simp: fr_wf_def fr_core_def store_ok_def reader_pool_get_def split: list.splits)
  define st' where "st' = (reader_reset D st a None)\<lparr>fs_persistent := Some a\<rparr>"
  define r' where "r' = ?r\<lparr>fr_store := st', fr_GetFlateReader := Some (persistent_GetFlateReader D),
      fr_PutFlateReader := Some persistent_PutFlateReader\<rparr>"
  have "store_ok st'" "fs_persistent st' = Some a" using st by (simp_all add: store_ok_def reader_reset_def st'_def)
  with wf none(2,3) have "fr_wf D r'" "fr_state r' = fr_state ?r"
    by (simp_all add: r'_def fr_wf_def fr_core_def flate_pair_def in_use_ok_def)
  moreover have "t' = t \<or> t' = t\<lparr>t_reader := r'\<rparr>"
    using assms(1) g by (simp add: with_persistent_reader_def Let_def r'_def st'_def split: if_splits)
  ultimately show ?thesis using wf by (elim disjE) (auto intro: exI [of _ ?r])
qed

lemma new_transport_wf:
  assumes new: "newWebsocketTransport L D F nc opts client req hs c fst0 wst rnd pool = Some (Inr t)"
    and su: "new_setup L D F opts hs fst0 wst"
  shows "t_wf L D t" and "\<not> fragmented L (t_reader t)"
proof -
  define t0 where "t0 = base_transport L D opts client req hs c fst0 wst rnd pool"
  note b1 = base_transport_wf(1) [OF su _ t0_def] and b = base_transport_wf [OF su insertI1 t0_def]
  have f: "t_options t0 = opts" "t_negotiated t0 = parsePerMessageDeflate hs no_negotiation" "t_writers t0 = wst"
    "fs_persistent (fr_store (t_reader t0)) = None" "fr_flateReader (t_reader t0) = None" "fr_frame (t_reader t0) = None"
    "fr_Extensions (t_reader t0) = []"
    by (simp_all add: t0_def base_transport_fields)
      (simp_all add: base_transport_def Let_def NewFrameReader_def)
  have "t_wf L D t \<and> \<not> fragmented L (t_reader t)"
  proof (cases "o_CompressEnabled opts \<and> n_enabled (t_negotiated t0)")
    case False
    then have "t = t0" using new by (auto simp: newWebsocketTransport_def Let_def t0_def [symmetric] split: option.splits)
    moreover have "(t_reader t0)\<lparr>fr_Extensions := []\<rparr> = t_reader t0" using f(7) by (cases "t_reader t0") simp
    then have "fr_wf D (t_reader t0)" using b(1) by simp
    moreover have "writers_wf t0" using False b(7) f(1) by (simp only: writers_wf_def if_False)
    ultimately show ?thesis using b(2-5) by (simp only: t_wf_def t_safe_def simp_thms)
  next
    case True
    let ?t1 = "t0\<lparr>t_reader := (t_reader t0)\<lparr>fr_Extensions := [perMessageDeflateRecvExt]\<rparr>\<rparr>"
    obtain t2 where t2: "with_persistent_reader L D ?t1 = Some t2" and t: "with_persistent_writer L F t2 = Some t"
      using new True by (auto simp: newWebsocketTransport_def Let_def t0_def [symmetric] bind_eq_Some_conv split: option.splits if_splits)
    obtain r where r: "t2 = t0\<lparr>t_reader := r\<rparr>" "fr_wf D r" "fr_state r = fr_state (t_reader t0)"
      using with_persistent_reader_wf [OF t2] b1 [of "[perMessageDeflateRecvExt]"] f by auto
    have "writer_setup F (\<lambda>_. True) (t_options t2) (t_negotiated t2) (t_writers t2)" "t_persistentFlateWriter t2 = None"
      using su True f r b(7) by (simp_all add: new_setup_def)
    note w = with_persistent_writer_good [OF t this(2,1)]
    obtain ws a where t': "t = t2\<lparr>t_writers := ws, t_persistentFlateWriter := a\<rparr>" using w(2) by blast
    have "writers_wf t" using w(1) True f by (simp add: writers_wf_def t' r(1))
    moreover have "fr_role L r = fr_role L (t_reader t0)" "fragmented L r = fragmented L (t_reader t0)"
      using r(3) by (simp_all add: fr_role_def fragmented_def)
    ultimately show ?thesis using b(2-6) r by (simp add: t_wf_def t_safe_def t')
  qed
  then show "t_wf L D t" "\<not> fragmented L (t_reader t)" by blast+
qed

end
