(* ===== verification/SafetyProperties.thy ===== *)
theory SafetyProperties
  imports WsSafe DeflateProperties
begin

text \<open>
  The properties of a transport on arbitrary input: it stays well-formed and never panics or hangs; and what it makes of a
  connection that ends inside a control frame between fragments.
\<close>

section \<open>A library and a decompressor for the witnesses\<close>

lemma rfc_write_chunks: "in_chunks (fst (rfc_write c p)) = in_chunks c"
proof -
  obtain c' n e where "conn_write c p = (c', n, e)" by (metis prod_cases3)
  with conn_write_frame(1) [OF this] show ?thesis by (simp add: rfc_write_def)
qed

lemma rfc_writes_only: "writes_only rfc_lib"
  by (auto simp: writes_only_def rfc_lib_def rfc_write_chunks split_beta)

lemma rfc_control_laws: "control_laws rfc_lib"
  by (auto simp: control_laws_def rfc_lib_def rfc_check_def word_le_nat_alt split: if_splits)

lemma ex_dec_safe: "dec_safe ex_dec"
  unfolding dec_safe_def
proof (intro allI impI)
  fix b :: base_ref and d :: unit and sr l n assume good: "low_good b l"
  show "\<exists>d' sr' l' bs e. d_read ex_dec (suffixed_read (base_read b)) d (sr, l) n = Some (d', (sr', l'), bs, e)
      \<and> reads_to (base_read b) l l'"
  proof (cases "sr_r sr")
    case False
    then show ?thesis by (auto simp: ex_dec_def suffixed_read_def Let_def reads_to_def)
  next
    case True
    obtain l' bs e where "base_read b l n = Some (l', bs, e)" using base_prog.rd_safe [OF good] by blast
    with True show ?thesis by (auto simp: ex_dec_def suffixed_read_def reads_to_def intro!: r_into_rtranclp)
  qed
qed

lemma rfc_safe_laws: "safe_laws rfc_lib ex_dec"
  using rfc_writes_only rfc_control_laws rfc_state_laws rfc_opcode_laws ex_dec_safe by (simp add: safe_laws_def)

lemma ex_new_setup:
  assumes "hs \<in> {ex_offer, ex_takeover}"
  shows "new_setup rfc_lib ex_dec ex_flate ex_compress_options hs ex_flate_store ex_writer_store"
proof -
  have n: "n_clientMaxWindowBits (parsePerMessageDeflate hs no_negotiation) \<in> {0, 10}"
    "n_serverMaxWindowBits (parsePerMessageDeflate hs no_negotiation) \<in> {0, 12}"
    using ex_offer_params assms by auto
  have win: "kp_NewWriterWindow ex_flate (window_size 10) = ex_comp" "kp_NewWriterWindow ex_flate (window_size 12) = ex_comp"
    by (simp_all add: ex_flate_def window_size_def)
  have "c_new ex_comp \<noteq> None" by (simp add: ex_comp_def)
  then show ?thesis
    using n win ex_compress_options_fields rfc_safe_laws
    by (auto simp: new_setup_def writer_setup_def ex_writer_store_def ex_flate_store_def store_ok_def)
qed

section \<open>Well-formed for life\<close>


text \<open>A server that takes over the context, on a connection that delivers bytes that are no WebSocket frames.\<close>

definition ex_noise :: "bytes list" where
  "ex_noise = [[193, 254, 0, 3, 250], [], [27, 9, 128]]"

abbreviation ex_server :: "(unit, unit, unit, unit) ws_transport" where
  "ex_server \<equiv> ex_end_with ex_dec False ex_takeover ex_noise"

lemma ex_server_new:
  "newWebsocketTransport rfc_lib ex_dec ex_flate OtherConn ex_compress_options False ex_request ex_takeover (ex_conn ex_noise)
     ex_flate_store ex_writer_store (\<lambda>i. Mask 1 2 3 (word_of_nat i)) (\<lambda>n. replicate n 7) = Some (Inr ex_server)"
  by (rule ex_new_end) simp

lemma ex_server_setup: "new_setup rfc_lib ex_dec ex_flate ex_compress_options ex_takeover ex_flate_store ex_writer_store"
  by (rule ex_new_setup) simp

lemma ex_server_writes: "\<exists>t q n e. Write rfc_lib ex_server p = Some (t, q, n, e)"
proof -
  have "writers_wf ex_server" using new_transport_wf(1) [OF ex_server_new ex_server_setup] by (simp add: t_wf_def t_safe_def)
  from Write_safe [OF this] show ?thesis by blast
qed




section \<open>A connection that ends between fragments\<close>

text \<open>The close handler passes the \<open>EOF\<close> on with which its payload begins, so \<open>NextFrame\<close> and \<open>Read\<close> return it as well.\<close>

lemma cut_close_handler:
  assumes op: "opcode_laws L" "h_op h = OpClose L" and len: "0 < sint (h_length h)"
    and b: "base_ok b (fr_low r)" and cut: "conn_content (fr_dst r) = []" "in_err (fr_dst r) = EOF"
  shows "\<exists>r'. ControlFrameHandler L fr_dst fr_set_dst pool s h (inner_read D (RBase b)) r = Some (r', Some EOF)
    \<and> (\<exists>l. r' = r\<lparr>fr_low := l\<rparr>)"
proof -
  let ?C = "frame_control (inner_read D (RBase b)) pool s"
  let ?good = "\<lambda>q. base_ok b (fr_low q)"
  have src: "ch_source L ?C h = via fst (\<lambda>q (_, pos). (q, pos)) (inner_read D (RBase b))" by (simp add: ch_source_plain)
  have st: "byte_stream (ch_source L ?C h) (\<lambda>t. ?good (fst t)) (\<lambda>t. base_content b (fr_low (fst t)))
      (\<lambda>t. raw_fin (fr_low (fst t))) (\<lambda>t. raw_stall (fr_low (fst t)))"
    unfolding src by (rule byte_stream.via_stream [OF inner_base_stream]) (simp split: prod.split)
  have empty: "base_content b (fr_low r) = []" using cut(1) by (cases b) (simp_all add: raw_content_def fr_dst_def split: option.split)
  have fin: "x = EOF" if "x \<in> raw_fin (fr_low r)" for x
    using that cut(2) by (auto simp: raw_fin_def limited_fin_def fr_dst_def split: if_splits)
  obtain t where t: "read_full (ch_source L ?C h) (r, 0) (nat (sint (h_length h))) = Some (t, [], Some EOF)"
    using byte_stream.read_full_short [OF st, of "(r, 0)" "nat (sint (h_length h))"] b empty len fin by auto
  have keep: "\<exists>l. fst t = r\<lparr>fr_low := l\<rparr>"
  proof (rule read_full_keeps [OF _ t, where I = "\<lambda>t. \<exists>l. fst t = r\<lparr>fr_low := l\<rparr>"])
    show "\<exists>l. fst (r, 0 :: nat) = r\<lparr>fr_low := l\<rparr>" by (intro exI [of _ "fr_low r"]) simp
    show "\<exists>l. fst t' = r\<lparr>fr_low := l\<rparr>" if "\<exists>l. fst t = r\<lparr>fr_low := l\<rparr>" "ch_source L ?C h t n = Some (t', bs, e)" for t n t' bs e
      using that by (cases t) (auto simp: src via_def dest!: bind_eq_SomeD)
  qed
  have "h_op h \<noteq> OpPing L" "h_op h \<noteq> OpPong L" "h_length h \<noteq> 0" using op len by (auto simp: opcode_laws_def)
  then show ?thesis using t keep op(2)
    by (cases t) (auto simp: ControlFrameHandler_def Handle_def HandleClose_def)
qed

text \<open>C23: the documentation of \<open>Read\<close> promises that \<open>io.EOF\<close> means that all of the message was read, and \<open>io.ErrUnexpectedEOF\<close>
  when the connection ends within it.  When it ends right after the header of a close frame with a body, between two fragments of
  a message, \<open>Read\<close> returns no bytes and \<open>io.EOF\<close>, and gives the message up as complete: the caller cannot tell the truncated
  message from a whole one, although the reader still waits for its next fragment.\<close>

theorem truncated_message_accepted:
  assumes between: "t_msgReader t" "fr_frame (t_reader t) = None" "fragmented L (t_reader t)"
    and header: "parse_header (conn_content (t_conn t)) = Parsed h []" and fin: "in_err (t_conn t) = EOF"
    and close: "h_op h = OpClose L" "0 < sint (h_length h)" "h_rsv h = 0"
    and check: "check_header L h (fr_state (t_reader t)) = None" "sint (fr_MaxFrameSize (t_reader t)) \<le> 0"
    and laws: "opcode_laws L" "compression_laws L"
    and exts: "fr_Extensions (t_reader t) \<in> {[], [perMessageDeflateRecvExt]}"
  shows "\<exists>t'. Read L D t n = Some (t', [], Some EOF) \<and> \<not> t_msgReader t' \<and> fragmented L (t_reader t')"
proof -
  let ?r = "t_reader t" and ?cb = "t_OnIntermediate L t"
  obtain c where c: "ReadHeader conn_read (t_conn t) = Some (c, h, None)" "conn_content c = []" "conn_env c = conn_env (t_conn t)"
    using header by (rule conn_ReadHeader)
  define r0 where "r0 = ?r\<lparr>fr_low := (fr_low ?r)\<lparr>lw_src := c\<rparr>\<rparr>"
  have rh: "ReadHeader conn_read (lw_src (fr_low ?r)) = Some (c, h, None)" using c(1) by (simp add: t_conn_def fr_dst_def)
  have nf: "NextFrame L D (Some ?cb) None ?r = next_frame L D (Some ?cb) None h r0"
    using NextFrame_parts [OF rh r0_def refl refl, of L D "Some ?cb" None] check by (simp add: r0_def)
  obtain l b where at: "attach_raw h (fr_low r0) = (l, b)" by force
  have "0 \<le> sint (h_length h)" using close(2) by simp
  note a = attach_raw_safe [OF at this]
  let ?r1 = "r0\<lparr>fr_low := l\<rparr>"
  have "in_err c = EOF" using fin conn_env_fields(1) [OF c(3)] by simp
  then have dst: "conn_content (fr_dst ?r1) = []" "in_err (fr_dst ?r1) = EOF" using a(3) c(2) by (simp_all add: fr_dst_def r0_def)
  have ic: "is_compressed L h = (False, None)" using close(3) laws(2) by (simp add: compression_laws_def)
  obtain h' where ub: "unset_bits (fr_Extensions ?r1) h = (h', None)" "h_op h' = h_op h" "h_length h' = h_length h"
    using exts by (auto simp: perMessageDeflateRecvExt_def r0_def)
  obtain r2 l2 where cb: "?cb h' (inner_read D (RBase b)) ?r1 = Some (r2, Some EOF)" "r2 = ?r1\<lparr>fr_low := l2\<rparr>"
  proof -
    have "h_op h' = OpClose L" "0 < sint (h_length h')" "base_ok b (fr_low ?r1)" using ub close a(2) by simp_all
    from cut_close_handler [OF laws(1) this dst, of "t_pool t" "t_state t" D] that
    show thesis by (auto simp: t_OnIntermediate_def simp del: frame_reader.simps)
  qed
  have ctl: "is_control L (h_op h)" using close(1) laws(1) by (simp add: opcode_laws_def)
  have frag: "fragmented L ?r1" "fragmented L r2" using between(3) cb(2) by (simp_all add: fragmented_def r0_def)
  have "NextFrame L D (Some ?cb) None ?r = Some (r2, h', Some EOF)"
    using at ic ub cb(1) ctl frag(1) by (simp add: nf next_frame_def)
  then have "FrameReader_Read L D (Some ?cb) None ?r n = Some (r2, [], Some EOF)" using between by (simp add: FrameReader_Read_def)
  with between(1) frag(2) show ?thesis by (simp add: Read_def read_message_def)
qed

text \<open>A server after the first fragment of a text message; then comes the header of a close frame of two bytes, and the end.\<close>

definition ex_between :: "(unit, unit, unit, unit) ws_transport" where
  "ex_between = (let t = ex_transport False [take 6 (encode_header True False 8 (Some (Mask 1 2 3 4)) 2)] in t\<lparr>t_msgReader := True,
     t_reader := resetFragment ((t_reader t)\<lparr>fr_opCode := 1, fr_state := st_set rfc_lib (fr_state (t_reader t)) (StateFragmented rfc_lib)\<rparr>)\<rparr>)"

lemma truncated_message_accepted_witness:
  "\<exists>t'. Read rfc_lib ex_dec ex_between 64 = Some (t', [], Some EOF) \<and> \<not> t_msgReader t' \<and> fragmented rfc_lib (t_reader t')"
proof -
  let ?h = "\<lparr>h_fin = True, h_rsv = 0, h_op = 8, h_masked = True, h_mask = Mask 1 2 3 4, h_length = 2\<rparr>"
  show ?thesis
  proof (rule truncated_message_accepted [where h = ?h])
    show "t_msgReader ex_between" "fr_frame (t_reader ex_between) = None" by (simp_all add: ex_between_def Let_def resetFragment_def)
    show "parse_header (conn_content (t_conn ex_between)) = Parsed ?h []" by code_simp
    show "opcode_laws rfc_lib" "compression_laws rfc_lib" by (rule rfc_opcode_laws, rule rfc_compression_laws)
    show "fr_Extensions (t_reader ex_between) \<in> {[], [perMessageDeflateRecvExt]}" by (simp add: ex_between_def Let_def resetFragment_def)
  qed code_simp+
qed

end
