(* ===== verification/WsUtf8.thy ===== *)
theory WsUtf8
  imports WsSafe
begin

text \<open>
  Text messages with \<open>CheckUTF8\<close>: what the frame reader has delivered of a text message went through the decoder, and the message
  ends with \<open>EOF\<close> only where the decoder accepts the end.  Nothing is assumed of the input: the message may be compressed,
  fragmented, and have control frames within it.
\<close>

section \<open>What the control handler keeps\<close>

lemma Handle_keeps:
  assumes src: "\<And>r n r' bs e. \<lbrakk>I r; ch_Src C r n = Some (r', bs, e)\<rbrakk> \<Longrightarrow> I r'" and put: "\<And>c r. I r \<Longrightarrow> I (ch_put C c r)"
    and h: "Handle L C h r = Some (r', e)" and I: "I r"
  shows "I r'"
proof -
  have vs: "I (fst t')" if "I (fst t)" "ch_source L C h t n = Some (t', bs, e)" for t n t' bs e
    using that src by (cases t) (fastforce simp: ch_source_def split: if_splits dest!: bind_eq_SomeD)
  have wr: "I (fst t')" if "I (fst t)" "ch_writer L C w t bs = (w', t', n, e)" for w t bs w' t' n e
    using that put by (cases t) (auto simp: ch_writer_def split: prod.splits)
  have fl: "I r'" if "I r" "ch_flush L C w r = (r', e)" for w r r' e
    using that put by (auto simp: ch_flush_def split: prod.splits)
  have pe: "I (fst (closeWithProtocolError L C x r))" if "I r" for x r
    using put [OF that] by (auto simp: closeWithProtocolError_def Let_def split: prod.splits)
  consider "HandlePing L C h r = Some (r', e)" | "HandlePong L C h r = Some (r', e)" | "HandleClose L C h r = Some (r', e)" | "r' = r"
    using h by (auto simp: Handle_def split: if_splits)
  then show ?thesis
  proof cases
    case 1
    show ?thesis
    proof (cases "h_length h = 0")
      case True
      with 1 put [OF I] show ?thesis by (auto simp: HandlePing_def split: prod.splits)
    next
      case False
      with 1 obtain w1 t e1 where c: "io_copy (ch_writer L C) (ch_source L C h) (cw_new L (ch_State C) (OpPong L) (ch_bufSize L C h)) (r, 0)
          = Some (w1, t, e1)" and r': "r' = fst t \<or> ch_flush L C w1 (fst t) = (r', e)"
        by (auto simp: HandlePing_def split: option.splits dest!: bind_eq_SomeD)
      have "I (fst t)" by (rule io_copy_keeps [where I = "\<lambda>t. I (fst t)", OF vs wr c]) (use I in simp_all)
      with r' fl show ?thesis by blast
    qed
  next
    case 2
    with I io_discard_keeps [where I = I, OF src] show ?thesis by (auto simp: HandlePong_def split: if_splits)
  next
    case 3
    show ?thesis
    proof (cases "h_length h = 0")
      case True
      with 3 put [OF I] show ?thesis by (auto simp: HandleClose_def split: prod.splits option.splits)
    next
      case False
      with 3 obtain t b e1 where c: "read_full (ch_source L C h) (r, 0) (nat (sint (h_length h))) = Some (t, b, e1)"
        by (auto simp: HandleClose_def dest!: bind_eq_SomeD)
      have It: "I (fst t)" by (rule read_full_keeps [where I = "\<lambda>t. I (fst t)", OF vs c]) (use I in simp_all)
      from False 3 c consider "r' = fst t" | x where "r' = fst (closeWithProtocolError L C x (fst t))"
        | w p w1 t1 n e2 where "ch_writer L C w (fst t, 0) p = (w1, t1, n, e2)" "r' = fst t1 \<or> (\<exists>e3. ch_flush L C w1 (fst t1) = (r', e3))"
        by (cases t) (auto simp: HandleClose_def Let_def split: option.splits prod.splits)
      then show ?thesis
      proof cases
        case 2
        with pe [OF It] show ?thesis by simp
      next
        case (3 w p w1 t1 n e2)
        have "I (fst t1)" by (rule wr [OF _ 3(1)]) (use It in simp)
        with 3(2) fl show ?thesis by blast
      qed (use It in simp)
    qed
  qed (use I in simp)
qed

text \<open>A control handler on a frame changes the readers below the frame reader, and nothing else of it.\<close>

definition low_only :: "('d, 'x) frame_reader \<Rightarrow> ('d, 'x) frame_reader \<Rightarrow> bool" where
  "low_only r r' \<longleftrightarrow> (\<exists>l st. r' = r\<lparr>fr_low := l, fr_store := st\<rparr>)"

lemma low_only_refl [simp]: "low_only r r"
  unfolding low_only_def by (intro exI [of _ "fr_low r"] exI [of _ "fr_store r"]) simp

lemma low_only_trans: "low_only r r' \<Longrightarrow> low_only r' r'' \<Longrightarrow> low_only r r''"
  unfolding low_only_def by (elim exE) (simp, blast)

lemma low_only_low [simp]: "low_only r (r\<lparr>fr_low := l\<rparr>)"
  unfolding low_only_def by (intro exI [of _ l] exI [of _ "fr_store r"]) simp

lemma inner_read_low_only: "inner_read D i r n = Some (r', bs, e) \<Longrightarrow> low_only r r'"
proof (cases i)
  case RFlate
  moreover assume "inner_read D i r n = Some (r', bs, e)"
  ultimately show ?thesis by (auto simp: low_only_def split: option.splits dest!: bind_eq_SomeD)
qed (auto dest!: bind_eq_SomeD)

lemma low_only_fields:
  assumes "low_only r r'"
  shows "fr_CheckUTF8 r' = fr_CheckUTF8 r" "fr_opCode r' = fr_opCode r" "fr_utf8 r' = fr_utf8 r" "fr_frame r' = fr_frame r"
    "fr_state r' = fr_state r" "fr_utf8_src r' = fr_utf8_src r"
  using assms by (auto simp: low_only_def)

definition frame_handler :: "'d dec \<Rightarrow> ('d, 'x) frame_reader handler \<Rightarrow> bool" where
  "frame_handler D cb \<longleftrightarrow> (\<forall>h i r r' e. cb h (inner_read D i) r = Some (r', e) \<longrightarrow> low_only r r')"

lemma t_OnIntermediate_frame_handler: "frame_handler D (t_OnIntermediate L t)"
proof -
  have "low_only r r'" if h: "Handle L (frame_control (inner_read D i) pool s) h r = Some (r', e)" for pool s h i r r' e
    by (rule Handle_keeps [where I = "low_only r", OF _ _ h])
      (auto simp: fr_set_dst_def intro: low_only_trans inner_read_low_only low_only_trans [OF _ low_only_low])
  then show ?thesis by (auto simp: frame_handler_def t_OnIntermediate_def ControlFrameHandler_def)
qed

section \<open>The decoder\<close>

text \<open>The bytes one by one, as long as the decoder takes them; \<open>utf8_text\<close> is a text that it takes to the end.\<close>

fun utf8_feed :: "('x, 'cw) ws_lib \<Rightarrow> 'x \<Rightarrow> bytes \<Rightarrow> 'x option" where
  "utf8_feed L x [] = Some x"
| "utf8_feed L x (b # bs) = (case utf8_post L x [b] None of (x', _, None) \<Rightarrow> utf8_feed L x' bs | _ \<Rightarrow> None)"

definition utf8_text :: "('x, 'cw) ws_lib \<Rightarrow> bytes \<Rightarrow> bool" where
  "utf8_text L p \<longleftrightarrow> (case utf8_feed L (utf8_zero L) p of Some x \<Rightarrow> utf8_valid L x | None \<Rightarrow> False)"

lemma utf8_feed_append: "utf8_feed L x (a @ b) = Option.bind (utf8_feed L x a) (\<lambda>x'. utf8_feed L x' b)"
  by (induction a arbitrary: x) (auto split: prod.splits option.splits)

text \<open>
  \<open>UTF8Reader.Read\<close>: what its source delivers goes through, with the source's error, unless it contains a byte that cannot be;
  then the rest is cut off, with \<open>ErrInvalidUTF8\<close>.
\<close>

definition utf8_laws :: "('x, 'cw) ws_lib \<Rightarrow> bool" where
  "utf8_laws L \<longleftrightarrow> (\<forall>x bs e. case utf8_feed L x bs of
      Some x' \<Rightarrow> utf8_post L x bs e = (x', bs, e)
    | None \<Rightarrow> (\<exists>x' k. utf8_post L x bs e = (x', take k bs, Some ErrInvalidUTF8)))"

lemma utf8_laws_accept: "utf8_laws L \<Longrightarrow> utf8_feed L x bs = Some x' \<Longrightarrow> utf8_post L x bs e = (x', bs, e)"
  unfolding utf8_laws_def by (metis (mono_tags, lifting) option.case(2))

lemma utf8_laws_reject: "utf8_laws L \<Longrightarrow> utf8_feed L x bs = None \<Longrightarrow> \<exists>x' k. utf8_post L x bs e = (x', take k bs, Some ErrInvalidUTF8)"
  unfolding utf8_laws_def by (drule spec [of _ x], drule spec [of _ bs], drule spec [of _ e]) simp

lemma utf8_laws_post:
  assumes "utf8_laws L" and "utf8_post L x bs e = (x', bs', e')"
  shows "(utf8_feed L x bs = Some x' \<and> bs' = bs \<and> e' = e) \<or> e' = Some ErrInvalidUTF8"
  using assms utf8_laws_accept [OF assms(1), of x bs] utf8_laws_reject [OF assms(1), of x bs e]
  by (cases "utf8_feed L x bs") auto

section \<open>Within a text message\<close>

text \<open>The decoder is in step with the bytes \<open>q\<close> that were delivered so far.\<close>

definition checked :: "('x, 'cw) ws_lib \<Rightarrow> bytes \<Rightarrow> ('d, 'x) frame_reader \<Rightarrow> bool" where
  "checked L q r \<longleftrightarrow> fr_CheckUTF8 r \<and> fr_opCode r = OpText L \<and> utf8_feed L (utf8_zero L) q = Some (fr_utf8 r)
     \<and> (fr_frame r = Some RUtf8 \<or> fr_frame r = None \<and> fragmented L r)"

text \<open>Between two messages the decoder is as new.\<close>

definition clean :: "('x, 'cw) ws_lib \<Rightarrow> ('d, 'x) frame_reader \<Rightarrow> bool" where
  "clean L r \<longleftrightarrow> \<not> fragmented L r \<and> fr_CheckUTF8 r \<and> fr_utf8 r = utf8_zero L"

lemma read_body_checked:
  assumes laws: "utf8_laws L" and c: "checked L q r" and f: "fr_frame r = Some f"
    and rd: "read_body L D f r n = Some (r', bs, e)"
  shows "e = None \<Longrightarrow> checked L (q @ bs) r'" and "e = Some EOF \<Longrightarrow> utf8_text L (q @ bs) \<and> clean L r'"
proof -
  have fu: "f = RUtf8" using c f by (auto simp: checked_def)
  obtain i r1 bs1 e1 where r1: "fr_utf8_src r = Some i" "inner_read D i r n = Some (r1, bs1, e1)"
    using rd by (auto simp: read_body_def fu split: option.splits dest!: bind_eq_SomeD)
  obtain x bs2 e2 where p: "utf8_post L (fr_utf8 r) bs1 e1 = (x, bs2, e2)" by (metis prod_cases3)
  note k = low_only_fields [OF inner_read_low_only [OF r1(2)]]
  let ?r2 = "r1\<lparr>fr_utf8 := x\<rparr>"
  have body: "Some (r', bs, e) =
      (if e2 \<noteq> None \<and> e2 \<noteq> Some EOF then Some (?r2, bs2, e2)
       else if e2 = None \<and> lw_n (fr_low ?r2) \<noteq> 0 then Some (?r2, bs2, None)
       else if lw_n (fr_low ?r2) \<noteq> 0 then Some (?r2, bs2, Some ErrUnexpectedEOF)
       else if fragmented L ?r2 then Some (resetFragment ?r2, bs2, None)
       else if fr_CheckUTF8 ?r2 \<and> \<not> utf8_valid L (fr_utf8 ?r2)
         then Some (?r2, take (utf8_accepted L (fr_utf8 ?r2)) bs2, Some ErrInvalidUTF8)
       else Some (reset L ?r2, bs2, Some EOF))"
    using rd r1 p k by (simp add: read_body_def fu)
  have u: "fr_CheckUTF8 r1" "fr_opCode r1 = OpText L" "fr_frame r1 = Some RUtf8" "utf8_feed L (utf8_zero L) q = Some (fr_utf8 r)"
    using c f fu k by (simp_all add: checked_def)
  from utf8_laws_post [OF laws p] consider "utf8_feed L (fr_utf8 r) bs1 = Some x" "bs2 = bs1" | "e2 = Some ErrInvalidUTF8" by blast
  then have "(e = None \<longrightarrow> checked L (q @ bs) r') \<and> (e = Some EOF \<longrightarrow> utf8_text L (q @ bs) \<and> clean L r')"
  proof cases
    case 1
    then have fed: "utf8_feed L (utf8_zero L) (q @ bs2) = Some x" using u(4) by (simp add: utf8_feed_append)
    show ?thesis using body fed u
      by (auto simp: checked_def utf8_text_def clean_def resetFragment_def reset_def Let_def fragmented_def split: if_splits option.splits)
  next
    case 2
    with body show ?thesis by simp
  qed
  then show "e = None \<Longrightarrow> checked L (q @ bs) r'" "e = Some EOF \<Longrightarrow> utf8_text L (q @ bs) \<and> clean L r'" by blast+
qed

text \<open>
  What \<open>NextFrame\<close> does to the fields that the check uses: a data frame gets the decoder as its reader if it belongs to a text
  message, and the decoder stays as it was.
\<close>

definition u_core :: "('d, 'x) frame_reader \<Rightarrow> bool \<times> byte \<times> 'x \<times> byte \<times> reader_ref option" where
  "u_core r = (fr_CheckUTF8 r, fr_opCode r, fr_utf8 r, fr_state r, fr_frame r)"

lemma u_core_low_only: "low_only r r' \<Longrightarrow> u_core r' = u_core r"
  by (auto simp: low_only_def u_core_def)

definition installed :: "('x, 'cw) ws_lib \<Rightarrow> header \<Rightarrow> ('d, 'x) frame_reader \<Rightarrow> ('d, 'x) frame_reader \<Rightarrow> bool" where
  "installed L h r r' \<longleftrightarrow> fr_CheckUTF8 r' = fr_CheckUTF8 r \<and> fr_utf8 r' = fr_utf8 r
     \<and> fr_opCode r' = (if fragmented L r then fr_opCode r else h_op h)
     \<and> (if fr_CheckUTF8 r \<and> (h_op h = OpText L \<or> fragmented L r \<and> fr_opCode r = OpText L) then fr_frame r' = Some RUtf8
        else \<exists>i. fr_frame r' = Some (RInner i))"

lemma install_frame_installed:
  assumes "install_frame L D None h i r = Some (r', h', e)"
  shows "h' = h \<and> e = None \<and> fr_CheckUTF8 r' = fr_CheckUTF8 r \<and> fr_utf8 r' = fr_utf8 r \<and> fr_opCode r' = fr_opCode r
    \<and> fr_frame r' = Some (if fr_CheckUTF8 r \<and> (h_op h = OpText L \<or> fragmented L r \<and> fr_opCode r = OpText L) then RUtf8 else RInner i)"
  using assms by (auto simp: install_frame_def Let_def)

lemma next_frame_core:
  assumes cb: "frame_handler D cb" and n: "next_frame L D (Some cb) None h0 r = Some (r', h, e)"
  shows "e \<noteq> None \<and> u_core r' = u_core r \<or> e = None \<and> (if fragmented L r \<and> is_control L (h_op h) then u_core r' = u_core r else installed L h r r')"
proof -
  obtain l b where at: "attach_raw h0 (fr_low r) = (l, b)" by force
  let ?r1 = "r\<lparr>fr_low := l\<rparr>"
  obtain z e1 where ic: "is_compressed L h0 = (z, e1)" by force
  show ?thesis
  proof (cases e1)
    case (Some x)
    with n at ic have "r' = ?r1" "e = Some x" by (auto simp: next_frame_def)
    then show ?thesis by (simp add: u_core_def)
  next
    case None
    define mk where "mk = (if z then (case fr_GetFlateReader ?r1 of
          None \<Rightarrow> Some (?r1, RBase b, Some (Errorf ''required `GetFlateReader`''))
        | Some get \<Rightarrow> Option.bind (get (fr_store ?r1) b) (\<lambda>(st, a). Some (?r1\<lparr>fr_store := st, fr_flateReader := Some a\<rparr>, RFlate, None)))
        else Some (?r1, RBase b, None))"
    obtain r2 i e2 where r2: "mk = Some (r2, i, e2)"
      using n unfolding next_frame_def at ic None by (auto simp: mk_def dest!: bind_eq_SomeD)
    have c2: "u_core r2 = u_core r"
      using r2 by (auto simp: mk_def u_core_def split: if_splits option.splits dest!: bind_eq_SomeD)
    obtain h2 e3 where ub: "unset_bits (fr_Extensions r2) h0 = (h2, e3)" by force
    have n1: "Option.bind mk (\<lambda>(r, i, e). case e of Some x \<Rightarrow> Some (r, h0, Some x) | None \<Rightarrow>
        (case unset_bits (fr_Extensions r) h0 of
           (h, Some x) \<Rightarrow> Some (r, h, Some x)
         | (h, None) \<Rightarrow>
          (if fragmented L r then
             if is_control L (h_op h) then
               Option.bind (cb h (inner_read D i) r) (\<lambda>(r, e).
                 case e of Some x \<Rightarrow> Some (r, h, Some x) | None \<Rightarrow> Option.bind (discard_raw r) (\<lambda>(r, e). Some (r, h, e)))
             else install_frame L D None h i r
           else install_frame L D None h i (r\<lparr>fr_opCode := h_op h\<rparr>)))) = Some (r', h, e)"
      using n unfolding next_frame_def at ic None mk_def by (simp only: option.case prod.case)
    have n2: "(case e2 of Some x \<Rightarrow> Some (r2, h0, Some x) | None \<Rightarrow>
        (case e3 of Some x \<Rightarrow> Some (r2, h2, Some x) | None \<Rightarrow>
          (if fragmented L r2 then
             if is_control L (h_op h2) then
               Option.bind (cb h2 (inner_read D i) r2) (\<lambda>(r, e).
                 case e of Some x \<Rightarrow> Some (r, h2, Some x) | None \<Rightarrow> Option.bind (discard_raw r) (\<lambda>(r, e). Some (r, h2, e)))
             else install_frame L D None h2 i r2
           else install_frame L D None h2 i (r2\<lparr>fr_opCode := h_op h2\<rparr>)))) = Some (r', h, e)"
      using n1 by (simp add: r2 ub)
    consider (stop) x where "e = Some x" "r' = r2"
      | (control) "e2 = None" "e3 = None" "fragmented L r2" "is_control L (h_op h2)"
      | (data) "e2 = None" "e3 = None" "\<not> (fragmented L r2 \<and> is_control L (h_op h2))"
      using n2 by (cases e2; cases e3) auto
    then show ?thesis
    proof cases
      case stop
      with c2 show ?thesis by simp
    next
      case control
      with n2 obtain r3 e4 where r3: "cb h2 (inner_read D i) r2 = Some (r3, e4)"
        "(case e4 of Some x \<Rightarrow> Some (r3, h2, Some x) | None \<Rightarrow> Option.bind (discard_raw r3) (\<lambda>(r, e). Some (r, h2, e))) = Some (r', h, e)"
        by (auto dest!: bind_eq_SomeD)
      have "low_only r2 r3" using cb r3(1) unfolding frame_handler_def by blast
      moreover have "low_only r3 r'" using r3(2) by (auto simp: discard_raw_def split: option.splits dest!: bind_eq_SomeD)
      ultimately have "u_core r' = u_core r" using u_core_low_only c2 by metis
      moreover have "h = h2" using r3(2) by (auto split: option.splits dest!: bind_eq_SomeD)
      moreover have "fragmented L r" using control(3) c2 by (simp add: u_core_def fragmented_def)
      ultimately show ?thesis using control(4) by (cases e) simp_all
    next
      case data
      let ?r3 = "if fragmented L r2 then r2 else r2\<lparr>fr_opCode := h_op h2\<rparr>"
      have "install_frame L D None h2 i ?r3 = Some (r', h, e)" using n2 data by (auto split: if_splits)
      note inst = install_frame_installed [OF this]
      have "fragmented L ?r3 = fragmented L r" "fr_CheckUTF8 ?r3 = fr_CheckUTF8 r" "fr_utf8 ?r3 = fr_utf8 r"
        "fr_opCode ?r3 = (if fragmented L r then fr_opCode r else h_op h2)" "fragmented L r2 = fragmented L r"
        using c2 by (auto simp: u_core_def fragmented_def)
      with inst data(3) show ?thesis by (auto simp: installed_def)
    qed
  qed
qed

lemma NextFrame_core:
  assumes cb: "frame_handler D cb" and n: "NextFrame L D (Some cb) None r = Some (r', h, e)"
  shows "e \<noteq> None \<and> u_core r' = u_core r \<or> e = None \<and> (if fragmented L r \<and> is_control L (h_op h) then u_core r' = u_core r else installed L h r r')"
proof -
  obtain c h0 e0 where rh: "ReadHeader conn_read (lw_src (fr_low r)) = Some (c, h0, e0)" using ReadHeader_safe by blast
  define r0 where "r0 = r\<lparr>fr_low := (fr_low r)\<lparr>lw_src := c\<rparr>\<rparr>"
  have c0: "u_core r0 = u_core r" "fragmented L r0 = fragmented L r" "installed L h r0 = installed L h r"
    by (simp_all add: r0_def u_core_def fragmented_def installed_def fun_eq_iff)
  have "e \<noteq> None \<and> r' = r0 \<or> next_frame L D (Some cb) None h0 r0 = Some (r', h, e)"
    using n unfolding NextFrame_parts [OF rh r0_def refl refl, of L D "Some cb" None]
    by (simp split: option.splits if_splits) blast+
  then show ?thesis
  proof
    assume "next_frame L D (Some cb) None h0 r0 = Some (r', h, e)"
    from next_frame_core [OF cb this] show ?thesis unfolding c0 .
  qed (use c0 in simp)
qed

lemma FrameReader_Read_checked:
  assumes laws: "utf8_laws L" and cb: "frame_handler D cb" and c: "checked L q r"
    and rd: "FrameReader_Read L D (Some cb) None r n = Some (r', bs, e)"
  shows "e = None \<Longrightarrow> checked L (q @ bs) r'" and "e = Some EOF \<Longrightarrow> utf8_text L (q @ bs) \<and> clean L r' \<or> fragmented L r'"
proof -
  have "(e = None \<longrightarrow> checked L (q @ bs) r') \<and> (e = Some EOF \<longrightarrow> utf8_text L (q @ bs) \<and> clean L r' \<or> fragmented L r')"
  proof (cases "fr_frame r")
    case (Some f)
    with rd have "read_body L D f r n = Some (r', bs, e)" by (simp add: FrameReader_Read_def)
    from read_body_checked [OF laws c Some this] show ?thesis by blast
  next
    case None
    with c have frag: "fragmented L r" by (simp add: checked_def)
    with None rd obtain r1 h e1 where n: "NextFrame L D (Some cb) None r = Some (r1, h, e1)"
      and r1: "(case e1 of Some x \<Rightarrow> Some (r1, [], Some x)
        | None \<Rightarrow> (case fr_frame r1 of None \<Rightarrow> Some (r1, [], None) | Some f \<Rightarrow> read_body L D f r1 n)) = Some (r', bs, e)"
      by (auto simp: FrameReader_Read_def dest!: bind_eq_SomeD)
    note core = NextFrame_core [OF cb n]
    show ?thesis
    proof (cases e1)
      case (Some x)
      with core r1 frag show ?thesis by (auto simp: u_core_def fragmented_def)
    next
      case None': None
      have c1: "checked L q r1"
        using core None' c frag None by (auto simp: checked_def u_core_def installed_def fragmented_def split: if_splits)
      show ?thesis
      proof (cases "fr_frame r1")
        case None
        with r1 None' c1 show ?thesis by simp
      next
        case (Some f)
        with r1 None' have "read_body L D f r1 n = Some (r', bs, e)" by simp
        from read_body_checked [OF laws c1 Some this] show ?thesis by blast
      qed
    qed
  qed
  then show "e = None \<Longrightarrow> checked L (q @ bs) r'" "e = Some EOF \<Longrightarrow> utf8_text L (q @ bs) \<and> clean L r' \<or> fragmented L r'" by blast+
qed

section \<open>Between messages\<close>

lemma clean_low_only: "low_only r r' \<Longrightarrow> clean L r' = clean L r"
  by (auto simp: clean_def low_only_def fragmented_def)

lemma clean_reset [simp]: "clean L (reset L r) \<longleftrightarrow> \<not> fragmented L r \<and> fr_CheckUTF8 r"
  by (simp add: clean_def reset_def Let_def fragmented_def split: option.split)

lemma clean_set_dst [simp]: "clean L (fr_set_dst c r) = clean L r" "fr_frame (fr_set_dst c r) = fr_frame r"
  by (simp_all add: clean_def fr_set_dst_def fragmented_def)

text \<open>A control frame that stands alone is read past the decoder.\<close>

lemma read_control_clean:
  assumes c: "clean L r" "fr_frame r \<noteq> Some RUtf8" and rd: "FrameReader_Read L D onI onC r n = Some (r', bs, e)"
  shows "clean L r' \<and> fr_frame r' \<noteq> Some RUtf8"
proof (cases "fr_frame r")
  case None
  with c rd show ?thesis by (simp add: FrameReader_Read_def clean_def)
next
  case (Some f)
  then obtain i where i: "f = RInner i" using c(2) by (cases f) auto
  with Some rd have "read_body L D (RInner i) r n = Some (r', bs, e)" by (simp add: FrameReader_Read_def)
  then obtain r1 bs1 e1 where r1: "inner_read D i r n = Some (r1, bs1, e1)" and
    r': "r' = r1 \<or> r' = reset L r1 \<or> fragmented L r1" by (auto simp: read_body_def split: if_splits dest!: bind_eq_SomeD)
  note lo = inner_read_low_only [OF r1]
  note k = low_only_fields [OF lo]
  have "clean L r1" using c(1) lo by (simp add: clean_low_only)
  moreover have "fr_frame (reset L r1) = None" by (simp add: reset_def Let_def split: option.split)
  moreover from \<open>clean L r1\<close> have "\<not> fragmented L r1" "clean L (reset L r1)" by (simp_all add: clean_def [of L r1])
  ultimately show ?thesis using r' c(2) k(4) by auto
qed

lemma control_frame_clean:
  assumes "clean L r" "fr_frame r \<noteq> Some RUtf8"
    and "t_OnIntermediate L t h (FrameReader_Read L D cb onC) r = Some (r', e)"
  shows "clean L r'"
proof -
  have h: "Handle L (frame_control (FrameReader_Read L D cb onC) (t_pool t) (t_state t)) h r = Some (r', e)"
    using assms(3) by (simp add: t_OnIntermediate_def ControlFrameHandler_def)
  have "clean L r' \<and> fr_frame r' \<noteq> Some RUtf8"
    by (rule Handle_keeps [where I = "\<lambda>r. clean L r \<and> fr_frame r \<noteq> Some RUtf8", OF _ _ h])
      (use assms(1,2) in \<open>auto dest: read_control_clean [rotated 2]\<close>)
  then show ?thesis by blast
qed

lemma NextFrame_clean:
  assumes "frame_handler D cb" and "NextFrame L D (Some cb) None r = Some (r', h, None)" and "clean L r"
  shows "fr_CheckUTF8 r'" "fr_utf8 r' = utf8_zero L" "fr_opCode r' = h_op h" "fr_frame r' = Some RUtf8 \<longleftrightarrow> h_op h = OpText L"
  using NextFrame_core [OF assms(1,2)] assms(3) by (auto simp: clean_def installed_def split: if_splits)

lemma NextFrame_check: "frame_handler D cb \<Longrightarrow> NextFrame L D (Some cb) None r = Some (r', h, e) \<Longrightarrow> fr_CheckUTF8 r' = fr_CheckUTF8 r"
  by (drule (1) NextFrame_core) (auto simp: u_core_def installed_def split: if_splits)

lemma Discard_clean:
  assumes cb: "frame_handler D cb" and d: "Discard L D (Some cb) None r = Some (r', e)"
  shows "fr_CheckUTF8 r' = fr_CheckUTF8 r" and "fr_utf8 r' = utf8_zero L"
proof -
  have loop: "fr_CheckUTF8 (fst q) = fr_CheckUTF8 r" if "discard_loop L D (Some cb) None r = Some q" for q
  proof (rule discard_loop.raw_induct [where P = "\<lambda>L' D' onI onC r q. L' = L \<longrightarrow> D' = D \<longrightarrow> onI = Some cb \<longrightarrow> onC = None
        \<longrightarrow> fr_CheckUTF8 (fst q) = fr_CheckUTF8 r", THEN mp, THEN mp, THEN mp, THEN mp, OF _ that refl refl refl refl])
    fix loop L' D' onI onC and r :: "('a, 'b) frame_reader" and q
    assume IH: "\<And>L' D' onI onC r q. loop L' D' onI onC r = Some q \<Longrightarrow> L' = L \<longrightarrow> D' = D \<longrightarrow> onI = Some cb \<longrightarrow> onC = None
        \<longrightarrow> fr_CheckUTF8 (fst q) = fr_CheckUTF8 r"
      and eq: "Option.bind (discard_raw r) (\<lambda>(r, e).
         if e \<noteq> None then Some (r, e)
         else if \<not> fragmented L' r then Some (r, None)
         else Option.bind (NextFrame L' D' onI onC r) (\<lambda>(r, h, e).
           if e \<noteq> None then Some (r, e) else loop L' D' onI onC r)) = Some q"
    obtain l e1 where r1: "discard_raw r = Some (r\<lparr>fr_low := l\<rparr>, e1)" using eq by (auto simp: discard_raw_def dest!: bind_eq_SomeD)
    show "L' = L \<longrightarrow> D' = D \<longrightarrow> onI = Some cb \<longrightarrow> onC = None \<longrightarrow> fr_CheckUTF8 (fst q) = fr_CheckUTF8 r"
    proof (intro impI)
      assume a: "L' = L" "D' = D" "onI = Some cb" "onC = None"
      show "fr_CheckUTF8 (fst q) = fr_CheckUTF8 r"
      proof (cases "e1 = None \<and> fragmented L (r\<lparr>fr_low := l\<rparr>)")
        case False
        with eq r1 a have "q = (r\<lparr>fr_low := l\<rparr>, e1)" by (auto split: if_splits)
        then show ?thesis by simp
      next
        case True
        with eq r1 a obtain r2 h e2 where n: "NextFrame L D (Some cb) None (r\<lparr>fr_low := l\<rparr>) = Some (r2, h, e2)"
          "(if e2 \<noteq> None then Some (r2, e2) else loop L D (Some cb) None r2) = Some q" by (auto dest!: bind_eq_SomeD)
        have "fr_CheckUTF8 r2 = fr_CheckUTF8 r" using NextFrame_check [OF cb n(1)] by simp
        with n(2) IH [of L D "Some cb" None r2 q] show ?thesis by (auto split: if_splits)
      qed
    qed
  qed
  obtain r1 where r1: "discard_loop L D (Some cb) None r = Some (r1, e)" "r' = reset L r1" using d by (auto simp: Discard_def dest!: bind_eq_SomeD)
  then have "fr_CheckUTF8 r1 = fr_CheckUTF8 r" using loop [OF r1(1)] by simp
  then show "fr_CheckUTF8 r' = fr_CheckUTF8 r" "fr_utf8 r' = utf8_zero L"
    using r1(2) by (simp_all add: reset_def Let_def split: option.split)
qed

section \<open>The transport\<close>

text \<open>Only defined opcodes pass \<open>CheckHeader\<close>, and a continuation frame only within a message.\<close>

definition data_laws :: "('x, 'cw) ws_lib \<Rightarrow> bool" where
  "data_laws L \<longleftrightarrow> (\<forall>h s. check_header L h s = None \<longrightarrow> \<not> st_fragmented L s \<longrightarrow> \<not> is_control L (h_op h)
     \<longrightarrow> h_op h \<in> {OpText L, OpBinary L})"

lemma NextFrame_op:
  assumes n: "NextFrame L D (Some cb) None r = Some (r', h, None)" and "data_laws L" "\<not> fragmented L r"
    and core: "fr_core D r" and cb: "frame_handler D cb" and data: "\<not> is_control L (h_op h)"
  shows "h_op h \<in> {OpText L, OpBinary L}"
proof -
  obtain c h0 e0 where rh: "ReadHeader conn_read (lw_src (fr_low r)) = Some (c, h0, e0)" using ReadHeader_safe by blast
  define r0 where "r0 = r\<lparr>fr_low := (fr_low r)\<lparr>lw_src := c\<rparr>\<rparr>"
  have f: "\<not> fr_SkipHeaderCheck r0" "\<not> fragmented L r0" "fr_Extensions r0 = fr_Extensions r"
    using core assms(3) by (simp_all add: r0_def fr_core_def fragmented_def)
  have nf: "check_header L h0 (fr_state r0) = None" "next_frame L D (Some cb) None h0 r0 = Some (r', h, None)"
    using n f(1) unfolding NextFrame_parts [OF rh r0_def refl refl, of L D "Some cb" None] by (simp_all split: option.splits if_splits)
  obtain h' where "unset_bits (fr_Extensions r) h0 = (h', None)" "h_op h' = h_op h0"
    using unset_bits_op [of "fr_Extensions r" h0] core by (auto simp: fr_core_def)
  then have "h_op h = h_op h0"
    using nf(2) f(2,3) by (auto simp: next_frame_def install_frame_def fragmented_def Let_def split: prod.splits option.splits if_splits dest!: bind_eq_SomeD)
  with nf(1) f(2) assms(2) data show ?thesis unfolding data_laws_def fragmented_def by simp
qed

text \<open>A transport that accepts text alone and checks it.\<close>

definition text_transport :: "('x, 'cw) ws_lib \<Rightarrow> 'd dec \<Rightarrow> bool" where
  "text_transport L D \<longleftrightarrow> safe_laws L D \<and> data_laws L \<and> utf8_laws L \<and> utf8_valid L (utf8_zero L)"

lemma turn_clean:
  assumes "turn L D t t'" and "safe_laws L D" and c: "clean L (t_reader t)"
    and "\<not> fragmented L (t_reader t')" and wf: "fr_wf D (t_reader t)"
  shows "clean L (t_reader t') \<and> t_options t' = t_options t \<and> t_msgReader t' = t_msgReader t"
proof -
  have lib: "writes_only L" "control_laws L" "state_laws L" "opcode_laws L" using assms(2) by (simp_all add: safe_laws_def)
  note cb = t_OnIntermediate_frame_handler [of D L t] and safe = t_OnIntermediate_ctrl_safe [OF lib(1), of D t]
  from assms(1) show ?thesis
  proof (cases rule: turn_cases)
    case (control r h r')
    note n = NextFrame_clean [OF cb control(2) c]
    have "\<not> fragmented L r"
      using NextFrame_safe [OF wf lib(2-4) safe] control(2,3) c by (auto simp: clean_def)
    then have "clean L r" "fr_frame r \<noteq> Some RUtf8" using n control(3) lib(4) by (auto simp: clean_def opcode_laws_def word_le_nat_alt)
    from control_frame_clean [OF this control(4)] control(1) show ?thesis by simp
  next
    case (refuse r h r')
    have "fr_CheckUTF8 r'" "fr_utf8 r' = utf8_zero L"
      using Discard_clean [OF cb refuse(5)] NextFrame_clean(1) [OF cb refuse(2) c] by simp_all
    moreover obtain e where "WriteClose L (t\<lparr>t_reader := r'\<rparr>) (StatusUnsupportedData L) unsupported_reason = (t', e)"
      using refuse(1) by (metis prod.collapse)
    from WriteClose_safe(1) [OF lib(1) this] have w: "t_written (t\<lparr>t_reader := r'\<rparr>) t'" .
    then have "fr_CheckUTF8 (t_reader t') = fr_CheckUTF8 r'" "fr_utf8 (t_reader t') = fr_utf8 r'" "t_options t' = t_options t" "t_msgReader t' = t_msgReader t"
      by (auto simp: t_written_def dst_changed_def fr_set_dst_def)
    ultimately show ?thesis using assms(4) by (simp add: clean_def)
  qed
qed

lemma next_message_checked:
  fixes t :: "('cert, 'c, 'd, 'x) ws_transport" and L :: "('x, 'cw) ws_lib"
  assumes laws: "text_transport L D" and "next_message L D t = Some (t', e)" and "t_safe L D t" and "clean L (t_reader t)"
    and "o_OpCode (t_options t) = OpText L"
  shows "(e = None \<longrightarrow> t_msgReader t' \<and> checked L [] (t_reader t') \<and> t_options t' = t_options t)
    \<and> (e = Some EOF \<longrightarrow> clean L (t_reader t') \<and> t_options t' = t_options t \<and> t_msgReader t' = t_msgReader t)"
  using assms(2-)
proof (induction "fr_left (t_reader t)" arbitrary: t rule: less_induct)
  case less
  have sl: "safe_laws L D" using laws by (simp add: text_transport_def)
  note cb = t_OnIntermediate_frame_handler [of D L t]
  have wf: "fr_wf D (t_reader t)" using less.prems(2) by (simp add: t_safe_def)
  have whole: "\<not> fragmented L (t_reader t)" using less.prems(3) by (simp add: clean_def)
  from sl less.prems(2) whole show ?case
  proof (cases rule: next_message_cases)
    case (error t1 x)
    have "clean L (t_reader t1) \<and> t_options t1 = t_options t \<and> t_msgReader t1 = t_msgReader t" if eof: "x = EOF"
    proof -
      obtain r h r' where n: "NextFrame L D (Some (t_OnIntermediate L t)) None (t_reader t) = Some (r, h, None)" "is_control L (h_op h)"
        "t_OnIntermediate L t h (FrameReader_Read L D (Some (t_OnIntermediate L t)) None) r = Some (r', Some EOF)" "t1 = t\<lparr>t_reader := r'\<rparr>"
        using error(3) [OF eof] by blast
      note c = NextFrame_clean [OF cb n(1) less.prems(3)]
      have lib: "writes_only L" "control_laws L" "state_laws L" "opcode_laws L" using sl by (simp_all add: safe_laws_def)
      have "\<not> fragmented L r"
        using NextFrame_safe [OF wf lib(2-4) t_OnIntermediate_ctrl_safe [OF lib(1), of D t]] n(1,2) whole by auto
      then have "clean L r" "fr_frame r \<noteq> Some RUtf8" using c n(2) lib(4) by (auto simp: clean_def opcode_laws_def word_le_nat_alt)
      from control_frame_clean [OF this n(3)] n(4) show ?thesis by simp
    qed
    with error(1) less.prems(1) show ?thesis by auto
  next
    case (turn t1)
    have "clean L (t_reader t1) \<and> t_options t1 = t_options t \<and> t_msgReader t1 = t_msgReader t"
      by (rule turn_clean [OF turn(1) sl less.prems(3) turn(4) wf])
    with less.hyps [OF turn(5)] turn(2,3) less.prems show ?thesis by simp
  next
    case (opens r h)
    note c = NextFrame_clean [OF cb opens(1) less.prems(3)]
    have "fr_core D (t_reader t)" "data_laws L" "opcode_laws L" using wf laws sl by (simp_all add: fr_wf_def text_transport_def safe_laws_def)
    then have "h_op h \<in> {OpText L, OpBinary L}" using NextFrame_op [OF opens(1) _ whole _ cb opens(2)] by blast
    with opens(3) less.prems(4) \<open>opcode_laws L\<close> have "h_op h = OpText L" by (auto simp: opcode_laws_def)
    with c have "checked L [] r" by (simp add: checked_def)
    with opens(4) less.prems(1) show ?thesis by simp
  qed
qed

text \<open>A transport in step with what it has delivered of its text message, if it is within one.\<close>

definition in_step :: "('x, 'cw) ws_lib \<Rightarrow> bytes \<Rightarrow> ('cert, 'c, 'd, 'x) ws_transport \<Rightarrow> bool" where
  "in_step L q t \<longleftrightarrow> o_OpCode (t_options t) = OpText L
     \<and> (if t_msgReader t then checked L q (t_reader t) else q = [] \<and> clean L (t_reader t))"

lemma Read_in_step:
  assumes laws: "text_transport L D" and safe: "\<not> t_msgReader t \<Longrightarrow> t_safe L D t" and step: "in_step L q t"
    and rd: "Read L D t n = Some (t', bs, e)"
  shows "e = None \<Longrightarrow> in_step L (q @ bs) t' \<and> t_msgReader t'"
    and "e = Some EOF \<Longrightarrow> fragmented L (t_reader t') \<or> utf8_text L (q @ bs) \<and> in_step L [] t'"
proof -
  have u: "utf8_laws L" "utf8_valid L (utf8_zero L)" using laws by (simp_all add: text_transport_def)
  let ?goal = "\<lambda>t' bs e. (e = None \<longrightarrow> in_step L (q @ bs) t' \<and> t_msgReader t')
      \<and> (e = Some EOF \<longrightarrow> fragmented L (t_reader t') \<or> utf8_text L (q @ bs) \<and> in_step L [] t')"
  have msg: "?goal t' bs e" if t1: "t_msgReader t1" "in_step L q t1" "read_message L D t1 n = Some (t', bs, e)" for t1
  proof -
    obtain r where r: "FrameReader_Read L D (Some (t_OnIntermediate L t1)) None (t_reader t1) n = Some (r, bs, e)"
      "t' = (if e = Some EOF then t1\<lparr>t_reader := r, t_msgReader := False\<rparr> else t1\<lparr>t_reader := r\<rparr>)"
      using t1(3) by (auto simp: read_message_def dest!: bind_eq_SomeD)
    have "checked L q (t_reader t1)" using t1 by (simp add: in_step_def)
    from FrameReader_Read_checked [OF u(1) t_OnIntermediate_frame_handler this r(1)] t1(1,2) r(2) show ?thesis
      by (auto simp: in_step_def)
  qed
  have "?goal t' bs e"
  proof (cases "t_msgReader t")
    case True
    with rd msg step show ?thesis by (simp add: Read_def)
  next
    case False
    obtain t1 e1 where n: "next_message L D t = Some (t1, e1)"
      and rest: "(case e1 of Some x \<Rightarrow> Some (t1, [], Some x) | None \<Rightarrow> read_message L D t1 n) = Some (t', bs, e)"
      using rd False by (auto simp: Read_def dest!: bind_eq_SomeD)
    from False step have q: "q = []" "clean L (t_reader t)" "o_OpCode (t_options t) = OpText L" by (simp_all add: in_step_def)
    note c = next_message_checked [OF laws n safe [OF False] q(2,3)]
    show ?thesis
    proof (cases e1)
      case None
      with c q have "in_step L q t1" "t_msgReader t1" by (simp_all add: in_step_def)
      with msg rest None show ?thesis by simp
    next
      case (Some x)
      with c q rest False show ?thesis by (auto simp: in_step_def utf8_text_def u(2))
    qed
  qed
  then show "e = None \<Longrightarrow> in_step L (q @ bs) t' \<and> t_msgReader t'"
    "e = Some EOF \<Longrightarrow> fragmented L (t_reader t') \<or> utf8_text L (q @ bs) \<and> in_step L [] t'" by blast+
qed

lemma read_all_in_step:
  assumes laws: "text_transport L D" and "t_safe L D t" and "in_step L q t"
    and "read_all (Read L D) k t q = Some (t', p, EOF)" and "\<not> fragmented L (t_reader t')"
  shows "utf8_text L p"
proof -
  let ?T = "\<lambda>q t. in_step L q t \<and> (\<not> t_msgReader t \<longrightarrow> t_safe L D t)"
  have "EOF = EOF \<longrightarrow> fragmented L (t_reader t') \<or> utf8_text L p"
  proof (rule read_all_tracked [where T = ?T and R = "\<lambda>p x t. x = EOF \<longrightarrow> fragmented L (t_reader t) \<or> utf8_text L p", OF _ _ assms(4)])
    fix q t n t' bs assume "?T q t" "Read L D t n = Some (t', bs, None)"
    with Read_in_step(1) [OF laws] show "?T (q @ bs) t'" by blast
  next
    fix q t n t' bs x assume "?T q t" "Read L D t n = Some (t', bs, Some x)"
    with Read_in_step(2) [OF laws] show "x = EOF \<longrightarrow> fragmented L (t_reader t') \<or> utf8_text L (q @ bs)" by blast
  qed (use assms(2,3) in blast)
  with assms(5) show ?thesis by blast
qed

text \<open>Every step of a transport keeps it in step.\<close>

lemma t_written_in_step:
  assumes "t_written t t'"
  shows "in_step L q t' = in_step L q t"
proof -
  obtain c where c: "t_reader t' = fr_set_dst c (t_reader t)" using assms by (auto simp: t_written_def dst_changed_def)
  have "checked L q (fr_set_dst c (t_reader t)) = checked L q (t_reader t)" by (simp add: checked_def fr_set_dst_def fragmented_def)
  with assms c show ?thesis by (simp add: in_step_def t_written_def)
qed

lemma t_step_in_step:
  assumes st: "t_step L D t t'" and laws: "text_transport L D" and wf: "t_wf L D t" and i: "in_step L q t"
  shows "\<exists>q. in_step L q t'"
proof -
  have w: "writers_wf t" "writes_only L" "t_safe L D t" using wf laws by (simp_all add: t_wf_def t_safe_def text_transport_def safe_laws_def)
  from st show ?thesis
  proof cases
    case (st_Read n bs e)
    with Read_in_step [OF laws w(3) i] show ?thesis by blast
  next
    case (st_Write p q' n e)
    with Write_safe [OF w(1), of L p] have "t_written t t'" by auto
    with i show ?thesis by (auto simp: t_written_in_step)
  next
    case (st_Writev ps qs n e)
    with Writev_safe [OF w(1), of L ps] have "t_written t t'" by auto
    with i show ?thesis by (auto simp: t_written_in_step)
  next
    case (st_WriteClose code reason e)
    from WriteClose_safe(1) [OF w(2) this] i show ?thesis by (auto simp: t_written_in_step)
  next
    case (st_Flush e)
    from Flush_safe(1) [OF this] i show ?thesis by (auto simp: t_written_in_step)
  qed
qed

lemma t_run_in_step:
  assumes "(t_step L D)\<^sup>*\<^sup>* t t'" and laws: "text_transport L D" and wf: "t_wf L D t" and i: "in_step L q t"
  shows "\<exists>q. in_step L q t'"
  using assms(1)
proof (induction rule: rtranclp_induct)
  case (step t1 t2)
  have "t_wf L D t1" using t_run_wf [OF step(1)] laws wf by (simp add: text_transport_def)
  with step t_step_in_step laws show ?case by blast
qed (use i in blast)

lemma new_transport_in_step:
  fixes t :: "('cert, 'c, 'd, 'x) ws_transport"
  assumes new: "newWebsocketTransport L D F nc opts client req hs c fst0 wst rnd pool = Some (Inr t)"
    and su: "new_setup L D F opts hs fst0 wst" and opts: "o_CheckUTF8 opts" "o_OpCode opts = OpText L"
  shows "in_step L [] t"
proof -
  define t0 where "t0 = base_transport L D opts client req hs c fst0 wst rnd pool"
  let ?t1 = "t0\<lparr>t_reader := (t_reader t0)\<lparr>fr_Extensions := [perMessageDeflateRecvExt]\<rparr>\<rparr>"
  define core where "core t = (t_options t, t_msgReader t, fr_CheckUTF8 (t_reader t), fr_utf8 (t_reader t))" for t :: "('cert, 'c, 'd, 'x) ws_transport"
  have r: "core t' = core t" if "with_persistent_reader L D t = Some t'" for t t'
    using that by (auto simp: with_persistent_reader_def Let_def core_def split: if_splits prod.splits)
  have w: "core t' = core t" if "with_persistent_writer L F t = Some t'" for t t'
    using that by (auto simp: with_persistent_writer_def Let_def core_def split: if_splits prod.splits dest!: bind_eq_SomeD)
  have "core t0 = (opts, False, True, utf8_zero L)" by (simp add: core_def t0_def base_transport_def Let_def NewFrameReader_def opts)
  moreover have "core t = core t0"
  proof -
    have "t = t0 \<or> (\<exists>t2. with_persistent_reader L D ?t1 = Some t2 \<and> with_persistent_writer L F t2 = Some t)"
      using new by (auto simp: newWebsocketTransport_def Let_def t0_def [symmetric] bind_eq_Some_conv split: option.splits if_splits)
    moreover have "core ?t1 = core t0" by (simp add: core_def)
    ultimately show ?thesis using r w by metis
  qed
  ultimately show ?thesis using new_transport_wf(2) [OF new su] by (simp add: in_step_def clean_def core_def opts)
qed

end
