(* ===== verification/WsText.thy ===== *)
theory WsText
  imports WsUtf8
begin

text \<open>
  One text message under \<open>CheckUTF8\<close>, in one frame: \<open>Read\<close> delivers it if it is valid UTF-8, and ends in \<open>ErrInvalidUTF8\<close> if it is
  not.
\<close>

section \<open>The frame at hand\<close>

text \<open>Of the message \<open>p\<close>, \<open>q\<close> is delivered and the rest is there.\<close>

definition text_at :: "('x, 'cw) ws_lib \<Rightarrow> bytes \<Rightarrow> base_ref \<Rightarrow> bytes \<Rightarrow> ('d, 'x) frame_reader \<Rightarrow> bool" where
  "text_at L p b q r \<longleftrightarrow> fr_frame r = Some RUtf8 \<and> fr_utf8_src r = Some (RBase b) \<and> base_ok b (fr_low r)
     \<and> frame_complete (fr_low r) \<and> \<not> in_eager (lw_src (fr_low r)) \<and> \<not> fragmented L r \<and> fr_CheckUTF8 r
     \<and> utf8_feed L (utf8_zero L) q = Some (fr_utf8 r) \<and> q @ base_content b (fr_low r) = p"

lemma utf8_text_split:
  "utf8_feed L (utf8_zero L) q = Some x \<Longrightarrow> utf8_text L (q @ bs) = (case utf8_feed L x bs of Some x' \<Rightarrow> utf8_valid L x' | None \<Rightarrow> False)"
  by (simp add: utf8_text_def utf8_feed_append)

lemma FrameReader_Read_text:
  assumes laws: "utf8_laws L" and at: "text_at L p b q r"
  shows "\<exists>r' bs e. FrameReader_Read L D onI onC r n = Some (r', bs, e)
    \<and> (e = None \<longrightarrow> text_at L p b (q @ bs) r' \<and> (0 < n \<longrightarrow> low_left (fr_low r') < low_left (fr_low r))
         \<and> drop (nat (lw_n (fr_low r'))) (conn_content (fr_dst r')) = drop (nat (lw_n (fr_low r))) (conn_content (fr_dst r)))
    \<and> (\<forall>x. e = Some x \<longrightarrow> (if utf8_text L p then x = EOF \<and> q @ bs = p \<and> clean L r'
         \<and> conn_content (fr_dst r') = drop (nat (lw_n (fr_low r))) (conn_content (fr_dst r)) else x = ErrInvalidUTF8))"
proof -
  let ?l = "fr_low r"
  have a: "base_ok b ?l" "frame_complete ?l" "\<not> in_eager (lw_src ?l)" "fr_frame r = Some RUtf8" "fr_utf8_src r = Some (RBase b)"
    "\<not> fragmented L r" "fr_CheckUTF8 r" "utf8_feed L (utf8_zero L) q = Some (fr_utf8 r)" "q @ base_content b ?l = p"
    using at by (simp_all add: text_at_def)
  have good: "low_good b ?l" using a by (simp add: low_good_def frame_complete_def)
  obtain l bs e where rd: "base_read b ?l n = Some (l, bs, e)" and left: "e = None \<longrightarrow> 0 < n \<longrightarrow> low_left l < low_left ?l"
    using base_prog.rd_safe [OF good, of n] by blast
  note fr = base_read_frame [OF rd]
  have n: "lw_n l = lw_n ?l - int (length bs)" "0 \<le> lw_n l" using fr(1) a(2) by (auto simp: frame_complete_def)
  have clen: "length (base_content b ?l) = nat (lw_n ?l)" by (rule base_content_length [OF a(1,2)])
  have last: "e \<noteq> None \<Longrightarrow> lw_n l = 0"
    using base.rd_err [OF a(1)] rd clen n a(2) by (cases e) (auto simp: frame_complete_def)
  have all: "lw_n l = 0 \<Longrightarrow> base_content b ?l = bs"
    using base.rd_err [OF a(1)] base.rd_more [OF a(1)] rd by (cases e) (auto simp: base_content_empty)
  have eof: "e = None \<or> e = Some EOF" using base_read_error [OF _ a(2)] rd a(3) by (cases e) auto
  have env: "in_eager (lw_src l) = in_eager (lw_src ?l)" using conn_env_fields [OF fr(4)] by simp
  obtain x bs2 e2 where p: "utf8_post L (fr_utf8 r) bs e = (x, bs2, e2)" by (metis prod_cases3)
  let ?r2 = "r\<lparr>fr_low := l, fr_utf8 := x\<rparr>"
  have body: "FrameReader_Read L D onI onC r n =
      (if e2 \<noteq> None \<and> e2 \<noteq> Some EOF then Some (?r2, bs2, e2)
       else if e2 = None \<and> lw_n l \<noteq> 0 then Some (?r2, bs2, None)
       else if lw_n l \<noteq> 0 then Some (?r2, bs2, Some ErrUnexpectedEOF)
       else if \<not> utf8_valid L x then Some (?r2, take (utf8_accepted L x) bs2, Some ErrInvalidUTF8)
       else Some (reset L ?r2, bs2, Some EOF))"
    using a by (simp add: FrameReader_Read_def read_body_def rd p fragmented_def)
  obtain rest where c: "base_content b ?l = bs @ rest"
    using base.rd_more [OF a(1)] base.rd_err [OF a(1)] rd by (cases e) auto
  show ?thesis
  proof (cases "utf8_feed L (fr_utf8 r) bs")
    case None
    then have "e2 = Some ErrInvalidUTF8" using utf8_laws_reject [OF laws None, of e] p by auto
    moreover have "\<not> utf8_text L p"
      using utf8_text_split [OF a(8), of "bs @ rest"] a(9) c None by (simp add: utf8_feed_append)
    ultimately show ?thesis by (simp add: body)
  next
    case (Some x')
    then have x: "x = x'" "bs2 = bs" "e2 = e" using utf8_laws_accept [OF laws Some, of e] p by auto
    have fed: "utf8_feed L (utf8_zero L) (q @ bs) = Some x" using a(8) Some x by (simp add: utf8_feed_append)
    show ?thesis
    proof (cases "lw_n l = 0")
      case False
      with last have e: "e = None" by blast
      have "base_ok b l" "base_content b ?l = bs @ base_content b l" using base.rd_more [OF a(1), of n l bs] rd e by simp_all
      then have "text_at L p b (q @ bs) ?r2"
        using a fed env base_read_complete [OF rd a(2)] by (simp add: text_at_def fragmented_def)
      then show ?thesis using False left fr(2) by (simp add: body x e fr_dst_def)
    next
      case True
      then have "q @ bs = p" using all a(9) by simp
      moreover have "utf8_text L p = utf8_valid L x" using fed \<open>q @ bs = p\<close> by (simp add: utf8_text_def)
      moreover have "fr_dst (reset L ?r2) = lw_src l"
        by (simp add: fr_dst_def reset_def Let_def low_detach_def split: option.split)
      moreover have "clean L (reset L ?r2)" using a by (simp add: fragmented_def)
      ultimately show ?thesis using eof True fr(2) by (auto simp: body x fr_dst_def)
    qed
  qed
qed

section \<open>Through the transport\<close>

definition text_msg :: "('x, 'cw) ws_lib \<Rightarrow> bytes \<Rightarrow> bytes \<Rightarrow> bytes \<Rightarrow> ('cert, 'c, 'd, 'x) ws_transport \<Rightarrow> bool" where
  "text_msg L p z q t \<longleftrightarrow> t_msgReader t \<and> (\<exists>b. text_at L p b q (t_reader t))
     \<and> drop (nat (lw_n (fr_low (t_reader t)))) (conn_content (t_conn t)) = z"

lemma Read_text:
  assumes laws: "utf8_laws L" and m: "text_msg L p z q t"
  shows "\<exists>t' bs e. Read L D t n = Some (t', bs, e)
    \<and> (e = None \<longrightarrow> text_msg L p z (q @ bs) t' \<and> (0 < n \<longrightarrow> conn_left (t_conn t') < conn_left (t_conn t)))
    \<and> (\<forall>x. e = Some x \<longrightarrow> (if utf8_text L p then x = EOF \<and> q @ bs = p \<and> clean L (t_reader t') \<and> \<not> t_msgReader t'
         \<and> conn_content (t_conn t') = z else x = ErrInvalidUTF8))"
proof -
  obtain b where at: "text_at L p b q (t_reader t)" using m by (auto simp: text_msg_def)
  from FrameReader_Read_text [OF laws at, of D "Some (t_OnIntermediate L t)" None n] obtain r bs e where
    r: "FrameReader_Read L D (Some (t_OnIntermediate L t)) None (t_reader t) n = Some (r, bs, e)"
    "e = None \<longrightarrow> text_at L p b (q @ bs) r \<and> (0 < n \<longrightarrow> low_left (fr_low r) < low_left (fr_low (t_reader t)))
         \<and> drop (nat (lw_n (fr_low r))) (conn_content (fr_dst r)) = z"
    "\<forall>x. e = Some x \<longrightarrow> (if utf8_text L p then x = EOF \<and> q @ bs = p \<and> clean L r \<and> conn_content (fr_dst r) = z else x = ErrInvalidUTF8)"
    using m by (auto simp: text_msg_def t_conn_def)
  let ?t = "if e = Some EOF then t\<lparr>t_reader := r, t_msgReader := False\<rparr> else t\<lparr>t_reader := r\<rparr>"
  have "Read L D t n = Some (?t, bs, e)" using m r(1) by (simp add: Read_def read_message_def text_msg_def)
  with r(2,3) m show ?thesis
    by (intro exI [of _ ?t] exI [of _ bs] exI [of _ e], cases e) (auto simp: text_msg_def t_conn_def fr_dst_def split: if_splits)
qed

lemma read_all_text:
  assumes laws: "utf8_laws L" and "text_msg L p z q t" and k: "\<And>i. 0 < k i"
  shows "\<exists>t' s x. read_all (Read L D) k t q = Some (t', s, x)
    \<and> (if utf8_text L p then x = EOF \<and> s = p \<and> clean L (t_reader t') \<and> \<not> t_msgReader t' \<and> conn_content (t_conn t') = z
       else x = ErrInvalidUTF8)"
  using assms(2)
proof (induction "conn_left (t_conn t)" arbitrary: t q rule: less_induct)
  case less
  obtain t1 bs e where r: "Read L D t (k (length q)) = Some (t1, bs, e)"
    "e = None \<Longrightarrow> text_msg L p z (q @ bs) t1 \<and> conn_left (t_conn t1) < conn_left (t_conn t)"
    "\<forall>x. e = Some x \<longrightarrow> (if utf8_text L p then x = EOF \<and> q @ bs = p \<and> clean L (t_reader t1) \<and> \<not> t_msgReader t1
         \<and> conn_content (t_conn t1) = z else x = ErrInvalidUTF8)"
    using Read_text [OF laws less.prems, of D "k (length q)"] k [of "length q"] by (elim exE conjE) (rule that; simp)
  show ?case
  proof (cases e)
    case None
    with less.hyps [of t1 "q @ bs"] r show ?thesis by (subst read_all.simps) simp
  next
    case (Some x)
    with r show ?thesis by (subst read_all.simps) auto
  qed
qed

text \<open>The frame of a text message opens it.\<close>

lemma next_message_text:
  assumes laws: "opcode_laws L" "state_laws L" and c: "clean L (t_reader t)" and eager: "\<not> in_eager (t_conn t)"
    and ph: "parse_header (conn_content (t_conn t)) = Parsed h rest"
    and pass: "frame_passes L (fr_cfg (t_reader t)) (fr_state (t_reader t)) h" and h: "h_fin h" "h_op h = OpText L"
    and len: "nat (sint (h_length h)) \<le> length rest" and acc: "OpText L AND o_OpCode (t_options t) \<noteq> 0"
  shows "\<exists>t'. next_message L D t = Some (t', None)
    \<and> text_msg L (unmask h (take (nat (sint (h_length h))) rest)) (drop (nat (sint (h_length h))) rest) [] t'"
proof -
  let ?r = "t_reader t" and ?cb = "t_OnIntermediate L t"
  note nonneg = parse_header_length [OF ph]
  obtain c1 where rh: "ReadHeader conn_read (t_conn t) = Some (c1, h, None)" and c1: "conn_content c1 = rest"
    "conn_env c1 = conn_env (t_conn t)" by (rule conn_ReadHeader [OF ph])
  obtain l1 b where at: "attach_raw h ((fr_low ?r)\<lparr>lw_src := c1\<rparr>) = (l1, b)" by force
  note l1 = attach_raw_facts [OF at nonneg, simplified, unfolded c1(1), OF len]
  let ?r' = "?r\<lparr>fr_low := l1, fr_opCode := OpText L, fr_utf8_src := Some (RBase b), fr_frame := Some RUtf8,
      fr_state := st_clear L (fr_state ?r) (StateFragmented L)\<rparr>"
  from pass have checks: "fr_SkipHeaderCheck ?r \<or> check_header L h (fr_state ?r) = None"
    "\<not> (0 < sint (fr_MaxFrameSize ?r) \<and> sint (fr_MaxFrameSize ?r) < sint (h_length h))"
    "is_compressed L h = (False, None)" "unset_bits (fr_Extensions ?r) h = (h, None)"
    by (auto simp: frame_passes_def fr_cfg_def)
  have frg: "fragmented L (?r\<lparr>fr_low := l\<rparr>) = fragmented L ?r" for l by (simp add: fragmented_def)
  have "NextFrame L D (Some ?cb) None ?r = Some (?r', h, None)"
    using checks c h rh by (auto simp: NextFrame_def t_conn_def fr_dst_def Let_def at frg install_frame_def clean_def)
  moreover have "\<not> is_control L (h_op h)" using laws(1) h(2) by (simp add: opcode_laws_def word_le_nat_alt)
  ultimately have "next_message L D t = Some (t\<lparr>t_reader := ?r', t_msgReader := True\<rparr>, None)"
    using h(2) acc by (simp add: next_message.simps [of L D t])
  moreover have "\<not> fragmented L ?r'" using laws(2) by (simp add: fragmented_def state_laws_def)
  then have "text_at L (unmask h (take (nat (sint (h_length h))) rest)) b [] ?r'"
    using l1 c eager conn_env_fields [OF c1(2)] by (simp add: text_at_def clean_def)
  ultimately show ?thesis using l1 c1(1) by (auto simp: text_msg_def t_conn_def fr_dst_def)
qed

end
