(* ===== verification/TextProperties.thy ===== *)
theory TextProperties
  imports WsText SafetyProperties
begin

text \<open>
  The properties of text messages under \<open>CheckUTF8\<close>, with a library for their witnesses whose decoder is that of UTF-8.
\<close>

section \<open>A library with a decoder\<close>

text \<open>The bytes that the decoder waits for, as ranges: RFC 3629, section 4.  The range from 1 to 0 is empty: no way on.\<close>

fun utf8_next :: "(byte \<times> byte) list \<Rightarrow> byte \<Rightarrow> (byte \<times> byte) list option" where
  "utf8_next [] b =
     (if b < 128 then Some []
      else if 194 \<le> b \<and> b \<le> 223 then Some [(128, 191)]
      else if b = 224 then Some [(160, 191), (128, 191)]
      else if b = 237 then Some [(128, 159), (128, 191)]
      else if 225 \<le> b \<and> b \<le> 239 then Some [(128, 191), (128, 191)]
      else if b = 240 then Some [(144, 191), (128, 191), (128, 191)]
      else if 241 \<le> b \<and> b \<le> 243 then Some [(128, 191), (128, 191), (128, 191)]
      else if b = 244 then Some [(128, 143), (128, 191), (128, 191)]
      else None)"
| "utf8_next ((lo, hi) # xs) b = (if lo \<le> b \<and> b \<le> hi then Some xs else None)"

fun utf8_decode :: "(byte \<times> byte) list \<Rightarrow> bytes \<Rightarrow> nat \<Rightarrow> nat \<Rightarrow> (byte \<times> byte) list option \<times> nat" where
  "utf8_decode x [] i n = (Some x, n)"
| "utf8_decode x (b # bs) i n =
     (case utf8_next x b of None \<Rightarrow> (None, n) | Some x' \<Rightarrow> utf8_decode x' bs (Suc i) (if x' = [] then Suc i else n))"

definition utf8_lib :: "((byte \<times> byte) list, byte \<times> byte \<times> bytes \<times> nat) ws_lib" where
  "utf8_lib = \<lparr>OpContinuation = 0, OpText = 1, OpBinary = 2, OpClose = 8, OpPing = 9, OpPong = 10,
     StateServerSide = 1, StateClientSide = 2, StateExtended = 4, StateFragmented = 8,
     st_server = st_server rfc_lib, st_client = st_client rfc_lib, st_fragmented = st_fragmented rfc_lib,
     st_set = st_set rfc_lib, st_clear = st_clear rfc_lib, is_control = is_control rfc_lib,
     check_header = check_header rfc_lib, is_compressed = is_compressed rfc_lib, header_size = header_size rfc_lib,
     ws_write_header = ws_write_header rfc_lib, ws_write_frame = ws_write_frame rfc_lib,
     new_close_header = new_close_header rfc_lib, close_body = close_body rfc_lib, parse_close = parse_close rfc_lib,
     check_close = check_close rfc_lib, mask_payload = mask_payload rfc_lib, err_text = err_text rfc_lib,
     StatusProtocolError = 1002, StatusNoStatusRcvd = 1005, StatusUnsupportedData = 1003, ws_cipher = ws_cipher rfc_lib,
     utf8_zero = [],
     utf8_post = (\<lambda>x bs e. case utf8_decode x bs 0 0 of
        (Some x', n) \<Rightarrow> (x', bs, e) | (None, n) \<Rightarrow> ([(1, 0)], take n bs, Some ErrInvalidUTF8)),
     utf8_valid = (\<lambda>x. x = []), utf8_accepted = (\<lambda>_. 0),
     cw_new = cw_new rfc_lib, cw_write = cw_write rfc_lib, cw_flush = cw_flush rfc_lib\<rparr>"

lemma utf8_feed_decode: "utf8_feed utf8_lib x bs = fst (utf8_decode x bs i n)"
proof (induction bs arbitrary: x i n)
  case (Cons b bs)
  have "utf8_post utf8_lib x [b] None = (case utf8_next x b of Some x' \<Rightarrow> (x', [b], None) | None \<Rightarrow> ([(1, 0)], [], Some ErrInvalidUTF8))"
    by (simp add: utf8_lib_def split: option.split)
  with Cons.IH show ?case by (simp split: option.split)
qed simp

lemma utf8_lib_laws: "utf8_laws utf8_lib"
  unfolding utf8_laws_def
proof (intro allI)
  fix x bs e
  show "case utf8_feed utf8_lib x bs of
      Some x' \<Rightarrow> utf8_post utf8_lib x bs e = (x', bs, e)
    | None \<Rightarrow> (\<exists>x' k. utf8_post utf8_lib x bs e = (x', take k bs, Some ErrInvalidUTF8))"
    unfolding utf8_feed_decode [of x bs 0 0] by (cases "utf8_decode x bs 0 0") (auto simp: utf8_lib_def split: option.split)
qed

lemma utf8_lib_roles:
  "opcode_laws utf8_lib" "state_laws utf8_lib" "control_laws utf8_lib" "writes_only utf8_lib" "data_laws utf8_lib"
proof -
  have "data_laws rfc_lib" by (auto simp: data_laws_def rfc_lib_def rfc_check_def split: if_splits)
  moreover have "OpText rfc_lib = 1" "OpBinary rfc_lib = 2" by (simp_all add: rfc_lib_def)
  ultimately show "data_laws utf8_lib" by (simp add: data_laws_def utf8_lib_def)
  show "opcode_laws utf8_lib" "state_laws utf8_lib" "control_laws utf8_lib" "writes_only utf8_lib"
    using rfc_opcode_laws rfc_state_laws rfc_control_laws rfc_writes_only
    by (simp_all add: opcode_laws_def state_laws_def control_laws_def writes_only_def utf8_lib_def) (simp_all add: rfc_lib_def)
qed

section \<open>Accepted text is valid\<close>

text \<open>C22: on a transport that \<open>newWebsocketTransport\<close> made with \<open>CheckUTF8\<close> and that accepts text messages alone, a message that \<open>Read\<close>
  delivers to its \<open>EOF\<close> is valid UTF-8 as a whole: whatever the peer sends, in fragments, with control frames in between,
  compressed or not, in pieces and buffers that cut the characters, and whatever was read and written before.  (A message that is
  cut off as in \<open>truncated_message_accepted\<close> is no whole message: then the frame reader still waits for its next fragment.)\<close>

theorem checked_text_valid:
  assumes new: "newWebsocketTransport L D F nc opts client req hs c fst0 wst rnd pool = Some (Inr t0)"
    and su: "new_setup L D F opts hs fst0 wst" and opts: "o_CheckUTF8 opts" "o_OpCode opts = OpText L"
    and laws: "data_laws L" "utf8_laws L" "utf8_valid L (utf8_zero L)"
    and run: "(t_step L D)\<^sup>*\<^sup>* t0 t" and between: "\<not> t_msgReader t"
    and read: "read_all (Read L D) k t [] = Some (t', p, EOF)" and whole: "\<not> fragmented L (t_reader t')"
  shows "utf8_text L p"
proof -
  have tt: "text_transport L D" and sl: "safe_laws L D" using su laws by (simp_all add: new_setup_def text_transport_def)
  note wf = new_transport_wf(1) [OF new su]
  have safe: "t_safe L D t" using t_run_wf [OF run sl wf] by (simp add: t_wf_def)
  obtain q where q: "in_step L q t" using t_run_in_step [OF run tt wf new_transport_in_step [OF new su opts]] by blast
  with between have "in_step L [] t" by (simp add: in_step_def)
  from read_all_in_step [OF tt safe this read whole] show ?thesis .
qed

text \<open>A client that checks; it is sent the character U+20AC in two fragments, cut within the character.\<close>

definition ex_text_options :: "(unit, unit) ws_options" where
  "ex_text_options = the (Apply ex_flate (\<lambda>_ _. None) (ex_options\<lparr>o_CheckUTF8 := True\<rparr>))"

definition ex_euro :: "bytes list" where
  "ex_euro = [encode_header False False 1 None 2 @ [226, 130], encode_header True False 0 None 1, [172]]"

definition ex_reader :: "(unit, unit, unit, (byte \<times> byte) list) ws_transport" where
  "ex_reader = base_transport utf8_lib ex_dec ex_text_options True ex_request [] (ex_conn ex_euro) ex_flate_store ex_writer_store
     (\<lambda>i. Mask 1 2 3 4) (\<lambda>n. replicate n 7)"

lemma ex_text_options_fields:
  "o_CheckUTF8 ex_text_options" "o_OpCode ex_text_options = 1" "o_readerPool ex_text_options" "\<not> o_CompressEnabled ex_text_options"
  by (simp_all add: ex_text_options_def ex_options_def DefaultOptions_def rfc_lib_def Apply_def Let_def)

lemma ex_reader_new:
  "newWebsocketTransport utf8_lib ex_dec ex_flate OtherConn ex_text_options True ex_request [] (ex_conn ex_euro) ex_flate_store
     ex_writer_store (\<lambda>i. Mask 1 2 3 4) (\<lambda>n. replicate n 7) = Some (Inr ex_reader)"
  by (simp add: newWebsocketTransport_def ex_text_options_fields ex_reader_def Let_def)

lemma ex_reader_setup: "new_setup utf8_lib ex_dec ex_flate ex_text_options [] ex_flate_store ex_writer_store"
  using utf8_lib_roles ex_dec_safe ex_text_options_fields
  by (simp add: new_setup_def safe_laws_def ex_flate_store_def store_ok_def)

lemma case_answer:
  "(case x of Some (r, h, None) \<Rightarrow> P r h | _ \<Rightarrow> False) \<Longrightarrow> \<exists>r h. x = Some (r, h, None) \<and> P r h"
  "(case y of Some (r, bs, e) \<Rightarrow> Q r bs e | None \<Rightarrow> False) \<Longrightarrow> \<exists>r bs e. y = Some (r, bs, e) \<and> Q r bs e"
  by (auto split: option.splits prod.splits)

abbreviation ex_frames :: "_ \<Rightarrow> _ \<Rightarrow> (unit, (byte \<times> byte) list) frame_reader" where
  "ex_frames get put \<equiv> (NewFrameReader utf8_lib (ex_flate_store\<lparr>fs_persistent := None\<rparr>) (ex_conn ex_euro) 6)
     \<lparr>fr_CheckUTF8 := True, fr_MaxFrameSize := 0, fr_GetFlateReader := get, fr_PutFlateReader := put\<rparr>"

lemma ex_frames_read:
  "case NextFrame utf8_lib ex_dec cb None (ex_frames get put) of
      Some (r, h, None) \<Rightarrow> h_op h = 1 \<and> (case FrameReader_Read utf8_lib ex_dec cb None r 8 of
        Some (r1, bs, e) \<Rightarrow> bs = [226, 130] \<and> e = None \<and> (case FrameReader_Read utf8_lib ex_dec cb None r1 8 of
          Some (r2, bs, e) \<Rightarrow> bs = [172] \<and> e = Some EOF \<and> \<not> fragmented utf8_lib r2 | None \<Rightarrow> False) | None \<Rightarrow> False)
    | _ \<Rightarrow> False"
  by code_simp

lemma ex_reader_reads:
  "\<exists>t'. read_all (Read utf8_lib ex_dec) (\<lambda>_. 8) ex_reader [] = Some (t', [226, 130, 172], EOF) \<and> \<not> fragmented utf8_lib (t_reader t')"
proof -
  let ?cb = "t_OnIntermediate utf8_lib ex_reader"
  let ?read = "\<lambda>r. FrameReader_Read utf8_lib ex_dec (Some ?cb) None r 8"
  have "o_MaxFrameSize ex_text_options = 0" by (simp add: ex_text_options_def Apply_def Let_def ex_options_def DefaultOptions_def rfc_lib_def)
  then obtain get put where "t_reader ex_reader = ex_frames get put"
    by (simp add: ex_reader_def base_transport_def Let_def ex_text_options_fields) (simp add: utf8_lib_def)
  from case_answer(1) [OF ex_frames_read [where cb = "Some ?cb" and get = get and put = put, folded this]]
  obtain r h where n: "NextFrame utf8_lib ex_dec (Some ?cb) None (t_reader ex_reader) = Some (r, h, None)" "h_op h = 1"
    and x: "case ?read r of Some (r1, bs, e) \<Rightarrow> bs = [226, 130] \<and> e = None \<and> (case ?read r1 of
          Some (r2, bs, e) \<Rightarrow> bs = [172] \<and> e = Some EOF \<and> \<not> fragmented utf8_lib r2 | None \<Rightarrow> False) | None \<Rightarrow> False" by blast
  from case_answer(2) [OF x] obtain r1 where r1: "?read r = Some (r1, [226, 130], None)"
    and y: "case ?read r1 of Some (r2, bs, e) \<Rightarrow> bs = [172] \<and> e = Some EOF \<and> \<not> fragmented utf8_lib r2 | None \<Rightarrow> False" by blast
  from case_answer(2) [OF y] r1 obtain r2 where rd: "?read r = Some (r1, [226, 130], None)" "?read r1 = Some (r2, [172], Some EOF)"
    "\<not> fragmented utf8_lib r2" by blast
  have o: "o_OpCode (t_options ex_reader) = 1" "\<not> t_msgReader ex_reader"
    by (simp_all add: ex_reader_def base_transport_def Let_def ex_text_options_fields)
  define t1 where "t1 = ex_reader\<lparr>t_reader := r1, t_msgReader := True\<rparr>"
  have cb: "t_OnIntermediate utf8_lib t1 = ?cb" by (simp add: t1_def)
  have "next_message utf8_lib ex_dec ex_reader = Some (ex_reader\<lparr>t_reader := r, t_msgReader := True\<rparr>, None)"
    using n o(1) by (simp add: word_le_nat_alt next_message.simps [of utf8_lib ex_dec ex_reader] utf8_lib_roles(1) [unfolded opcode_laws_def])
  then have "Read utf8_lib ex_dec ex_reader 8 = Some (t1, [226, 130], None)"
    using o(2) rd(1) by (simp add: Read_def read_message_def t1_def)
  moreover have "Read utf8_lib ex_dec t1 8 = Some (t1\<lparr>t_reader := r2, t_msgReader := False\<rparr>, [172], Some EOF)"
    using rd(2) cb by (simp add: Read_def read_message_def) (simp add: t1_def)
  ultimately show ?thesis using rd(3) by (simp add: read_all.simps)
qed

lemma checked_text_valid_witness:
  "\<exists>t'. read_all (Read utf8_lib ex_dec) (\<lambda>_. 8) ex_reader [] = Some (t', [226, 130, 172], EOF)
     \<and> utf8_text utf8_lib [226, 130, 172] \<and> \<not> utf8_text utf8_lib [226, 130]"
proof -
  obtain t' where t': "read_all (Read utf8_lib ex_dec) (\<lambda>_. 8) ex_reader [] = Some (t', [226, 130, 172], EOF)"
    "\<not> fragmented utf8_lib (t_reader t')" using ex_reader_reads by blast
  have "\<not> t_msgReader ex_reader" by (simp add: ex_reader_def base_transport_def Let_def)
  note checked_text_valid [OF ex_reader_new ex_reader_setup _ _ utf8_lib_roles(5) utf8_lib_laws _ rtranclp.rtrancl_refl this t']
  moreover have "o_OpCode ex_text_options = OpText utf8_lib" "utf8_valid utf8_lib (utf8_zero utf8_lib)" "\<not> utf8_text utf8_lib [226, 130]"
    by (simp_all add: ex_text_options_fields utf8_lib_def) code_simp
  ultimately show ?thesis using t'(1) ex_text_options_fields(1) by blast
qed

section \<open>Valid text is accepted, and no other\<close>

text \<open>C21: for a text message that the peer's \<open>Write\<close> put on the wire in one frame, \<open>Read\<close> with \<open>CheckUTF8\<close> decides: if its payload is
  valid UTF-8, all of it is delivered and then \<open>EOF\<close>, and the transport is ready for what follows; if it is not, reading ends with
  \<open>ErrInvalidUTF8\<close>.  It does so for every way the network cuts the bytes and every size of the buffers, so also within a
  character.\<close>

theorem checked_text_decided:
  assumes laws: "opcode_laws L" "state_laws L" "check_laws L" "compression_laws L" "utf8_laws L"
    and t: "clean L (t_reader t)" "\<not> t_msgReader t" "\<not> in_eager (t_conn t)"
    and peer: "peer_of L client (OpText L) t" "fits t p" and k: "\<And>i. 0 < k i"
    and wire: "conn_content (t_conn t) = wire_frame client (OpText L) msk False p @ z"
  shows "\<exists>t' s x. read_all (Read L D) k t [] = Some (t', s, x)
    \<and> (if utf8_text L p then x = EOF \<and> s = p \<and> clean L (t_reader t') \<and> \<not> t_msgReader t' \<and> conn_content (t_conn t') = z
       else x = ErrInvalidUTF8)"
proof -
  let ?q = "if client then cipher_spec msk 0 p else p"
  have "\<not> fragmented L (t_reader t)" using t(1) by (simp add: clean_def)
  then obtain h where h: "parse_header (wire_frame client (OpText L) msk False p @ z) = Parsed h (?q @ z)"
    "frame_passes L (fr_cfg (t_reader t)) (fr_state (t_reader t)) h" "h_fin h" "h_op h = OpText L"
    "nat (sint (h_length h)) = length p" "unmask h ?q = p" by (rule wire_frame_passes [OF laws(1,3,4) peer])
  have "length ?q = length p" "OpText L AND o_OpCode (t_options t) \<noteq> 0" using peer(1) by (simp_all add: peer_of_def)
  then obtain t1 where t1: "next_message L D t = Some (t1, None)" "text_msg L p z [] t1"
    using next_message_text [OF laws(1,2) t(1,3) h(1) [folded wire] h(2-4), of D] h(5,6) by auto
  then have "t_msgReader t1" by (simp add: text_msg_def)
  with t1(1) t(2) have "Read L D t n = Read L D t1 n" for n by (simp add: Read_def)
  then have "read_all (Read L D) k t [] = read_all (Read L D) k t1 []" by (simp add: read_all.simps)
  with read_all_text [OF laws(5) t1(2) k] show ?thesis by simp
qed

text \<open>A server that checks, sent U+20AC followed by a close frame's first byte, and the same text without its last byte.\<close>

definition ex_checking :: "bytes \<Rightarrow> (unit, unit, unit, (byte \<times> byte) list) ws_transport" where
  "ex_checking p = base_transport utf8_lib ex_dec ex_text_options False ex_request []
     (ex_conn (map (\<lambda>b. [b]) (wire_frame True 1 (Mask 9 8 7 6) False p @ [136]))) ex_flate_store ex_writer_store
     (\<lambda>i. Mask 1 2 3 4) (\<lambda>n. replicate n 7)"

lemma checked_text_decided_witness:
  "(\<exists>t'. read_all (Read utf8_lib ex_dec) (\<lambda>_. 2) (ex_checking [226, 130, 172]) [] = Some (t', [226, 130, 172], EOF)
      \<and> conn_content (t_conn t') = [136])
   \<and> (\<exists>t' s. read_all (Read utf8_lib ex_dec) (\<lambda>_. 2) (ex_checking [226, 130]) [] = Some (t', s, ErrInvalidUTF8))"
proof -
  have laws: "check_laws utf8_lib" "compression_laws utf8_lib"
    using rfc_check_laws rfc_compression_laws by (simp_all add: check_laws_def compression_laws_def utf8_lib_def)
  have o: "OpText utf8_lib = 1" "o_MaxFrameSize ex_text_options = 0"
    by (simp_all add: utf8_lib_def ex_text_options_def Apply_def Let_def ex_options_def DefaultOptions_def rfc_lib_def)
  have t: "clean utf8_lib (t_reader (ex_checking p))" "\<not> t_msgReader (ex_checking p)" "\<not> in_eager (t_conn (ex_checking p))"
    "peer_of utf8_lib True 1 (ex_checking p)"
    "conn_content (t_conn (ex_checking p)) = wire_frame True 1 (Mask 9 8 7 6) False p @ [136]" for p
    using ex_text_options_fields o
    by (simp_all add: ex_checking_def base_transport_def Let_def NewFrameReader_def clean_def fragmented_def peer_of_def t_conn_def
        fr_dst_def conn_content_def ex_conn_def comp_def) (simp_all add: utf8_lib_def rfc_lib_def)
  have "fits (ex_checking p) p" if "length p < 4" for p
    using that o(2) by (simp add: fits_def ex_checking_def base_transport_def Let_def NewFrameReader_def)
  then have "fits (ex_checking [226, 130, 172]) [226, 130, 172]" "fits (ex_checking [226, 130]) [226, 130]" by simp_all
  note r = checked_text_decided [OF utf8_lib_roles(1,2) laws utf8_lib_laws t(1-3) _ this(1), where k = "\<lambda>_. 2" and D = ex_dec]
    checked_text_decided [OF utf8_lib_roles(1,2) laws utf8_lib_laws t(1-3) _ this(2), where k = "\<lambda>_. 2" and D = ex_dec]
  have u: "utf8_text utf8_lib [226, 130, 172]" "\<not> utf8_text utf8_lib [226, 130]" by code_simp+
  show ?thesis using r(1) [of True "Mask 9 8 7 6" "[136]"] r(2) [of True "Mask 9 8 7 6" "[136]"] t(4,5) u unfolding o(1) by auto
qed

end
