(* ===== verification/Channel.thy ===== *)
theory Channel
  imports Prelude
begin

text \<open>
  Go channels, as far as the sources use them: buffered channels, closing, and the outcome of an operation in a
  goroutine.  \<open>fifo\<close> is the interface of a bounded queue, with what its clients rely on proved inside it; the
  buffered channel is an instance.
\<close>

section \<open>Outcomes\<close>

text \<open>An operation completes, blocks its goroutine, or panics.\<close>

datatype 'a outcome = Done 'a | Blocks | Panics

fun obind :: "'a outcome \<Rightarrow> ('a \<Rightarrow> 'b outcome) \<Rightarrow> 'b outcome" where
  "obind (Done x) f = f x"
| "obind Blocks f = Blocks"
| "obind Panics f = Panics"

lemma obind_Done: "obind m f = Done y \<longleftrightarrow> (\<exists>x. m = Done x \<and> f x = Done y)"
  by (cases m) auto

section \<open>Buffered channels\<close>

record 'a chan =
  cn_buf :: "'a list"
  cn_cap :: nat
  cn_closed :: bool

definition make_chan :: "nat \<Rightarrow> 'a chan" where
  "make_chan n = \<lparr>cn_buf = [], cn_cap = n, cn_closed = False\<rparr>"

definition chan_send :: "'a chan \<Rightarrow> 'a \<Rightarrow> 'a chan outcome" where
  "chan_send c x =
     (if cn_closed c then Panics
      else if length (cn_buf c) < cn_cap c then Done (c\<lparr>cn_buf := cn_buf c @ [x]\<rparr>)
      else Blocks)"

text \<open>A receive returns \<open>Some x\<close>, or \<^term>\<open>None\<close> on a closed and drained channel (Go's \<open>ok = false\<close>).\<close>

definition chan_recv :: "'a chan \<Rightarrow> ('a option \<times> 'a chan) outcome" where
  "chan_recv c =
     (case cn_buf c of
        x # xs \<Rightarrow> Done (Some x, c\<lparr>cn_buf := xs\<rparr>)
      | [] \<Rightarrow> if cn_closed c then Done (None, c) else Blocks)"

definition chan_close :: "'a chan \<Rightarrow> 'a chan outcome" where
  "chan_close c = (if cn_closed c then Panics else Done (c\<lparr>cn_closed := True\<rparr>))"

definition chan_ok :: "'a chan \<Rightarrow> bool" where
  "chan_ok c \<longleftrightarrow> length (cn_buf c) \<le> cn_cap c"

lemma chan_ok_make [simp]: "chan_ok (make_chan n)"
  by (simp add: chan_ok_def make_chan_def)

lemma chan_ok_send: "chan_ok c \<Longrightarrow> chan_send c x = Done c' \<Longrightarrow> chan_ok c'"
  by (auto simp: chan_ok_def chan_send_def split: if_splits)

lemma chan_ok_recv: "chan_ok c \<Longrightarrow> chan_recv c = Done (r, c') \<Longrightarrow> chan_ok c'"
  by (auto simp: chan_ok_def chan_recv_def split: list.splits if_splits)

section \<open>Bounded queues\<close>

text \<open>
  \<open>put\<close> and \<open>get\<close> answer \<^term>\<open>None\<close> when they do not go ahead; \<open>open\<close> says whether \<open>put\<close> may go ahead at all.
\<close>

datatype 'a qop = Put 'a | Get

locale fifo =
  fixes put :: "'q \<Rightarrow> 'a \<Rightarrow> 'q option"
    and get :: "'q \<Rightarrow> ('a \<times> 'q) option"
    and items :: "'q \<Rightarrow> 'a list"
    and bound :: "'q \<Rightarrow> nat"
    and opened :: "'q \<Rightarrow> bool"
  assumes put_items: "put q x = Some q' \<Longrightarrow> items q' = items q @ [x] \<and> bound q' = bound q \<and> opened q' = opened q"
    and put_room: "put q x \<noteq> None \<longleftrightarrow> opened q \<and> length (items q) < bound q"
    and get_items: "get q = Some (x, q') \<Longrightarrow> items q = x # items q' \<and> bound q' = bound q \<and> opened q' = opened q"
    and get_none: "get q = None \<longleftrightarrow> items q = []"

context fifo begin

text \<open>A run of operations: the queue at the end, the elements that went in, the elements that came out.\<close>

fun run :: "'q \<Rightarrow> 'a qop list \<Rightarrow> 'q \<times> 'a list \<times> 'a list" where
  "run q [] = (q, [], [])"
| "run q (Put x # ops) =
     (case put q x of
        None \<Rightarrow> run q ops
      | Some q1 \<Rightarrow> (case run q1 ops of (q', ins, outs) \<Rightarrow> (q', x # ins, outs)))"
| "run q (Get # ops) =
     (case get q of
        None \<Rightarrow> run q ops
      | Some (x, q1) \<Rightarrow> (case run q1 ops of (q', ins, outs) \<Rightarrow> (q', ins, x # outs)))"

text \<open>First in, first out: nothing is lost, doubled or reordered.\<close>

lemma run_fifo:
  "run q ops = (q', ins, outs) \<Longrightarrow> items q @ ins = outs @ items q' \<and> bound q' = bound q"
proof (induction q ops arbitrary: q' ins outs rule: run.induct)
  case (2 q x ops)
  show ?case
  proof (cases "put q x")
    case None
    with 2 show ?thesis by simp
  next
    case (Some q1)
    obtain q2 i2 o2 where r: "run q1 ops = (q2, i2, o2)" by (metis prod_cases3)
    with "2.prems" Some have eq: "q' = q2" "ins = x # i2" "outs = o2" by simp_all
    from "2.IH"(2) [OF Some r] put_items [OF Some] show ?thesis unfolding eq by simp
  qed
next
  case (3 q ops)
  show ?case
  proof (cases "get q")
    case None
    with 3 show ?thesis by simp
  next
    case (Some p)
    obtain x q1 where p: "p = (x, q1)" by force
    with Some have g: "get q = Some (x, q1)" by simp
    obtain q2 i2 o2 where r: "run q1 ops = (q2, i2, o2)" by (metis prod_cases3)
    with "3.prems" g have eq: "q' = q2" "ins = i2" "outs = x # o2" by simp_all
    from "3.IH"(2) [OF Some p [symmetric] r] get_items [OF g] show ?thesis unfolding eq by simp
  qed
qed simp

lemma run_bounded:
  "run q ops = (q', ins, outs) \<Longrightarrow> length (items q) \<le> bound q \<Longrightarrow> length (items q') \<le> bound q'"
proof (induction q ops arbitrary: q' ins outs rule: run.induct)
  case (2 q x ops)
  show ?case
  proof (cases "put q x")
    case None
    with 2 show ?thesis by simp
  next
    case (Some q1)
    have "length (items q1) \<le> bound q1" using put_items [OF Some] put_room [of q x] Some by simp
    with 2 Some show ?thesis by (auto split: prod.splits)
  qed
next
  case (3 q ops)
  show ?case
  proof (cases "get q")
    case None
    with 3 show ?thesis by simp
  next
    case (Some r)
    obtain x q1 where r: "r = (x, q1)" by force
    have "length (items q1) \<le> bound q1" using get_items [of q x q1] Some r 3(4) by auto
    with 3 Some r show ?thesis by (auto split: prod.splits)
  qed
qed auto

end

text \<open>The buffered channel: \<open>select\<close> with a \<open>default\<close> branch, and a receive that finds an element.\<close>

definition chan_put :: "'a chan \<Rightarrow> 'a \<Rightarrow> 'a chan option" where
  "chan_put c x = (case chan_send c x of Done c' \<Rightarrow> Some c' | _ \<Rightarrow> None)"

definition chan_get :: "'a chan \<Rightarrow> ('a \<times> 'a chan) option" where
  "chan_get c = (case chan_recv c of Done (Some x, c') \<Rightarrow> Some (x, c') | _ \<Rightarrow> None)"

interpretation ch: fifo chan_put chan_get cn_buf cn_cap "\<lambda>c. \<not> cn_closed c"
  by unfold_locales
    (auto simp: chan_put_def chan_get_def chan_send_def chan_recv_def split: if_splits list.splits)

end
