(* ===== verification/World.thy ===== *)
theory World
  imports Channel GoIO
begin

text \<open>
  What the factories of the packages share: addresses, the context values of \<open>WithOptions\<close>/\<open>FromContext\<close>, and the
  operating system's handles (sockets, sessions, streams) that a call opens and has to close again.  \<open>connector\<close> is
  the contract of a \<open>Connect\<close>: a failing call leaves no handle behind.
\<close>

section \<open>Addresses\<close>

record url =
  u_Scheme :: string
  u_Host :: string
  u_Path :: string

text \<open>
  \<open>transport.Schemes.FixScheme\<close> of go-netty checks and may complete the address in place: a parameter
  \<open>fix\<close> that returns the error or the address afterwards.
\<close>

type_synonym fix_scheme = "string list \<Rightarrow> url \<Rightarrow> err + url"

section \<open>Handles\<close>

record world =
  w_open :: "nat list"
  w_next :: nat

definition open_handle :: "world \<Rightarrow> world \<times> nat" where
  "open_handle w = (w\<lparr>w_open := w_next w # w_open w, w_next := Suc (w_next w)\<rparr>, w_next w)"

definition close_handle :: "nat \<Rightarrow> world \<Rightarrow> world" where
  "close_handle h w = w\<lparr>w_open := filter (\<lambda>x. x \<noteq> h) (w_open w)\<rparr>"

definition world_ok :: "world \<Rightarrow> bool" where
  "world_ok w \<longleftrightarrow> distinct (w_open w) \<and> (\<forall>h \<in> set (w_open w). h < w_next w)"

lemma open_handle_ok: "world_ok w \<Longrightarrow> open_handle w = (w', h) \<Longrightarrow> world_ok w' \<and> w_open w' = h # w_open w"
  by (auto simp: open_handle_def world_ok_def less_Suc_eq)

lemma close_opened: "world_ok w \<Longrightarrow> open_handle w = (w', h) \<Longrightarrow> w_open (close_handle h w') = w_open w"
  by (auto simp: open_handle_def close_handle_def world_ok_def intro!: filter_True)

lemma close_handle_ok: "world_ok w \<Longrightarrow> world_ok (close_handle h w)"
  by (auto simp: world_ok_def close_handle_def)

section \<open>Connecting\<close>

text \<open>
  \<open>clean\<close>: a call that fails has left no handle, a call that succeeds only the transport's own.
  A \<open>Connect\<close> (or an \<open>Accept\<close>) takes the environment's answers \<open>'e\<close>, the world, and returns an error or a
  transport; \<open>handles\<close> are the handles that the transport owns.
\<close>

definition clean :: "('t \<Rightarrow> nat list) \<Rightarrow> world \<Rightarrow> world \<times> (err + 't) \<Rightarrow> bool" where
  "clean handles w = (\<lambda>(w', r). world_ok w' \<and>
     (case r of Inl e \<Rightarrow> w_open w' = w_open w | Inr t \<Rightarrow> w_open w' = handles t @ w_open w))"

lemma clean_error [simp]: "clean handles w (w, Inl e) = world_ok w"
  by (simp add: clean_def)

locale connector =
  fixes connect :: "'e \<Rightarrow> world \<Rightarrow> world \<times> (err + 't)"
    and handles :: "'t \<Rightarrow> nat list"
  assumes connect_clean: "world_ok w \<Longrightarrow> clean handles w (connect e w)"

context connector begin

fun connects :: "'e list \<Rightarrow> world \<Rightarrow> world \<times> 't list" where
  "connects [] w = (w, [])"
| "connects (e # es) w =
     (case connect e w of
        (w1, Inl x) \<Rightarrow> connects es w1
      | (w1, Inr t) \<Rightarrow> (case connects es w1 of (w', ts) \<Rightarrow> (w', t # ts)))"

text \<open>After any number of attempts the open handles are those of the transports that were returned.\<close>

lemma connects_balance:
  "world_ok w \<Longrightarrow> connects es w = (w', ts)
    \<Longrightarrow> world_ok w' \<and> set (w_open w') = (\<Union>t \<in> set ts. set (handles t)) \<union> set (w_open w)"
proof (induction es arbitrary: w w' ts)
  case (Cons e es)
  obtain w1 r where c: "connect e w = (w1, r)" by force
  note cl = connect_clean [OF Cons.prems(1), of e, unfolded c clean_def, simplified]
  show ?case
  proof (cases r)
    case (Inl x)
    have "connects es w1 = (w', ts)" using Cons.prems(2) c Inl by simp
    with Cons.IH [of w1 w' ts] cl Inl show ?thesis by simp
  next
    case (Inr t)
    obtain w2 ts2 where r2: "connects es w1 = (w2, ts2)" by force
    with Cons.prems(2) c Inr have "w' = w2" "ts = t # ts2" by simp_all
    with Cons.IH [OF _ r2] cl Inr show ?thesis by auto
  qed
qed simp

end

section \<open>Certificates\<close>

text \<open>
  The \<open>Apply\<close> of the packages \<open>tls\<close> and \<open>quic\<close>: the same code (\<open>quic\<close> extends the record).  \<open>TLS\<close> is the list \<open>TLS.Certificates\<close>; a panic is
  \<^term>\<open>None\<close>.
\<close>

record 'cert cert_options =
  co_CertFile :: string
  co_KeyFile :: string
  co_ReadBufferSize :: int
  co_WriteBufferSize :: int
  co_TLS :: "'cert list option"

definition cert_Apply ::
    "(string \<Rightarrow> string \<Rightarrow> 'cert option) \<Rightarrow> ('cert, 'm) cert_options_scheme \<Rightarrow> ('cert, 'm) cert_options_scheme option" where
  "cert_Apply load o1 =
     (let o2 = (case co_TLS o1 of None \<Rightarrow> o1\<lparr>co_TLS := Some []\<rparr> | Some _ \<Rightarrow> o1)
      in if co_CertFile o2 \<noteq> [] \<and> co_KeyFile o2 \<noteq> [] then
           (case load (co_CertFile o2) (co_KeyFile o2) of
              None \<Rightarrow> None
            | Some cer \<Rightarrow> Some (o2\<lparr>co_TLS := Some [cer]\<rparr>))
         else Some o2)"

text \<open>\<open>Apply\<close> may run again on the same options (\<open>WithOptions\<close> calls it): the second time changes nothing.\<close>

lemma cert_Apply_idem: "cert_Apply load o1 = Some o2 \<Longrightarrow> cert_Apply load o2 = Some o2"
  by (auto simp: cert_Apply_def Let_def split: option.splits if_splits)

end
