(* ===== verification/Udp.thy ===== *)
theory Udp
  imports World
begin

text \<open>
  The package \<open>udp\<close>: the client transport on a connected socket, the server transports that share the listener's
  socket and get their packets from its \<open>mainLoop\<close> through channels, and the acceptor.

  The socket is not code of this repository: a write to it is a parameter, what it receives is a script.  Each
  goroutine is a sequence of the operations below; where a \<open>select\<close> has several ready cases Go picks one at random,
  and the argument \<open>pick\<close> is that choice.
\<close>

section \<open>Options\<close>

text \<open>The two sizes are \<open>int32\<close>; \<open>Listen\<close> panics on a negative backlog and \<open>mainLoop\<close> on a negative packet size.\<close>

record udp_options =
  uo_MaxPacketSize :: nat
  uo_MaxBacklog :: nat
  uo_ReusePort :: bool

definition udp_DefaultOptions :: udp_options where
  "udp_DefaultOptions = \<lparr>uo_MaxPacketSize = 1400, uo_MaxBacklog = 16, uo_ReusePort = False\<rparr>"

definition udp_WithOptions :: "udp_options \<Rightarrow> udp_options option \<Rightarrow> udp_options option" where
  "udp_WithOptions o1 ctx = Some o1"

definition udp_FromContext :: "udp_options option \<Rightarrow> udp_options \<Rightarrow> udp_options" where
  "udp_FromContext ctx def = (case ctx of Some v \<Rightarrow> v | None \<Rightarrow> def)"

section \<open>Transports\<close>

text \<open>\<open>Writev\<close> of the client: \<open>wr\<close> is \<open>UDPConn.Write\<close> on a socket state \<open>'s\<close>.\<close>

fun udp_Writev ::
    "('s \<Rightarrow> bytes \<Rightarrow> 's \<times> int \<times> err option) \<Rightarrow> 's \<Rightarrow> bytes list \<Rightarrow> int \<Rightarrow> 's \<times> int \<times> err option" where
  "udp_Writev wr s [] n = (s, n, None)"
| "udp_Writev wr s (pkt # pkts) n =
     (case wr s pkt of (s, sent, e) \<Rightarrow>
       let n = (if 0 < sent then n + sent else n)
       in case e of Some x \<Rightarrow> (s, n, Some x) | None \<Rightarrow> udp_Writev wr s pkts n)"

record 'addr udp_server =
  us_raddr :: 'addr
  us_receivedQueue :: "bytes chan"
  us_closed :: bool
  us_recvPkt :: "bytes option"

definition newUDPServerTransport :: "'addr \<Rightarrow> 'addr udp_server" where
  "newUDPServerTransport raddr =
     \<lparr>us_raddr = raddr, us_receivedQueue = make_chan 128, us_closed = False, us_recvPkt = None\<rparr>"

text \<open>\<open>RemoteAddr\<close>, \<open>Write\<close> and \<open>Writev\<close> of the server: the same loop, on \<open>WriteToUDP\<close> to the remote address.\<close>

definition udp_RemoteAddr :: "'addr udp_server \<Rightarrow> 'addr" where
  "udp_RemoteAddr u = us_raddr u"

definition udp_server_Write ::
    "('s \<Rightarrow> 'addr \<Rightarrow> bytes \<Rightarrow> 's \<times> int \<times> err option) \<Rightarrow> 'addr udp_server \<Rightarrow> 's \<Rightarrow> bytes \<Rightarrow> 's \<times> int \<times> err option" where
  "udp_server_Write write_to u s data = write_to s (us_raddr u) data"

definition udp_server_Writev ::
    "('s \<Rightarrow> 'addr \<Rightarrow> bytes \<Rightarrow> 's \<times> int \<times> err option) \<Rightarrow> 'addr udp_server \<Rightarrow> 's \<Rightarrow> bytes list
      \<Rightarrow> 's \<times> int \<times> err option" where
  "udp_server_Writev write_to u s buffs = udp_Writev (\<lambda>s. write_to s (us_raddr u)) s buffs 0"

text \<open>The end of \<open>Read\<close>, with a buffer of size \<open>n\<close>; a \<open>nil\<close> packet has length 0.\<close>

definition udp_take_packet :: "'addr udp_server \<Rightarrow> nat \<Rightarrow> 'addr udp_server \<times> bytes \<times> err option" where
  "udp_take_packet u n =
     (let pkt = (case us_recvPkt u of None \<Rightarrow> [] | Some p \<Rightarrow> p)
      in if n < length pkt then (u, [], Some (ErrShortBuffer (length pkt) n))
         else (u\<lparr>us_recvPkt := None\<rparr>, pkt, Some EOF))"

definition udp_Read :: "'addr udp_server \<Rightarrow> nat \<Rightarrow> ('addr udp_server \<times> bytes \<times> err option) outcome" where
  "udp_Read u n =
     (if us_recvPkt u \<noteq> None then
        obind (chan_recv (us_receivedQueue u)) (\<lambda>(r, q).
          let u = u\<lparr>us_receivedQueue := q\<rparr>
          in case r of
               None \<Rightarrow> Done (u, [], Some (Errorf ''broken pipe''))
             | Some packet \<Rightarrow> Done (udp_take_packet (u\<lparr>us_recvPkt := Some packet\<rparr>) n))
      else Done (udp_take_packet u n))"

definition udp_Close :: "'addr udp_server \<Rightarrow> 'addr udp_server outcome" where
  "udp_Close u =
     (if us_closed u then Done u
      else obind (chan_close (us_receivedQueue u)) (\<lambda>q. Done (u\<lparr>us_closed := True, us_receivedQueue := q\<rparr>)))"

text \<open>
  \<open>received\<close>: a \<open>select\<close> between the closed signal and the send.  On a closed queue the send is ready too, and
  panics if it is picked.
\<close>

definition udp_received :: "'addr udp_server \<Rightarrow> bytes \<Rightarrow> bool \<Rightarrow> ('addr udp_server \<times> bool) outcome" where
  "udp_received u data pick =
     (let send = obind (chan_send (us_receivedQueue u) data) (\<lambda>q. Done (u\<lparr>us_receivedQueue := q\<rparr>, True))
      in if us_closed u \<and> (pick \<or> send = Blocks) then Done (u, False) else send)"

text \<open>Nothing is buffered: \<open>Flush\<close> of both transports returns \<open>nil\<close>.\<close>

definition udp_server_Flush :: "'addr udp_server \<Rightarrow> err option" where
  "udp_server_Flush u = None"

section \<open>The acceptor\<close>

text \<open>
  The server transports by number; \<open>ua_transports\<close> is the Go map by remote address, as an association list.
\<close>

record 'addr udp_acceptor =
  ua_options :: udp_options
  ua_transports :: "('addr \<times> nat) list"
  ua_objs :: "nat \<Rightarrow> 'addr udp_server"
  ua_next :: nat
  ua_incoming :: "nat chan"
  ua_closed :: bool
  ua_socket_closed :: bool

definition udp_acceptor_new :: "udp_options \<Rightarrow> (nat \<Rightarrow> 'addr udp_server) \<Rightarrow> 'addr udp_acceptor" where
  "udp_acceptor_new opts objs =
     \<lparr>ua_options = opts, ua_transports = [], ua_objs = objs, ua_next = 0,
      ua_incoming = make_chan (uo_MaxBacklog opts), ua_closed = False, ua_socket_closed = False\<rparr>"

text \<open>
  The factory, with the answers of \<open>Dial\<close> and \<open>ListenPacket\<close> (the first argument: whether \<open>SO_REUSEPORT\<close> is
  asked for).  A socket is one handle; \<open>without_host\<close> is go-netty's \<open>AddressWithoutHost\<close>.
\<close>

definition udp_Schemes :: "string list" where
  "udp_Schemes = [''udp'', ''udp4'', ''udp6'']"

record udp_client =
  uc_conn :: nat

definition newUDPClientTransport :: "nat \<Rightarrow> udp_client" where
  "newUDPClientTransport conn = \<lparr>uc_conn = conn\<rparr>"

definition udp_Flush :: "udp_client \<Rightarrow> err option" where
  "udp_Flush u = None"

definition udp_RawTransport :: "udp_client \<Rightarrow> nat" where
  "udp_RawTransport u = uc_conn u"

definition udp_Connect ::
    "fix_scheme \<Rightarrow> udp_options \<Rightarrow> url \<times> udp_options option \<times> (bool \<Rightarrow> string \<Rightarrow> string \<Rightarrow> err option)
      \<Rightarrow> world \<Rightarrow> world \<times> (err + udp_client)" where
  "udp_Connect fx def = (\<lambda>(addr, ctx, dial) w.
     case fx udp_Schemes addr of
       Inl e \<Rightarrow> (w, Inl e)
     | Inr addr \<Rightarrow>
         (case dial (uo_ReusePort (udp_FromContext ctx def)) (u_Scheme addr) (u_Host addr) of
            Some e \<Rightarrow> (w, Inl e)
          | None \<Rightarrow> (case open_handle w of (w, conn) \<Rightarrow> (w, Inr (newUDPClientTransport conn)))))"

definition udp_Listen ::
    "fix_scheme \<Rightarrow> udp_options \<Rightarrow> (url \<Rightarrow> string) \<Rightarrow> (nat \<Rightarrow> 'addr udp_server)
      \<Rightarrow> url \<times> udp_options option \<times> (bool \<Rightarrow> string \<Rightarrow> string \<Rightarrow> err option)
      \<Rightarrow> world \<Rightarrow> world \<times> (err + nat \<times> 'addr udp_acceptor)" where
  "udp_Listen fx def without_host objs = (\<lambda>(addr, ctx, listen) w.
     case fx udp_Schemes addr of
       Inl e \<Rightarrow> (w, Inl e)
     | Inr addr \<Rightarrow>
         (let opts = udp_FromContext ctx def
          in case listen (uo_ReusePort opts) (u_Scheme addr) (without_host addr) of
               Some e \<Rightarrow> (w, Inl e)
             | None \<Rightarrow> (case open_handle w of (w, l) \<Rightarrow> (w, Inr (l, udp_acceptor_new opts objs)))))"

text \<open>\<open>Accept\<close>: both cases may be ready.\<close>

definition udp_Accept :: "'addr udp_acceptor \<Rightarrow> bool \<Rightarrow> ('addr udp_acceptor \<times> (err + nat)) outcome" where
  "udp_Accept ua pick =
     (let recv = obind (chan_recv (ua_incoming ua)) (\<lambda>(r, c). Done (ua\<lparr>ua_incoming := c\<rparr>, Inr (the r)))
      in if ua_closed ua \<and> (pick \<or> recv = Blocks) then Done (ua, Inl (Errorf ''udp listener closed'')) else recv)"

text \<open>\<open>Close\<close>, with the answer \<open>e\<close> of the socket's own \<open>Close\<close>.\<close>

definition udp_acceptor_Close :: "err option \<Rightarrow> 'addr udp_acceptor \<Rightarrow> 'addr udp_acceptor \<times> err option" where
  "udp_acceptor_Close e ua =
     (if ua_closed ua then (ua, Some (Errorf ''close a closed listener''))
      else (ua\<lparr>ua_closed := True, ua_socket_closed := True\<rparr>, e))"

text \<open>One round of \<open>mainLoop\<close>: a packet \<open>data\<close> from \<open>raddr\<close>, cut to the size of the buffer.\<close>

definition udp_push :: "'addr udp_acceptor \<Rightarrow> 'addr \<Rightarrow> nat \<Rightarrow> bytes \<Rightarrow> bool \<Rightarrow> 'addr udp_acceptor outcome" where
  "udp_push ua raddr i data pick =
     obind (udp_received (ua_objs ua i) (take (uo_MaxPacketSize (ua_options ua)) data) pick) (\<lambda>(u, ok).
       if ok then Done (ua\<lparr>ua_objs := (ua_objs ua)(i := u)\<rparr>)
       else Done (ua\<lparr>ua_transports := filter (\<lambda>(a, _). a \<noteq> raddr) (ua_transports ua)\<rparr>))"

definition udp_packet :: "'addr udp_acceptor \<Rightarrow> 'addr \<Rightarrow> bytes \<Rightarrow> bool \<Rightarrow> 'addr udp_acceptor outcome" where
  "udp_packet ua raddr data pick =
     (case map_of (ua_transports ua) raddr of
        Some i \<Rightarrow> udp_push ua raddr i data pick
      | None \<Rightarrow>
          (let i = ua_next ua
           in case chan_put (ua_incoming ua) i of
                None \<Rightarrow> Done ua
              | Some c \<Rightarrow> udp_push (ua\<lparr>ua_objs := (ua_objs ua)(i := newUDPServerTransport raddr), ua_next := Suc i,
                  ua_incoming := c, ua_transports := (raddr, i) # ua_transports ua\<rparr>) raddr i data pick))"

text \<open>The end of \<open>mainLoop\<close>, when the socket fails: all child transports are removed and closed.\<close>

fun udp_close_all :: "'addr udp_acceptor \<Rightarrow> ('addr \<times> nat) list \<Rightarrow> 'addr udp_acceptor outcome" where
  "udp_close_all ua [] = Done (ua\<lparr>ua_transports := []\<rparr>)"
| "udp_close_all ua ((_, i) # ts) =
     obind (udp_Close (ua_objs ua i)) (\<lambda>u. udp_close_all (ua\<lparr>ua_objs := (ua_objs ua)(i := u)\<rparr>) ts)"

datatype 'addr sock_event = Packet 'addr bytes bool | SockError

fun udp_mainLoop :: "'addr udp_acceptor \<Rightarrow> 'addr sock_event list \<Rightarrow> 'addr udp_acceptor outcome" where
  "udp_mainLoop ua [] = Blocks"
| "udp_mainLoop ua (SockError # evs) = udp_close_all ua (ua_transports ua)"
| "udp_mainLoop ua (Packet raddr data pick # evs) = obind (udp_packet ua raddr data pick) (\<lambda>ua. udp_mainLoop ua evs)"

interpretation udp: connector "udp_Connect fx def" "\<lambda>t. [uc_conn t]" for fx def
proof
  fix e :: "url \<times> udp_options option \<times> (bool \<Rightarrow> string \<Rightarrow> string \<Rightarrow> err option)" and w
  assume ok: "world_ok w"
  obtain w1 h where o: "open_handle w = (w1, h)" by force
  obtain addr ctx ans where e: "e = (addr, ctx, ans)" by (metis prod_cases3)
  show "clean (\<lambda>t. [uc_conn t]) w (udp_Connect fx def e w)"
    by (simp add: e udp_Connect_def newUDPClientTransport_def o clean_def ok open_handle_ok [OF ok o] split: sum.split option.split)
qed

interpretation udp_listen: connector "udp_Listen fx def without_host objs" "\<lambda>(l, _). [l]"
  for fx def without_host and objs :: "nat \<Rightarrow> 'addr udp_server"
proof
  fix e :: "url \<times> udp_options option \<times> (bool \<Rightarrow> string \<Rightarrow> string \<Rightarrow> err option)" and w
  assume ok: "world_ok w"
  obtain w1 h where o: "open_handle w = (w1, h)" by force
  obtain addr ctx ans where e: "e = (addr, ctx, ans)" by (metis prod_cases3)
  show "clean (\<lambda>(l, _). [l]) w (udp_Listen fx def without_host objs e w)"
    by (simp add: e udp_Listen_def Let_def o clean_def ok open_handle_ok [OF ok o] split: sum.split option.split)
qed

section \<open>The system: main loop, acceptor and transports together\<close>

text \<open>
  A state is the acceptor and the transports that \<open>Accept\<close> has returned so far.  The goroutines interleave in any
  order: the main loop's rounds, the listening application, and the users of the accepted transports.
\<close>

inductive udp_step :: "'addr udp_acceptor \<times> nat list \<Rightarrow> 'addr udp_acceptor \<times> nat list \<Rightarrow> bool" where
  st_packet: "udp_packet ua raddr data pick = Done ua' \<Longrightarrow> udp_step (ua, acc) (ua', acc)"
| st_sock_error: "udp_close_all ua (ua_transports ua) = Done ua' \<Longrightarrow> udp_step (ua, acc) (ua', acc)"
| st_accept: "udp_Accept ua pick = Done (ua', Inr i) \<Longrightarrow> udp_step (ua, acc) (ua', acc @ [i])"
| st_accept_closed: "udp_Accept ua pick = Done (ua', Inl e) \<Longrightarrow> udp_step (ua, acc) (ua', acc)"
| st_close: "udp_acceptor_Close e0 ua = (ua', e) \<Longrightarrow> udp_step (ua, acc) (ua', acc)"
| st_read: "i \<in> set acc \<Longrightarrow> udp_Read (ua_objs ua i) n = Done (u, r)
    \<Longrightarrow> udp_step (ua, acc) (ua\<lparr>ua_objs := (ua_objs ua)(i := u)\<rparr>, acc)"
| st_close_child: "i \<in> set acc \<Longrightarrow> udp_Close (ua_objs ua i) = Done u
    \<Longrightarrow> udp_step (ua, acc) (ua\<lparr>ua_objs := (ua_objs ua)(i := u)\<rparr>, acc)"

text \<open>A transport in good order: never an unread packet, a queue within its capacity that is closed with it.\<close>

definition udp_server_ok :: "'addr udp_server \<Rightarrow> bool" where
  "udp_server_ok u \<longleftrightarrow> us_recvPkt u = None \<and> chan_ok (us_receivedQueue u) \<and> cn_cap (us_receivedQueue u) = 128
     \<and> cn_closed (us_receivedQueue u) = us_closed u"

definition udp_inv :: "'addr udp_acceptor \<times> nat list \<Rightarrow> bool" where
  "udp_inv = (\<lambda>(ua, acc).
     acc @ cn_buf (ua_incoming ua) = [0..<ua_next ua]
     \<and> chan_ok (ua_incoming ua) \<and> cn_cap (ua_incoming ua) = uo_MaxBacklog (ua_options ua) \<and> \<not> cn_closed (ua_incoming ua)
     \<and> distinct (map fst (ua_transports ua))
     \<and> (\<forall>(a, i) \<in> set (ua_transports ua). i < ua_next ua \<and> us_raddr (ua_objs ua i) = a)
     \<and> (\<forall>i < ua_next ua. udp_server_ok (ua_objs ua i) \<and> (us_closed (ua_objs ua i) \<or> i \<in> snd ` set (ua_transports ua))))"

lemma udp_inv_accepted:
  assumes "udp_inv (ua, acc)" and "i \<in> set acc"
  shows "i < ua_next ua \<and> udp_server_ok (ua_objs ua i)"
proof -
  have "set (acc @ cn_buf (ua_incoming ua)) = {0..<ua_next ua}" using assms(1) by (simp add: udp_inv_def)
  with assms(2) have "i < ua_next ua" by auto
  with assms(1) show ?thesis by (simp add: udp_inv_def)
qed

lemma udp_server_ok_new: "udp_server_ok (newUDPServerTransport a)"
  by (simp add: udp_server_ok_def newUDPServerTransport_def make_chan_def chan_ok_def)

lemma udp_received_keeps:
  assumes "udp_received u data pick = Done (u', ok)" and "udp_server_ok u"
  shows "udp_server_ok u' \<and> us_raddr u' = us_raddr u \<and> us_closed u' = us_closed u \<and> (\<not> ok \<longrightarrow> us_closed u)"
  using assms
  by (auto simp: udp_received_def Let_def obind_Done udp_server_ok_def chan_send_def chan_ok_def split: if_splits)

lemma udp_Close_keeps:
  assumes "udp_Close u = Done u'" and "udp_server_ok u"
  shows "udp_server_ok u' \<and> us_raddr u' = us_raddr u \<and> us_closed u'"
  using assms by (auto simp: udp_Close_def obind_Done udp_server_ok_def chan_close_def chan_ok_def split: if_splits)

lemma udp_Close_total: "udp_server_ok u \<Longrightarrow> \<exists>u'. udp_Close u = Done u'"
  by (auto simp: udp_Close_def udp_server_ok_def chan_close_def)

lemma udp_Read_idle: "us_recvPkt u = None \<Longrightarrow> udp_Read u n = Done (u, [], Some EOF)"
  by (simp add: udp_Read_def udp_take_packet_def)

lemma udp_push_inv:
  assumes "udp_push ua raddr i data pick = Done ua'" and "udp_inv (ua, acc)" and "(raddr, i) \<in> set (ua_transports ua)"
  shows "udp_inv (ua', acc)"
proof -
  from assms(2,3) have i: "i < ua_next ua" by (auto simp: udp_inv_def)
  with assms(2) have ok: "udp_server_ok (ua_objs ua i)" by (simp add: udp_inv_def)
  from assms(1) obtain u b where r: "udp_received (ua_objs ua i) (take (uo_MaxPacketSize (ua_options ua)) data) pick = Done (u, b)"
    and ua': "ua' = (if b then ua\<lparr>ua_objs := (ua_objs ua)(i := u)\<rparr>
      else ua\<lparr>ua_transports := filter (\<lambda>(a, _). a \<noteq> raddr) (ua_transports ua)\<rparr>)"
    by (auto simp: udp_push_def obind_Done split: if_splits)
  have sub: "distinct (map fst (filter P xs))" if "distinct (map fst xs)" for P and xs :: "('a \<times> nat) list"
    using that by (induction xs) auto
  show ?thesis
  proof (cases b)
    case True
    with udp_received_keeps [OF r ok] assms(2) i show ?thesis unfolding ua' udp_inv_def by auto
  next
    case False
    have d: "distinct (map fst (ua_transports ua))" using assms(2) by (simp add: udp_inv_def)
    have other: "a \<noteq> raddr \<or> j = i" if "(a, j) \<in> set (ua_transports ua)" for a j
      using eq_key_imp_eq_value [OF d assms(3)] that by blast
    have "us_closed (ua_objs ua i)" using udp_received_keeps [OF r ok] False by simp
    then have kept: "us_closed (ua_objs ua j) \<or> j \<in> snd ` set (filter (\<lambda>(a, _). a \<noteq> raddr) (ua_transports ua))"
      if "j < ua_next ua" for j
      using that assms(2) other by (force simp: udp_inv_def)
    with False assms(2) sub show ?thesis unfolding ua' udp_inv_def by auto
  qed
qed

lemma udp_packet_inv:
  assumes "udp_packet ua raddr data pick = Done ua'" and inv: "udp_inv (ua, acc)"
  shows "udp_inv (ua', acc)"
proof (cases "map_of (ua_transports ua) raddr")
  case (Some i)
  then have "udp_push ua raddr i data pick = Done ua'" using assms(1) by (simp add: udp_packet_def)
  then show ?thesis using inv map_of_SomeD [OF Some] by (rule udp_push_inv)
next
  case None
  show ?thesis
  proof (cases "chan_put (ua_incoming ua) (ua_next ua)")
    case None
    with assms \<open>map_of _ _ = None\<close> show ?thesis by (simp add: udp_packet_def Let_def)
  next
    case (Some c)
    let ?ua = "ua\<lparr>ua_objs := (ua_objs ua)(ua_next ua := newUDPServerTransport raddr), ua_next := Suc (ua_next ua),
      ua_incoming := c, ua_transports := (raddr, ua_next ua) # ua_transports ua\<rparr>"
    have c: "cn_buf c = cn_buf (ua_incoming ua) @ [ua_next ua]" "cn_cap c = cn_cap (ua_incoming ua)"
      "cn_closed c = cn_closed (ua_incoming ua)" "chan_ok c"
      using ch.put_items [OF Some] ch.put_room [of "ua_incoming ua" "ua_next ua"] Some
      by (auto simp: chan_ok_def)
    have "raddr \<notin> fst ` set (ua_transports ua)" using None by (simp add: map_of_eq_None_iff)
    then have "udp_inv (?ua, acc)"
      using inv c udp_server_ok_new by (auto simp: udp_inv_def less_Suc_eq newUDPServerTransport_def)
    moreover have "udp_push ?ua raddr (ua_next ua) data pick = Done ua'"
      using assms(1) None Some by (simp add: udp_packet_def Let_def)
    ultimately show ?thesis by (auto intro: udp_push_inv)
  qed
qed

lemma udp_close_all_inv:
  assumes "udp_close_all ua ts = Done ua'" and "udp_inv (ua, acc)" and "\<forall>(a, i) \<in> set ts. i < ua_next ua"
    and "\<forall>i < ua_next ua. us_closed (ua_objs ua i) \<or> i \<in> snd ` set ts"
  shows "udp_inv (ua', acc) \<and> ua_transports ua' = [] \<and> ua_next ua' = ua_next ua
    \<and> (\<forall>i < ua_next ua. us_closed (ua_objs ua' i))"
  using assms
proof (induction ts arbitrary: ua)
  case Nil
  then show ?case by (auto simp: udp_inv_def)
next
  case (Cons t ts)
  obtain a i where t: "t = (a, i)" by force
  from Cons.prems obtain u where u: "udp_Close (ua_objs ua i) = Done u"
    and rest: "udp_close_all (ua\<lparr>ua_objs := (ua_objs ua)(i := u)\<rparr>) ts = Done ua'"
    by (auto simp: t obind_Done)
  have ok: "udp_server_ok (ua_objs ua i)" using Cons.prems by (auto simp: udp_inv_def t)
  note k = udp_Close_keeps [OF u ok]
  have "udp_inv (ua\<lparr>ua_objs := (ua_objs ua)(i := u)\<rparr>, acc)" using Cons.prems(2) k by (auto simp: udp_inv_def)
  moreover have "\<forall>j < ua_next ua. us_closed (if j = i then u else ua_objs ua j) \<or> j \<in> snd ` set ts"
    using Cons.prems(4) k by (auto simp: t)
  ultimately show ?case using Cons.IH [OF rest] Cons.prems(3) by simp
qed

text \<open>Every step keeps the invariant.\<close>

lemma udp_step_inv: "udp_step s s' \<Longrightarrow> udp_inv s \<Longrightarrow> udp_inv s'"
proof (induction rule: udp_step.induct)
  case (st_packet ua raddr data pick ua' acc)
  then show ?case by (rule udp_packet_inv)
next
  case (st_sock_error ua ua' acc)
  show ?case by (rule udp_close_all_inv [OF st_sock_error, THEN conjunct1])
      (use st_sock_error.prems in \<open>auto simp: udp_inv_def\<close>)
next
  case (st_accept ua pick ua' i acc)
  then show ?case
    by (auto simp: udp_Accept_def Let_def obind_Done chan_recv_def udp_inv_def chan_ok_def split: if_splits list.splits)
next
  case (st_accept_closed ua pick ua' e acc)
  then show ?case by (auto simp: udp_Accept_def Let_def obind_Done split: if_splits)
next
  case (st_close e0 ua ua' e acc)
  then show ?case by (auto simp: udp_acceptor_Close_def udp_inv_def split: if_splits)
next
  case (st_read i acc ua n u r)
  then have "udp_server_ok (ua_objs ua i)" using udp_inv_accepted by blast
  with st_read have "u = ua_objs ua i" by (simp add: udp_server_ok_def udp_Read_idle)
  with st_read show ?case by simp
next
  case (st_close_child i acc ua u)
  have "udp_server_ok (ua_objs ua i)" using udp_inv_accepted st_close_child.prems st_close_child.hyps(1) by blast
  from udp_Close_keeps [OF st_close_child.hyps(2) this] st_close_child.prems show ?case
    by (auto simp: udp_inv_def)
qed

lemma udp_inv_init: "udp_inv (udp_acceptor_new opts objs, [])"
  by (simp add: udp_inv_def udp_acceptor_new_def make_chan_def chan_ok_def)

lemma udp_reachable: "udp_step\<^sup>*\<^sup>* (udp_acceptor_new opts objs, []) s \<Longrightarrow> udp_inv s"
  by (induction rule: rtranclp_induct) (auto intro: udp_inv_init udp_step_inv)

section \<open>The main loop\<close>

text \<open>\<open>received\<close> on a transport in good order, every case.\<close>

lemma udp_received_cases:
  assumes "udp_server_ok u"
  shows "udp_received u data pick =
    (if us_closed u then (if pick then Done (u, False) else Panics)
     else if length (cn_buf (us_receivedQueue u)) < 128 then
       Done (u\<lparr>us_receivedQueue := (us_receivedQueue u)\<lparr>cn_buf := cn_buf (us_receivedQueue u) @ [data]\<rparr>\<rparr>, True)
     else Blocks)"
  using assms by (simp add: udp_received_def udp_server_ok_def chan_send_def Let_def)

lemma udp_close_all_total:
  assumes "\<forall>(a, i) \<in> set ts. udp_server_ok (ua_objs ua i)"
  shows "\<exists>ua'. udp_close_all ua ts = Done ua'"
  using assms
proof (induction ts arbitrary: ua)
  case (Cons t ts)
  obtain a i where t: "t = (a, i)" by force
  with Cons.prems have ok: "udp_server_ok (ua_objs ua i)" by simp
  then obtain u where u: "udp_Close (ua_objs ua i) = Done u" using udp_Close_total by blast
  with udp_Close_keeps [OF u ok] Cons.prems Cons.IH [of "ua\<lparr>ua_objs := (ua_objs ua)(i := u)\<rparr>"] show ?case
    by (simp add: t split_beta)
qed simp

lemma udp_mainLoop_end:
  assumes "udp_inv (ua, acc)"
  shows "\<exists>ua'. udp_mainLoop ua (SockError # evs) = Done ua' \<and> udp_inv (ua', acc) \<and> ua_transports ua' = []
    \<and> ua_next ua' = ua_next ua \<and> (\<forall>i < ua_next ua. us_closed (ua_objs ua' i))"
proof -
  have ts: "\<forall>(a, i) \<in> set (ua_transports ua). udp_server_ok (ua_objs ua i)" using assms by (auto simp: udp_inv_def)
  then obtain ua' where ua': "udp_close_all ua (ua_transports ua) = Done ua'" using udp_close_all_total by blast
  have "\<forall>(a, i) \<in> set (ua_transports ua). i < ua_next ua"
    "\<forall>i < ua_next ua. us_closed (ua_objs ua i) \<or> i \<in> snd ` set (ua_transports ua)"
    using assms by (auto simp: udp_inv_def)
  from udp_close_all_inv [OF ua' assms this] ua' show ?thesis by simp
qed

text \<open>A peer that sends faster than its transport is read fills the queue, and then the loop stops for everyone.\<close>

lemma udp_flood:
  assumes "map_of (ua_transports ua) a = Some i" and "udp_server_ok (ua_objs ua i)" and "\<not> us_closed (ua_objs ua i)"
    and "128 < length (cn_buf (us_receivedQueue (ua_objs ua i))) + m"
  shows "udp_mainLoop ua (replicate m (Packet a data pick) @ evs) = Blocks"
  using assms
proof (induction m arbitrary: ua)
  case 0
  then show ?case by (simp add: udp_server_ok_def chan_ok_def)
next
  case (Suc m)
  let ?u = "ua_objs ua i" and ?d = "take (uo_MaxPacketSize (ua_options ua)) data"
  show ?case
  proof (cases "length (cn_buf (us_receivedQueue ?u)) < 128")
    case True
    define u where "u = ?u\<lparr>us_receivedQueue := (us_receivedQueue ?u)\<lparr>cn_buf := cn_buf (us_receivedQueue ?u) @ [?d]\<rparr>\<rparr>"
    have r: "udp_received ?u ?d pick = Done (u, True)" using Suc.prems True by (simp add: udp_received_cases u_def)
    have "udp_mainLoop (ua\<lparr>ua_objs := (ua_objs ua)(i := u)\<rparr>) (replicate m (Packet a data pick) @ evs) = Blocks"
      using Suc.prems udp_received_keeps [OF r] by (intro Suc.IH) (simp_all add: u_def)
    with r Suc.prems(1) show ?thesis by (simp add: udp_packet_def udp_push_def)
  next
    case False
    then have "udp_received ?u ?d pick = Blocks" using Suc.prems by (simp add: udp_received_cases)
    with Suc.prems(1) show ?thesis by (simp add: udp_packet_def udp_push_def)
  qed
qed

text \<open>\<open>Writev\<close> on a socket that takes whole packets, up to the first that fails.\<close>

lemma udp_Writev_sends:
  assumes "\<forall>p \<in> set ps. \<forall>s. wr s p = (tx s p, int (length p), None)"
  shows "udp_Writev wr s (ps @ qs) n = udp_Writev wr (foldl tx s ps) qs (n + int (sum_list (map length ps)))"
  using assms
proof (induction ps arbitrary: s n)
  case (Cons p ps)
  then show ?case by (cases "length p = 0") (simp_all add: add.assoc)
qed simp

end
