(* ===== verification/Kcp.thy ===== *)
theory Kcp
  imports World
begin

text \<open>
  The package \<open>kcp\<close>: the options with their tables of modes and ciphers, the setup of a session, and the factory.
  \<open>kcp-go\<close> and \<open>pbkdf2\<close> are parameters: the key derivation, the cipher constructors, and the answers of the calls on
  a session or listener.
\<close>

section \<open>Options\<close>

datatype kcp_cipher = SM4 | TEA | SimpleXOR | NoneCrypt | AES | Blowfish | Twofish | Cast5 | TripleDES | XTEA | Salsa20

text \<open>\<open>'block\<close> is \<open>kcp.BlockCrypt\<close>; \<^term>\<open>None\<close> is \<open>nil\<close>, no encryption.\<close>

record 'block kcp_options =
  ko_Key :: string
  ko_Crypt :: string
  ko_Mode :: string
  ko_MTU :: int
  ko_SndWnd :: int
  ko_RcvWnd :: int
  ko_DataShard :: int
  ko_ParityShard :: int
  ko_DSCP :: int
  ko_AckNodelay :: bool
  ko_NoDelay :: int
  ko_Interval :: int
  ko_Resend :: int
  ko_NoCongestion :: int
  ko_SockBuf :: int
  ko_Block :: "'block option"

text \<open>\<open>strings.ToLower\<close> on ASCII strings.\<close>

definition to_lower_char :: "char \<Rightarrow> char" where
  "to_lower_char c = (let n = of_char c :: nat in if 65 \<le> n \<and> n \<le> 90 then char_of (n + 32) else c)"

definition to_lower :: "string \<Rightarrow> string" where
  "to_lower s = map to_lower_char s"

definition kcp_mode :: "string \<Rightarrow> (int \<times> int \<times> int \<times> int) option" where
  "kcp_mode m =
     (if m = ''normal'' then Some (0, 40, 2, 1)
      else if m = ''fast'' then Some (0, 30, 2, 1)
      else if m = ''fast2'' then Some (1, 20, 2, 1)
      else if m = ''fast3'' then Some (1, 10, 2, 1)
      else None)"

text \<open>The cipher of a name and the length of its key, a prefix of the derived key of 32 bytes.\<close>

definition kcp_crypt :: "string \<Rightarrow> (kcp_cipher \<times> nat) option" where
  "kcp_crypt c =
     (if c = ''sm4'' then Some (SM4, 16)
      else if c = ''tea'' then Some (TEA, 16)
      else if c = ''xor'' then Some (SimpleXOR, 32)
      else if c = ''none'' then Some (NoneCrypt, 32)
      else if c = ''aes-128'' then Some (AES, 16)
      else if c = ''aes-192'' then Some (AES, 24)
      else if c = ''blowfish'' then Some (Blowfish, 32)
      else if c = ''twofish'' then Some (Twofish, 32)
      else if c = ''cast5'' then Some (Cast5, 16)
      else if c = ''3des'' then Some (TripleDES, 24)
      else if c = ''xtea'' then Some (XTEA, 16)
      else if c = ''salsa20'' then Some (Salsa20, 32)
      else None)"

definition set_mode :: "'block kcp_options \<Rightarrow> 'block kcp_options" where
  "set_mode o1 =
     (case kcp_mode (to_lower (ko_Mode o1)) of
        None \<Rightarrow> o1
      | Some (nd, iv, rs, nc) \<Rightarrow> o1\<lparr>ko_NoDelay := nd, ko_Interval := iv, ko_Resend := rs, ko_NoCongestion := nc\<rparr>)"

text \<open>
  \<open>Apply\<close>: \<open>kdf\<close> is \<open>pbkdf2.Key\<close> on the key with the salt \<open>kcp-go\<close>, \<open>mk\<close> the cipher constructors.  An error of a
  constructor is a panic.
\<close>

definition kcp_Apply ::
    "(string \<Rightarrow> bytes) \<Rightarrow> (kcp_cipher \<Rightarrow> bytes \<Rightarrow> err + 'block) \<Rightarrow> 'block kcp_options \<Rightarrow> 'block kcp_options option" where
  "kcp_Apply kdf mk o1 =
     (let o2 = set_mode o1;
          pass = kdf (ko_Key o2)
      in case kcp_crypt (to_lower (ko_Crypt o2)) of
           None \<Rightarrow> Some o2
         | Some (c, n) \<Rightarrow>
             (case mk c (take n pass) of Inl e \<Rightarrow> None | Inr b \<Rightarrow> Some (o2\<lparr>ko_Block := Some b\<rparr>)))"

definition kcp_defaults :: "'block kcp_options" where
  "kcp_defaults = \<lparr>ko_Key = ''it's a secrecy'', ko_Crypt = '''', ko_Mode = ''fast'', ko_MTU = 1350, ko_SndWnd = 32,
     ko_RcvWnd = 32, ko_DataShard = 0, ko_ParityShard = 0, ko_DSCP = 0, ko_AckNodelay = False, ko_NoDelay = 0,
     ko_Interval = 30, ko_Resend = 2, ko_NoCongestion = 1, ko_SockBuf = 4194304, ko_Block = None\<rparr>"

definition kcp_DefaultOptions ::
    "(string \<Rightarrow> bytes) \<Rightarrow> (kcp_cipher \<Rightarrow> bytes \<Rightarrow> err + 'block) \<Rightarrow> 'block kcp_options" where
  "kcp_DefaultOptions kdf mk = the (kcp_Apply kdf mk kcp_defaults)"

definition kcp_WithOptions ::
    "(string \<Rightarrow> bytes) \<Rightarrow> (kcp_cipher \<Rightarrow> bytes \<Rightarrow> err + 'block) \<Rightarrow> 'block kcp_options
      \<Rightarrow> 'block kcp_options option \<Rightarrow> 'block kcp_options option option" where
  "kcp_WithOptions kdf mk opts ctx = map_option Some (kcp_Apply kdf mk opts)"

definition kcp_FromContext :: "'block kcp_options option \<Rightarrow> 'block kcp_options \<Rightarrow> 'block kcp_options" where
  "kcp_FromContext ctx def = (case ctx of Some v \<Rightarrow> v | None \<Rightarrow> def)"

section \<open>Transports\<close>

text \<open>The calls that set up a session, in order.\<close>

datatype kcp_call =
    SetStreamMode bool
  | SetWriteDelay bool
  | SetNoDelay int int int int
  | SetMtu int
  | SetWindowSize int int
  | SetACKNoDelay bool
  | SetDSCP int
  | SetReadBuffer int
  | SetWriteBuffer int

text \<open>The answers of the last three, on a session or on a listener.\<close>

record kcp_sock =
  ks_SetDSCP :: "int \<Rightarrow> err option"
  ks_SetReadBuffer :: "int \<Rightarrow> err option"
  ks_SetWriteBuffer :: "int \<Rightarrow> err option"

record kcp_transport =
  kt_conn :: nat
  kt_client :: bool

text \<open>The socket options, each tried only if the one before succeeded: the calls made and the first error.\<close>

definition socket_setup :: "kcp_sock \<Rightarrow> 'block kcp_options \<Rightarrow> kcp_call list \<times> err option" where
  "socket_setup s opts =
     (case ks_SetDSCP s (ko_DSCP opts) of
        Some e \<Rightarrow> ([SetDSCP (ko_DSCP opts)], Some e)
      | None \<Rightarrow>
          (case ks_SetReadBuffer s (ko_SockBuf opts) of
             Some e \<Rightarrow> ([SetDSCP (ko_DSCP opts), SetReadBuffer (ko_SockBuf opts)], Some e)
           | None \<Rightarrow> ([SetDSCP (ko_DSCP opts), SetReadBuffer (ko_SockBuf opts), SetWriteBuffer (ko_SockBuf opts)],
               ks_SetWriteBuffer s (ko_SockBuf opts))))"

definition newKcpTransport ::
    "nat \<Rightarrow> kcp_sock \<Rightarrow> 'block kcp_options \<Rightarrow> bool \<Rightarrow> kcp_call list \<times> (err + kcp_transport)" where
  "newKcpTransport conn s opts client =
     (let calls = [SetStreamMode True, SetWriteDelay False,
            SetNoDelay (ko_NoDelay opts) (ko_Interval opts) (ko_Resend opts) (ko_NoCongestion opts),
            SetMtu (ko_MTU opts), SetWindowSize (ko_SndWnd opts) (ko_RcvWnd opts), SetACKNoDelay (ko_AckNodelay opts)];
          (more, e) = (if client then socket_setup s opts else ([], None))
      in (calls @ more, case e of Some x \<Rightarrow> Inl x | None \<Rightarrow> Inr \<lparr>kt_conn = conn, kt_client = client\<rparr>))"

definition kcp_wrap :: "kcp_sock \<Rightarrow> 'block kcp_options \<Rightarrow> bool \<Rightarrow> world \<times> nat \<Rightarrow> world \<times> (err + kcp_transport)" where
  "kcp_wrap s opts client = (\<lambda>(w, conn).
     case snd (newKcpTransport conn s opts client) of
       Inl e \<Rightarrow> (close_handle conn w, Inl e)
     | Inr t \<Rightarrow> (w, Inr t))"

text \<open>\<open>Writev\<close> hands all buffers to the session at once; the count is a Go \<open>int\<close>, converted to \<open>int64\<close>.\<close>

definition kcp_Writev :: "('s \<Rightarrow> bytes list \<Rightarrow> 's \<times> int \<times> err option) \<Rightarrow> 's \<Rightarrow> bytes list \<Rightarrow> 's \<times> int \<times> err option" where
  "kcp_Writev WriteBuffers s buffs = (case WriteBuffers s buffs of (s, n, e) \<Rightarrow> (s, n, e))"

definition kcp_Flush :: "kcp_transport \<Rightarrow> err option" where
  "kcp_Flush t = None"

definition kcp_RawTransport :: "kcp_transport \<Rightarrow> nat" where
  "kcp_RawTransport t = kt_conn t"

section \<open>Factory and acceptor\<close>

definition kcp_Schemes :: "string list" where
  "kcp_Schemes = [''kcp'']"

definition kcp_Connect ::
    "fix_scheme \<Rightarrow> 'block kcp_options
      \<Rightarrow> url \<times> 'block kcp_options option \<times> (string \<Rightarrow> 'block option \<Rightarrow> int \<Rightarrow> int \<Rightarrow> err option) \<times> kcp_sock
      \<Rightarrow> world \<Rightarrow> world \<times> (err + kcp_transport)" where
  "kcp_Connect fx def = (\<lambda>(addr, ctx, dial, s) w.
     case fx kcp_Schemes addr of
       Inl e \<Rightarrow> (w, Inl e)
     | Inr addr \<Rightarrow>
         (let opts = kcp_FromContext ctx def
          in case dial (u_Host addr) (ko_Block opts) (ko_DataShard opts) (ko_ParityShard opts) of
               Some e \<Rightarrow> (w, Inl e)
             | None \<Rightarrow> kcp_wrap s opts True (open_handle w)))"

record 'block kcp_acceptor =
  ka_listener :: "nat option"
  ka_options :: "'block kcp_options"

definition kcp_Listen ::
    "fix_scheme \<Rightarrow> 'block kcp_options
      \<Rightarrow> url \<times> 'block kcp_options option \<times> ('block option \<Rightarrow> int \<Rightarrow> int \<Rightarrow> err option) \<times> kcp_sock
      \<Rightarrow> world \<Rightarrow> world \<times> (err + 'block kcp_acceptor)" where
  "kcp_Listen fx def = (\<lambda>(addr, ctx, listen, s) w.
     case fx kcp_Schemes addr of
       Inl e \<Rightarrow> (w, Inl e)
     | Inr addr \<Rightarrow>
         (let opts = kcp_FromContext ctx def
          in case listen (ko_Block opts) (ko_DataShard opts) (ko_ParityShard opts) of
               Some e \<Rightarrow> (w, Inl e)
             | None \<Rightarrow>
                 (case open_handle w of (w, l) \<Rightarrow>
                   (case snd (socket_setup s opts) of
                      Some e \<Rightarrow> (close_handle l w, Inl e)
                    | None \<Rightarrow> (w, Inr \<lparr>ka_listener = Some l, ka_options = opts\<rparr>)))))"

text \<open>\<open>Accept\<close> calls \<open>AcceptKCP\<close> on the listener pointer; after \<open>Close\<close> it is \<open>nil\<close>, which panics.\<close>

definition kcp_Accept ::
    "'block kcp_acceptor \<Rightarrow> err option \<times> kcp_sock \<Rightarrow> world \<Rightarrow> (world \<times> (err + kcp_transport)) outcome" where
  "kcp_Accept ka = (\<lambda>(accept, s) w.
     if ka_listener ka = None then Panics
     else (case accept of
             Some e \<Rightarrow> Done (w, Inl e)
           | None \<Rightarrow> Done (kcp_wrap s (ka_options ka) False (open_handle w))))"

text \<open>\<open>Close\<close>, with the listener's own answer \<open>e\<close>.\<close>

definition kcp_Close :: "err option \<Rightarrow> 'block kcp_acceptor \<Rightarrow> world \<Rightarrow> 'block kcp_acceptor \<times> world \<times> err option" where
  "kcp_Close e ka w =
     (case ka_listener ka of
        Some l \<Rightarrow> (ka\<lparr>ka_listener := None\<rparr>, close_handle l w, e)
      | None \<Rightarrow> (ka, w, None))"

section \<open>Lemmas\<close>

lemma kcp_wrap_clean: "world_ok w \<Longrightarrow> clean (\<lambda>t. [kt_conn t]) w (kcp_wrap s opts client (open_handle w))"
  using open_handle_ok [of w] close_opened [of w] close_handle_ok
  by (cases "open_handle w") (auto simp: kcp_wrap_def newKcpTransport_def Let_def clean_def split: prod.split option.split)

interpretation kcp: connector "kcp_Connect fx def" "\<lambda>t. [kt_conn t]" for fx def
proof
  fix e and w
  assume "world_ok w"
  then show "clean (\<lambda>t. [kt_conn t]) w (kcp_Connect fx def e w)"
    by (cases e) (simp add: kcp_Connect_def Let_def kcp_wrap_clean split: sum.split option.split)
qed

interpretation kcp_listen: connector "kcp_Listen fx def" "\<lambda>ka. case ka_listener ka of Some l \<Rightarrow> [l] | None \<Rightarrow> []"
  for fx and def :: "'b kcp_options"
proof
  fix e :: "url \<times> 'b kcp_options option \<times> ('b option \<Rightarrow> int \<Rightarrow> int \<Rightarrow> err option) \<times> kcp_sock" and w
  assume ok: "world_ok w"
  obtain w1 l where o: "open_handle w = (w1, l)" by force
  have f: "world_ok w1" "w_open w1 = l # w_open w" "w_open (close_handle l w1) = w_open w" "world_ok (close_handle l w1)"
    using open_handle_ok [OF ok o] close_opened [OF ok o] close_handle_ok by simp_all
  obtain addr ctx listen s where e: "e = (addr, ctx, listen, s)" by (metis prod_cases4)
  show "clean (\<lambda>ka. case ka_listener ka of Some l \<Rightarrow> [l] | None \<Rightarrow> []) w (kcp_Listen fx def e w)"
    by (simp add: e kcp_Listen_def Let_def o clean_def f ok split: sum.split option.split)
qed

lemma socket_setup_error:
  "snd (socket_setup s opts) = None \<longleftrightarrow> ks_SetDSCP s (ko_DSCP opts) = None \<and> ks_SetReadBuffer s (ko_SockBuf opts) = None
     \<and> ks_SetWriteBuffer s (ko_SockBuf opts) = None"
  by (simp add: socket_setup_def split: option.split)

text \<open>The mode fixes four parameters, and applying the options again changes nothing.\<close>

lemma set_mode_idem: "set_mode (set_mode o1) = set_mode o1"
  by (auto simp: set_mode_def split: option.split prod.split)

lemma set_mode_fields [simp]:
  "ko_Key (set_mode o1) = ko_Key o1" "ko_Crypt (set_mode o1) = ko_Crypt o1" "ko_Block (set_mode o1) = ko_Block o1"
  "ko_Mode (set_mode o1) = ko_Mode o1"
  by (auto simp: set_mode_def split: option.split prod.split)

lemma set_mode_block [simp]: "set_mode (o1\<lparr>ko_Block := b\<rparr>) = (set_mode o1)\<lparr>ko_Block := b\<rparr>"
  by (auto simp: set_mode_def split: option.split prod.split)

lemma kcp_Apply_idem: "kcp_Apply kdf mk o1 = Some o2 \<Longrightarrow> kcp_Apply kdf mk o2 = Some o2"
  by (auto simp: kcp_Apply_def Let_def set_mode_idem split: option.splits sum.splits prod.splits)

text \<open>Only the mode and the block cipher change.\<close>

lemma kcp_Apply_Some:
  assumes "kcp_Apply kdf mk o1 = Some o2"
  shows "\<exists>b. o2 = (set_mode o1)\<lparr>ko_Block := b\<rparr>"
proof (cases "kcp_crypt (to_lower (ko_Crypt o1))")
  case None
  then have "o2 = (set_mode o1)\<lparr>ko_Block := ko_Block (set_mode o1)\<rparr>" using assms by (simp add: kcp_Apply_def Let_def)
  then show ?thesis by blast
next
  case (Some kn)
  then show ?thesis using assms by (auto simp: kcp_Apply_def Let_def split: sum.splits prod.splits)
qed

text \<open>Names are compared without case.\<close>

lemma to_lower_char_idem: "to_lower_char (to_lower_char c) = to_lower_char c"
proof -
  have "of_char (char_of (of_char c + 32 :: nat)) = (of_char c + 32 :: nat)" if "of_char c \<le> (90 :: nat)"
    using that by simp
  then show ?thesis by (auto simp: to_lower_char_def Let_def)
qed

lemma to_lower_idem [simp]: "to_lower (to_lower s) = to_lower s"
  by (simp add: to_lower_def to_lower_char_idem)

text \<open>The key lengths that the constructors of \<open>kcp-go\<close> accept.\<close>

fun valid_key :: "kcp_cipher \<Rightarrow> nat \<Rightarrow> bool" where
  "valid_key SM4 n = (n = 16)"
| "valid_key TEA n = (n = 16)"
| "valid_key SimpleXOR n = True"
| "valid_key NoneCrypt n = True"
| "valid_key AES n = (n \<in> {16, 24, 32})"
| "valid_key Blowfish n = (1 \<le> n \<and> n \<le> 56)"
| "valid_key Twofish n = (n \<in> {16, 24, 32})"
| "valid_key Cast5 n = (n = 16)"
| "valid_key TripleDES n = (n = 24)"
| "valid_key XTEA n = (n = 16)"
| "valid_key Salsa20 n = (n = 32)"

lemma kcp_crypt_valid: "kcp_crypt c = Some (k, n) \<Longrightarrow> valid_key k n \<and> n \<le> 32"
  by (auto simp: kcp_crypt_def split: if_splits)

lemma kcp_Apply_total:
  assumes "\<And>k. length (kdf k) = 32" and "\<And>k key. valid_key k (length key) \<Longrightarrow> \<exists>b. mk k key = Inr b"
  shows "\<exists>o2. kcp_Apply kdf mk o1 = Some o2"
proof (cases "kcp_crypt (to_lower (ko_Crypt o1))")
  case None
  then show ?thesis by (simp add: kcp_Apply_def Let_def)
next
  case (Some kn)
  obtain k n where kn: "kn = (k, n)" by force
  have "valid_key k (length (take n (kdf (ko_Key o1))))"
    using kcp_crypt_valid [OF Some [unfolded kn]] assms(1) [of "ko_Key o1"] by (simp add: min_absorb2)
  then obtain b where "mk k (take n (kdf (ko_Key o1))) = Inr b" using assms(2) by blast
  then show ?thesis by (simp add: kcp_Apply_def Let_def Some kn)
qed

end
