(* ===== verification/Quic.thy ===== *)
theory Quic
  imports World
begin

text \<open>
  The package \<open>quic\<close> and its internal package \<open>quick\<close>, which makes a \<open>net.Conn\<close> of one stream of a QUIC session on a
  UDP socket.  \<open>quic-go\<close> and the socket calls are parameters: each answers with an error or opens a handle.  The
  handles of a connection are its UDP socket, its session and its stream.
\<close>

section \<open>quick.Conn\<close>

record quick_conn =
  qc_conn :: nat
  qc_qconn :: nat
  qc_stream :: "nat option"

text \<open>\<open>Read\<close> and \<open>Write\<close> are those of the stream.\<close>

definition quick_Read :: "(nat option \<Rightarrow> 's rd) \<Rightarrow> quick_conn \<Rightarrow> 's rd" where
  "quick_Read stream_read c = stream_read (qc_stream c)"

definition quick_Write :: "(nat option \<Rightarrow> 's \<Rightarrow> bytes \<Rightarrow> 's \<times> nat \<times> err option) \<Rightarrow> quick_conn \<Rightarrow> 's \<Rightarrow> bytes
    \<Rightarrow> 's \<times> nat \<times> err option" where
  "quick_Write stream_write c = stream_write (qc_stream c)"

definition quick_Close :: "quick_conn \<Rightarrow> world \<Rightarrow> world" where
  "quick_Close c w = (case qc_stream c of Some s \<Rightarrow> close_handle s w | None \<Rightarrow> w)"

text \<open>
  The settings of the UDP sockets, by handle: deadlines (a \<open>time.Time\<close> as an integer) and buffer sizes.
\<close>

record socket_settings =
  ss_read_deadline :: int
  ss_write_deadline :: int
  ss_read_buffer :: int
  ss_write_buffer :: int

type_synonym sockets = "nat \<Rightarrow> socket_settings"

definition quick_SetDeadline :: "quick_conn \<Rightarrow> int \<Rightarrow> sockets \<Rightarrow> sockets" where
  "quick_SetDeadline c t sk = sk(qc_conn c := (sk (qc_conn c))\<lparr>ss_read_deadline := t, ss_write_deadline := t\<rparr>)"

definition quick_SetReadDeadline :: "quick_conn \<Rightarrow> int \<Rightarrow> sockets \<Rightarrow> sockets" where
  "quick_SetReadDeadline c t sk = sk(qc_conn c := (sk (qc_conn c))\<lparr>ss_read_deadline := t\<rparr>)"

definition quick_SetWriteDeadline :: "quick_conn \<Rightarrow> int \<Rightarrow> sockets \<Rightarrow> sockets" where
  "quick_SetWriteDeadline c t sk = sk(qc_conn c := (sk (qc_conn c))\<lparr>ss_write_deadline := t\<rparr>)"

definition quick_SetReadBuffer :: "quick_conn \<Rightarrow> int \<Rightarrow> sockets \<Rightarrow> sockets" where
  "quick_SetReadBuffer c n sk = sk(qc_conn c := (sk (qc_conn c))\<lparr>ss_read_buffer := n\<rparr>)"

definition quick_SetWriteBuffer :: "quick_conn \<Rightarrow> int \<Rightarrow> sockets \<Rightarrow> sockets" where
  "quick_SetWriteBuffer c n sk = sk(qc_conn c := (sk (qc_conn c))\<lparr>ss_write_buffer := n\<rparr>)"

section \<open>quick.Dial\<close>

text \<open>The answers of \<open>net.ResolveUDPAddr\<close>, \<open>net.ListenUDP\<close>, \<open>quic.Dial\<close> and \<open>OpenStreamSync\<close>.\<close>

record ('cert, 'qc) quick_env =
  qe_resolve :: "string \<Rightarrow> err option"
  qe_listen_udp :: "err option"
  qe_dial :: "'cert list option \<Rightarrow> 'qc option \<Rightarrow> err option"
  qe_open_stream :: "err option"

definition quick_Dial ::
    "string \<Rightarrow> 'cert list option \<Rightarrow> 'qc option \<Rightarrow> ('cert, 'qc) quick_env \<Rightarrow> world \<Rightarrow> world \<times> (err + quick_conn)" where
  "quick_Dial addr tls cfg E w =
     (case qe_resolve E addr of
        Some e \<Rightarrow> (w, Inl e)
      | None \<Rightarrow>
          (case qe_listen_udp E of
             Some e \<Rightarrow> (w, Inl e)
           | None \<Rightarrow>
               (case open_handle w of (w, udpConn) \<Rightarrow>
                 (case qe_dial E tls cfg of
                    Some e \<Rightarrow> (w, Inl e)
                  | None \<Rightarrow>
                      (case open_handle w of (w, session) \<Rightarrow>
                        (case qe_open_stream E of
                           Some e \<Rightarrow> (w, Inl e)
                         | None \<Rightarrow>
                             (case open_handle w of (w, stream) \<Rightarrow>
                               (w, Inr \<lparr>qc_conn = udpConn, qc_qconn = session, qc_stream = Some stream\<rparr>))))))))"

section \<open>quick.Listen\<close>

record quick_listener =
  ql_conn :: nat
  ql_quicServer :: nat

definition quick_Listen ::
    "string \<Rightarrow> 'cert list option \<Rightarrow> 'qc option \<Rightarrow> ('cert, 'qc) quick_env \<Rightarrow> world \<Rightarrow> world \<times> (err + quick_listener)" where
  "quick_Listen laddr tls cfg E w =
     (case qe_resolve E laddr of
        Some e \<Rightarrow> (w, Inl (OpError e))
      | None \<Rightarrow>
          (case qe_listen_udp E of
             Some e \<Rightarrow> (w, Inl e)
           | None \<Rightarrow>
               (case open_handle w of (w, conn) \<Rightarrow>
                 (case qe_dial E tls cfg of
                    Some e \<Rightarrow> (w, Inl e)
                  | None \<Rightarrow> (case open_handle w of (w, ln) \<Rightarrow> (w, Inr \<lparr>ql_conn = conn, ql_quicServer = ln\<rparr>))))))"

text \<open>\<open>Accept\<close> with the answers of the listener's \<open>Accept\<close> and of \<open>AcceptStream\<close>.\<close>

definition quick_Accept :: "quick_listener \<Rightarrow> err option \<times> err option \<Rightarrow> world \<Rightarrow> world \<times> (err + quick_conn)" where
  "quick_Accept s = (\<lambda>(accept, accept_stream) w.
     case accept of
       Some e \<Rightarrow> (w, Inl e)
     | None \<Rightarrow>
         (case open_handle w of (w, conn) \<Rightarrow>
           (case accept_stream of
              Some e \<Rightarrow> (w, Inl e)
            | None \<Rightarrow>
                (case open_handle w of (w, stream) \<Rightarrow>
                  (w, Inr \<lparr>qc_conn = ql_conn s, qc_qconn = conn, qc_stream = Some stream\<rparr>)))))"

definition quick_listener_Close :: "quick_listener \<Rightarrow> world \<Rightarrow> world" where
  "quick_listener_Close s w = close_handle (ql_quicServer s) w"

section \<open>Options, factory and acceptor\<close>

record ('cert, 'qc) quic_options = "'cert cert_options" +
  co_Config :: "'qc option"

definition quic_Apply ::
    "(string \<Rightarrow> string \<Rightarrow> 'cert option) \<Rightarrow> ('cert, 'qc) quic_options \<Rightarrow> ('cert, 'qc) quic_options option" where
  "quic_Apply load o1 = cert_Apply load o1"

definition quic_DefaultOptions :: "('cert, 'qc) quic_options" where
  "quic_DefaultOptions =
     \<lparr>co_CertFile = [], co_KeyFile = [], co_ReadBufferSize = 0, co_WriteBufferSize = 0, co_TLS = None, co_Config = None\<rparr>"

definition quic_WithOptions ::
    "(string \<Rightarrow> string \<Rightarrow> 'cert option) \<Rightarrow> ('cert, 'qc) quic_options \<Rightarrow> ('cert, 'qc) quic_options option \<Rightarrow> ('cert, 'qc) quic_options option option" where
  "quic_WithOptions load opts ctx = map_option Some (quic_Apply load opts)"

definition quic_FromContext :: "('cert, 'qc) quic_options option \<Rightarrow> ('cert, 'qc) quic_options \<Rightarrow> ('cert, 'qc) quic_options" where
  "quic_FromContext ctx def = (case ctx of Some v \<Rightarrow> v | None \<Rightarrow> def)"

record quic_transport =
  qt_conn :: quick_conn
  qt_ReadBufferSize :: int
  qt_WriteBufferSize :: int
  qt_client :: bool

definition newQuicTransport :: "quick_conn \<Rightarrow> ('cert, 'qc) quic_options \<Rightarrow> bool \<Rightarrow> err + quic_transport" where
  "newQuicTransport conn opts client =
     Inr \<lparr>qt_conn = conn, qt_ReadBufferSize = co_ReadBufferSize opts, qt_WriteBufferSize = co_WriteBufferSize opts,
          qt_client = client\<rparr>"

definition quic_wrap ::
    "('cert, 'qc) quic_options \<Rightarrow> bool \<Rightarrow> world \<times> (err + quick_conn) \<Rightarrow> world \<times> (err + quic_transport)" where
  "quic_wrap opts client = (\<lambda>(w, r).
     case r of
       Inl e \<Rightarrow> (w, Inl e)
     | Inr conn \<Rightarrow>
         (case newQuicTransport conn opts client of
            Inl e \<Rightarrow> (quick_Close conn w, Inl e)
          | Inr t \<Rightarrow> (w, Inr t)))"

definition quic_Schemes :: "string list" where
  "quic_Schemes = [''quic'']"

definition quic_Connect ::
    "fix_scheme \<Rightarrow> url \<times> ('cert, 'qc) quic_options option \<times> ('cert, 'qc) quick_env \<Rightarrow> world \<Rightarrow> world \<times> (err + quic_transport)" where
  "quic_Connect fx = (\<lambda>(addr, ctx, E) w.
     case fx quic_Schemes addr of
       Inl e \<Rightarrow> (w, Inl e)
     | Inr addr \<Rightarrow>
         (let opts = quic_FromContext ctx quic_DefaultOptions
          in quic_wrap opts True (quick_Dial (u_Host addr) (co_TLS opts) (co_Config opts) E w)))"

record ('cert, 'qc) quic_acceptor =
  qa_listener :: "quick_listener option"
  qa_options :: "('cert, 'qc) quic_options"

text \<open>\<open>without_host\<close> is go-netty's \<open>AddressWithoutHost\<close>.\<close>

definition quic_Listen ::
    "fix_scheme \<Rightarrow> (url \<Rightarrow> string) \<Rightarrow> url \<times> ('cert, 'qc) quic_options option \<times> ('cert, 'qc) quick_env
      \<Rightarrow> world \<Rightarrow> world \<times> (err + ('cert, 'qc) quic_acceptor)" where
  "quic_Listen fx without_host = (\<lambda>(addr, ctx, E) w.
     case fx quic_Schemes addr of
       Inl e \<Rightarrow> (w, Inl e)
     | Inr addr \<Rightarrow>
         (let opts = quic_FromContext ctx quic_DefaultOptions
          in case quick_Listen (without_host addr) (co_TLS opts) (co_Config opts) E w of
               (w, Inl e) \<Rightarrow> (w, Inl e)
             | (w, Inr l) \<Rightarrow> (w, Inr \<lparr>qa_listener = Some l, qa_options = opts\<rparr>)))"

text \<open>\<open>Accept\<close> on the \<open>nil\<close> interface that \<open>Close\<close> leaves behind panics.\<close>

definition quic_Accept ::
    "('cert, 'qc) quic_acceptor \<Rightarrow> err option \<times> err option \<Rightarrow> world \<Rightarrow> (world \<times> (err + quic_transport)) outcome" where
  "quic_Accept q a w =
     (case qa_listener q of
        None \<Rightarrow> Panics
      | Some l \<Rightarrow> Done (quic_wrap (qa_options q) False (quick_Accept l a w)))"

text \<open>\<open>Close\<close>, with the listener's own answer \<open>e\<close>.\<close>

definition quic_Close :: "err option \<Rightarrow> ('cert, 'qc) quic_acceptor \<Rightarrow> world \<Rightarrow> ('cert, 'qc) quic_acceptor \<times> world \<times> err option" where
  "quic_Close e q w =
     (case qa_listener q of
        Some l \<Rightarrow> (q\<lparr>qa_listener := None\<rparr>, quick_listener_Close l w, e)
      | None \<Rightarrow> (q, w, None))"

section \<open>Lemmas\<close>

lemma quick_Dial_opens:
  assumes "world_ok w" and "quick_Dial addr tls cfg E w = (w', Inr c)"
  shows "world_ok w' \<and> (\<exists>s. qc_stream c = Some s \<and> w_open w' = [s, qc_qconn c, qc_conn c] @ w_open w)"
proof -
  obtain w1 h1 where 1: "open_handle w = (w1, h1)" by force
  obtain w2 h2 where 2: "open_handle w1 = (w2, h2)" by force
  obtain w3 h3 where 3: "open_handle w2 = (w3, h3)" by force
  note o1 = open_handle_ok [OF assms(1) 1]
  note o2 = open_handle_ok [OF conjunct1 [OF o1] 2]
  note o3 = open_handle_ok [OF conjunct1 [OF o2] 3]
  from assms(2) o1 o2 o3 show ?thesis by (auto simp: quick_Dial_def 1 2 3 split: option.splits)
qed

text \<open>\<open>Close\<close> gives back the stream alone.\<close>

lemma quick_Close_keeps:
  assumes "world_ok w" and "quick_Dial addr tls cfg E w = (w', Inr c)"
  shows "w_open (quick_Close c w') = [qc_qconn c, qc_conn c] @ w_open w"
proof -
  obtain s where s: "world_ok w'" "qc_stream c = Some s" "w_open w' = [s, qc_qconn c, qc_conn c] @ w_open w"
    using quick_Dial_opens [OF assms] by blast
  then have "s \<notin> set ([qc_qconn c, qc_conn c] @ w_open w)" by (simp add: world_ok_def)
  with s show ?thesis by (auto simp: quick_Close_def close_handle_def intro!: filter_True)
qed

lemma quick_Dial_error:
  assumes "world_ok w" and "qe_resolve E addr = None" "qe_listen_udp E = None" and "qe_dial E tls cfg = Some e"
  shows "\<exists>w' socket. quick_Dial addr tls cfg E w = (w', Inl e) \<and> w_open w' = socket # w_open w"
proof -
  obtain w1 h where o: "open_handle w = (w1, h)" by force
  have "quick_Dial addr tls cfg E w = (w1, Inl e)" using assms(2-) by (simp add: quick_Dial_def o)
  with open_handle_ok [OF assms(1) o] show ?thesis by blast
qed

end
