(* ===== verification/Tls.thy ===== *)
theory Tls
  imports World
begin

text \<open>
  The package \<open>tls\<close>: a factory whose transports are TLS connections.  \<open>crypto/tls\<close> is a parameter: \<open>dial\<close>,
  \<open>listen\<close> and \<open>accept\<close> say whether the call fails, and open one handle if not.
\<close>

section \<open>Options\<close>

definition tls_DefaultOptions :: "'cert cert_options" where
  "tls_DefaultOptions =
     \<lparr>co_CertFile = [], co_KeyFile = [], co_ReadBufferSize = 0, co_WriteBufferSize = 0, co_TLS = Some []\<rparr>"

definition tls_WithOptions ::
    "(string \<Rightarrow> string \<Rightarrow> 'cert option) \<Rightarrow> 'cert cert_options \<Rightarrow> 'cert cert_options option \<Rightarrow> 'cert cert_options option option" where
  "tls_WithOptions load opts ctx = map_option Some (cert_Apply load opts)"

definition tls_FromContext :: "'cert cert_options option \<Rightarrow> 'cert cert_options \<Rightarrow> 'cert cert_options" where
  "tls_FromContext ctx def = (case ctx of Some v \<Rightarrow> v | None \<Rightarrow> def)"

section \<open>Transports\<close>

record tls_transport =
  tt_conn :: nat
  tt_ReadBufferSize :: int
  tt_WriteBufferSize :: int
  tt_client :: bool

definition newTlsTransport :: "nat \<Rightarrow> 'cert cert_options \<Rightarrow> bool \<Rightarrow> err + tls_transport" where
  "newTlsTransport conn opts client =
     Inr \<lparr>tt_conn = conn, tt_ReadBufferSize = co_ReadBufferSize opts, tt_WriteBufferSize = co_WriteBufferSize opts,
          tt_client = client\<rparr>"

text \<open>The end of \<open>Connect\<close> and \<open>Accept\<close>: a connection whose transport cannot be made is closed.\<close>

definition tls_wrap :: "'cert cert_options \<Rightarrow> bool \<Rightarrow> world \<times> nat \<Rightarrow> world \<times> (err + tls_transport)" where
  "tls_wrap opts client = (\<lambda>(w, conn).
     case newTlsTransport conn opts client of Inl e \<Rightarrow> (close_handle conn w, Inl e) | Inr t \<Rightarrow> (w, Inr t))"

section \<open>Factory and acceptor\<close>

definition tls_Schemes :: "string list" where
  "tls_Schemes = [''tcp'', ''tcp4'', ''tcp6'']"

text \<open>\<open>Connect\<close> with the address, the context and the answer of \<open>tls.Dial\<close>.\<close>

definition tls_Connect ::
    "fix_scheme \<Rightarrow> url \<times> 'cert cert_options option \<times> (string \<Rightarrow> string \<Rightarrow> 'cert list option \<Rightarrow> err option)
      \<Rightarrow> world \<Rightarrow> world \<times> (err + tls_transport)" where
  "tls_Connect fix = (\<lambda>(addr, ctx, dial) w.
     case fix tls_Schemes addr of
       Inl e \<Rightarrow> (w, Inl e)
     | Inr addr \<Rightarrow>
         (let opts = tls_FromContext ctx tls_DefaultOptions
          in case dial (u_Scheme addr) (u_Host addr) (co_TLS opts) of
               Some e \<Rightarrow> (w, Inl e)
             | None \<Rightarrow> tls_wrap opts True (open_handle w)))"

record 'cert tls_acceptor =
  ta_listener :: "nat option"
  ta_options :: "'cert cert_options"

definition tls_Listen ::
    "fix_scheme \<Rightarrow> url \<times> 'cert cert_options option \<times> (string \<Rightarrow> 'cert list option \<Rightarrow> err option)
      \<Rightarrow> world \<Rightarrow> world \<times> (err + 'cert tls_acceptor)" where
  "tls_Listen fix = (\<lambda>(addr, ctx, listen) w.
     case fix tls_Schemes addr of
       Inl e \<Rightarrow> (w, Inl e)
     | Inr addr \<Rightarrow>
         (let opts = tls_FromContext ctx tls_DefaultOptions
          in case listen (u_Scheme addr) (co_TLS opts) of
               Some e \<Rightarrow> (w, Inl e)
             | None \<Rightarrow> (case open_handle w of (w, l) \<Rightarrow> (w, Inr \<lparr>ta_listener = Some l, ta_options = opts\<rparr>))))"

definition tls_Accept :: "'cert tls_acceptor \<Rightarrow> err option \<Rightarrow> world \<Rightarrow> world \<times> (err + tls_transport)" where
  "tls_Accept ta accept w =
     (if ta_listener ta = None then (w, Inl (Errorf ''no listener''))
      else (case accept of
              Some e \<Rightarrow> (w, Inl e)
            | None \<Rightarrow> tls_wrap (ta_options ta) False (open_handle w)))"

text \<open>\<open>Close\<close>, with the listener's own answer \<open>e\<close>.\<close>

definition tls_Close :: "err option \<Rightarrow> 'cert tls_acceptor \<Rightarrow> world \<Rightarrow> 'cert tls_acceptor \<times> world \<times> err option" where
  "tls_Close e ta w =
     (case ta_listener ta of
        Some l \<Rightarrow> (ta\<lparr>ta_listener := None\<rparr>, close_handle l w, e)
      | None \<Rightarrow> (ta, w, None))"

lemma tls_wrap_clean: "world_ok w \<Longrightarrow> clean (\<lambda>t. [tt_conn t]) w (tls_wrap opts client (open_handle w))"
  using open_handle_ok [of w] by (cases "open_handle w") (simp add: tls_wrap_def newTlsTransport_def clean_def)

interpretation tls: connector "tls_Connect schemes" "\<lambda>t. [tt_conn t]" for schemes
proof
  fix e :: "url \<times> 'a cert_options option \<times> (string \<Rightarrow> string \<Rightarrow> 'a list option \<Rightarrow> err option)" and w
  assume "world_ok w"
  then show "clean (\<lambda>t. [tt_conn t]) w (tls_Connect schemes e w)"
    by (cases e) (simp add: tls_Connect_def Let_def tls_wrap_clean split: sum.split option.split)
qed

interpretation tls_accept: connector "tls_Accept ta" "\<lambda>t. [tt_conn t]" for ta :: "'cert tls_acceptor"
  by unfold_locales (simp add: tls_Accept_def tls_wrap_clean split: option.split)

text \<open>After \<open>Close\<close>: the listener's handle is gone, a second \<open>Close\<close> does nothing, \<open>Accept\<close> is an error.\<close>

lemma tls_Close_once:
  assumes "tls_Close e0 ta w = (ta', w', e)"
  shows "ta_listener ta' = None" "tls_Close e1 ta' w'' = (ta', w'', None)"
    "tls_Accept ta' accept w'' = (w'', Inl (Errorf ''no listener''))"
    "ta_listener ta = Some l \<Longrightarrow> l \<notin> set (w_open w')"
  using assms by (auto simp: tls_Close_def tls_Accept_def close_handle_def split: option.splits)

end
