(* ===== verification/NetProperties.thy ===== *)
theory NetProperties
  imports Udp Kcp Quic Tls
begin

text \<open>
  The properties of the packages \<open>udp\<close>, \<open>kcp\<close>, \<open>quic\<close> and \<open>tls\<close>, each with a witness on concrete data where it has hypotheses.
\<close>

section \<open>udp\<close>

text \<open>The acceptor that the witnesses start from: a backlog of two, peers named by numbers.\<close>

definition ex_udp :: "nat udp_acceptor" where
  "ex_udp = udp_acceptor_new (udp_DefaultOptions\<lparr>uo_MaxBacklog := 2\<rparr>) (\<lambda>_. newUDPServerTransport 0)"

definition ex_udp_packet :: "nat \<Rightarrow> nat udp_acceptor \<Rightarrow> nat udp_acceptor" where
  "ex_udp_packet a ua = (case udp_packet ua a [1, 2] False of Done ua' \<Rightarrow> ua' | _ \<Rightarrow> ua)"

definition ex_udp_accept :: "nat udp_acceptor \<Rightarrow> nat udp_acceptor" where
  "ex_udp_accept ua = (case udp_Accept ua False of Done (ua', _) \<Rightarrow> ua' | _ \<Rightarrow> ua)"

text \<open>Two peers have sent a packet, and the first transport is accepted.\<close>

definition ex_udp_run :: "nat udp_acceptor" where
  "ex_udp_run = ex_udp_accept (ex_udp_packet 9 (ex_udp_packet 7 ex_udp))"

lemmas ex_udp_defs = ex_udp_run_def ex_udp_packet_def ex_udp_accept_def ex_udp_def udp_acceptor_new_def udp_packet_def
  udp_push_def udp_received_def udp_Accept_def chan_put_def chan_send_def chan_recv_def make_chan_def newUDPServerTransport_def
  udp_DefaultOptions_def Let_def

lemma ex_udp_reachable: "udp_step\<^sup>*\<^sup>* (ex_udp, []) (ex_udp_run, [0])"
proof -
  let ?a = "ex_udp_packet 7 ex_udp" and ?b = "ex_udp_packet 9 (ex_udp_packet 7 ex_udp)"
  have "udp_packet ex_udp 7 [1, 2] False = Done ?a" by (simp add: ex_udp_defs)
  then have a: "udp_step (ex_udp, []) (?a, [])" by (rule st_packet)
  have "udp_packet ?a 9 [1, 2] False = Done ?b" by (simp add: ex_udp_defs)
  then have b: "udp_step (?a, []) (?b, [])" by (rule st_packet)
  have "udp_Accept ?b False = Done (ex_udp_run, Inr 0)" by (simp add: ex_udp_defs)
  then have "udp_step (?b, []) (ex_udp_run, [] @ [0])" by (rule st_accept)
  with a b show ?thesis by (simp add: converse_rtranclp_into_rtranclp)
qed

text \<open>C7: however the main loop, the listening application and the users of accepted transports interleave, every
  transport the main loop made is handed out by \<open>Accept\<close> or still in the backlog, once and in the order of the
  peers' first packets; the backlog and each receive queue keep within their bounds; there is at most one transport
  per remote address, bound to that address; and a transport is dropped from the map only once it is closed.\<close>

theorem udp_acceptor_invariant:
  assumes "udp_step\<^sup>*\<^sup>* (udp_acceptor_new opts objs, []) (ua, acc)"
  shows "acc @ cn_buf (ua_incoming ua) = [0..<ua_next ua]
    \<and> length (cn_buf (ua_incoming ua)) \<le> uo_MaxBacklog (ua_options ua)
    \<and> distinct (map fst (ua_transports ua))
    \<and> (\<forall>(a, i) \<in> set (ua_transports ua). us_raddr (ua_objs ua i) = a)
    \<and> (\<forall>i < ua_next ua. length (cn_buf (us_receivedQueue (ua_objs ua i))) \<le> 128
        \<and> (us_closed (ua_objs ua i) \<or> i \<in> snd ` set (ua_transports ua)))"
  using udp_reachable [OF assms] by (auto simp: udp_inv_def chan_ok_def udp_server_ok_def)

lemma udp_acceptor_invariant_witness:
  "[0] @ cn_buf (ua_incoming ex_udp_run) = [0..<ua_next ex_udp_run]
    \<and> length (cn_buf (ua_incoming ex_udp_run)) \<le> uo_MaxBacklog (ua_options ex_udp_run)
    \<and> distinct (map fst (ua_transports ex_udp_run)) \<and> us_raddr (ua_objs ex_udp_run 1) = 9
    \<and> length (cn_buf (us_receivedQueue (ua_objs ex_udp_run 1))) \<le> 128"
proof -
  have "(9, 1) \<in> set (ua_transports ex_udp_run)" "1 < ua_next ex_udp_run" by (simp_all add: ex_udp_defs)
  with udp_acceptor_invariant [OF ex_udp_reachable [unfolded ex_udp_def]] show ?thesis by blast
qed

text \<open>C32: in every state that can be reached, \<open>Read\<close> of an accepted server transport returns 0 bytes and \<open>EOF\<close> and
  changes nothing, whatever packets wait in its queue: the guard \<open>nil != u.recvPkt\<close> is the wrong way round, and no
  packet a peer sends is ever delivered.\<close>

theorem udp_Read_never_delivers:
  assumes "udp_step\<^sup>*\<^sup>* (udp_acceptor_new opts objs, []) (ua, acc)" and "i \<in> set acc"
  shows "udp_Read (ua_objs ua i) n = Done (ua_objs ua i, [], Some EOF)"
proof -
  have "us_recvPkt (ua_objs ua i) = None"
    using udp_inv_accepted [OF udp_reachable [OF assms(1)] assms(2)] by (simp add: udp_server_ok_def)
  then show ?thesis by (rule udp_Read_idle)
qed

lemma udp_Read_never_delivers_witness:
  "cn_buf (us_receivedQueue (ua_objs ex_udp_run 0)) = [[1, 2]]
    \<and> udp_Read (ua_objs ex_udp_run 0) 1500 = Done (ua_objs ex_udp_run 0, [], Some EOF)"
  using udp_Read_never_delivers [OF ex_udp_reachable [unfolded ex_udp_def], of 0 1500] by (simp add: ex_udp_defs)



text \<open>C34: one peer can stop the listener: after at most 129 more packets to a transport that stays open the main loop
  blocks in \<open>received\<close>, whatever other packets wait behind them (\<open>Read\<close> takes nothing out of the queue, so only closing
  that transport lets the loop go on).\<close>

theorem udp_peer_blocks_listener:
  assumes "udp_step\<^sup>*\<^sup>* (udp_acceptor_new opts objs, []) (ua, acc)"
    and "(a, i) \<in> set (ua_transports ua)" and "\<not> us_closed (ua_objs ua i)"
  shows "udp_mainLoop ua (replicate 129 (Packet a data pick) @ evs) = Blocks"
proof -
  have inv: "udp_inv (ua, acc)" by (rule udp_reachable [OF assms(1)])
  then have "map_of (ua_transports ua) a = Some i" using assms(2) by (auto simp: udp_inv_def)
  moreover have "udp_server_ok (ua_objs ua i)" using inv assms(2) by (auto simp: udp_inv_def)
  ultimately show ?thesis using assms(3) by (rule udp_flood) simp
qed

lemma udp_peer_blocks_listener_witness:
  "udp_mainLoop ex_udp_run (replicate 129 (Packet 9 [5] False) @ [Packet 7 [6] False]) = Blocks"
  by (rule udp_peer_blocks_listener [OF ex_udp_reachable [unfolded ex_udp_def], where i = 1]) (simp_all add: ex_udp_defs)

text \<open>\<open>received\<close> of a transport in good order: an open transport appends the packet at the end of its queue, or
  blocks when 128 packets wait; on a closed one the \<open>select\<close> may also pick the send, which panics on the closed
  channel.\<close>

lemma udp_received_outcomes:
  assumes "udp_server_ok u"
  shows "(\<not> us_closed u \<and> length (cn_buf (us_receivedQueue u)) < 128 \<longrightarrow>
      (\<exists>u'. udp_received u data pick = Done (u', True) \<and> udp_server_ok u'
        \<and> cn_buf (us_receivedQueue u') = cn_buf (us_receivedQueue u) @ [data]))
    \<and> (\<not> us_closed u \<and> 128 \<le> length (cn_buf (us_receivedQueue u)) \<longrightarrow> udp_received u data pick = Blocks)
    \<and> (us_closed u \<longrightarrow> udp_received u data True = Done (u, False) \<and> udp_received u data False = Panics)"
  unfolding udp_received_cases [OF assms] using assms by (auto simp: udp_server_ok_def chan_ok_def)

lemma udp_received_outcomes_witness:
  "let u = newUDPServerTransport (7 :: nat)\<lparr>us_closed := True, us_receivedQueue := \<lparr>cn_buf = [], cn_cap = 128, cn_closed = True\<rparr>\<rparr>
   in udp_received u [1] True = Done (u, False) \<and> udp_received u [1] False = Panics"
  using udp_received_outcomes [of "newUDPServerTransport (7 :: nat)\<lparr>us_closed := True,
    us_receivedQueue := \<lparr>cn_buf = [], cn_cap = 128, cn_closed = True\<rparr>\<rparr>" "[1]"]
  by (simp add: udp_server_ok_def chan_ok_def newUDPServerTransport_def make_chan_def)

text \<open>\<open>Writev\<close> sends one datagram per buffer, in order, stops at the first that fails, and returns the bytes sent
  until then together with that error; a negative count of a failing send is not added.  The server's \<open>Writev\<close> is the
  same on the shared socket.\<close>

lemma udp_Writev_counts:
  assumes "\<forall>p \<in> set ps. \<forall>s. wr s p = (tx s p, int (length p), None)"
  shows "udp_Writev wr s ps 0 = (foldl tx s ps, int (sum_list (map length ps)), None)
    \<and> udp_server_Writev (\<lambda>s a p. wr s p) u s ps = udp_Writev wr s ps 0
    \<and> (wr (foldl tx s ps) q = (s', k, Some e) \<longrightarrow>
        udp_Writev wr s (ps @ q # qs) 0 = (s', int (sum_list (map length ps)) + max 0 k, Some e))"
  using udp_Writev_sends [OF assms, of s "[]" 0] udp_Writev_sends [OF assms, of s "q # qs" 0]
  by (simp add: udp_server_Writev_def)

definition ex_send :: "bytes list \<Rightarrow> bytes \<Rightarrow> bytes list \<times> int \<times> err option" where
  "ex_send s p = (if length p < 3 then (s @ [p], int (length p), None) else (s, -1, Some ErrShortWrite))"

lemma udp_Writev_counts_witness:
  "udp_Writev ex_send [] [[1], [2, 3]] 0 = ([[1], [2, 3]], 3, None)
   \<and> udp_Writev ex_send [] ([[1], [2, 3]] @ [4, 5, 6] # [[7]]) 0 = ([[1], [2, 3]], 3, Some ErrShortWrite)"
  using udp_Writev_counts [of "[[1], [2, 3]]" ex_send "\<lambda>s p. s @ [p]" "[]" "newUDPServerTransport (0 :: nat)" "[4, 5, 6]" _ "-1" ErrShortWrite "[[7]]"]
  by (simp add: ex_send_def)

section \<open>kcp\<close>

text \<open>C39: \<open>Apply\<close> never panics: on every name of a cipher the key that it cuts from the 32 derived bytes has a length
  the constructor accepts.  Applying the options a second time, as \<open>WithOptions\<close> does with \<open>DefaultOptions\<close>, changes
  nothing; an unknown mode (\<open>manual\<close>) leaves the four timing parameters as they were.\<close>

theorem kcp_Apply_safe:
  assumes "\<And>k. length (kdf k) = 32" and "\<And>k key. valid_key k (length key) \<Longrightarrow> \<exists>b. mk k key = Inr b"
  shows "\<exists>o2. kcp_Apply kdf mk o1 = Some o2 \<and> kcp_Apply kdf mk o2 = Some o2
    \<and> (kcp_mode (to_lower (ko_Mode o1)) = None \<longrightarrow>
        ko_NoDelay o2 = ko_NoDelay o1 \<and> ko_Interval o2 = ko_Interval o1 \<and> ko_Resend o2 = ko_Resend o1
        \<and> ko_NoCongestion o2 = ko_NoCongestion o1)"
proof -
  from kcp_Apply_total [where kdf = kdf and mk = mk, OF assms] obtain o2 where o2: "kcp_Apply kdf mk o1 = Some o2" by blast
  obtain b where b: "o2 = (set_mode o1)\<lparr>ko_Block := b\<rparr>" using kcp_Apply_Some [OF o2] by blast
  have "kcp_mode (to_lower (ko_Mode o1)) = None \<longrightarrow> set_mode o1 = o1" by (simp add: set_mode_def)
  with b have "kcp_mode (to_lower (ko_Mode o1)) = None \<longrightarrow> o2 = o1\<lparr>ko_Block := b\<rparr>" by simp
  with o2 kcp_Apply_idem [OF o2] show ?thesis by auto
qed

definition ex_cipher :: "kcp_cipher \<Rightarrow> bytes \<Rightarrow> err + kcp_cipher \<times> bytes" where
  "ex_cipher k key = (if valid_key k (length key) then Inr (k, key) else Inl (ErrForeign 0))"

lemma kcp_Apply_safe_witness:
  "\<exists>o2. kcp_Apply (\<lambda>_. replicate 32 7) ex_cipher (kcp_defaults\<lparr>ko_Crypt := ''AES-192'', ko_Mode := ''manual''\<rparr>) = Some o2
    \<and> ko_Interval o2 = 30 \<and> ko_Block o2 = Some (AES, replicate 24 7)"
proof -
  let ?o = "kcp_defaults\<lparr>ko_Crypt := ''AES-192'', ko_Mode := ''manual''\<rparr>"
  have "map_option ko_Block (kcp_Apply (\<lambda>_. replicate 32 7) ex_cipher ?o) = Some (Some (AES, replicate 24 7))"
    "kcp_mode (to_lower (ko_Mode ?o)) = None" "ko_Interval ?o = 30"
    by code_simp+
  with kcp_Apply_safe [of "\<lambda>_. replicate 32 7" ex_cipher ?o] show ?thesis by (auto simp: ex_cipher_def)
qed

text \<open>Of the ciphers that the comment on \<open>Crypt\<close> names, \<open>aes\<close> alone is not handled: the options then have no block
  cipher, and sessions are in the clear.\<close>

lemma kcp_aes_in_the_clear:
  "kcp_Apply kdf mk (kcp_defaults\<lparr>ko_Crypt := ''aes''\<rparr>) = Some (kcp_defaults\<lparr>ko_Crypt := ''aes''\<rparr>)
    \<and> ko_Block (kcp_defaults\<lparr>ko_Crypt := ''aes''\<rparr>) = None
    \<and> list_all (\<lambda>c. kcp_crypt c \<noteq> None) [''aes-128'', ''aes-192'', ''salsa20'', ''blowfish'', ''twofish'', ''cast5'',
        ''3des'', ''tea'', ''xtea'', ''xor'', ''sm4'', ''none'']"
  by (simp add: kcp_Apply_def kcp_defaults_def set_mode_def kcp_mode_def kcp_crypt_def to_lower_def to_lower_char_def)

text \<open>However many \<open>Connect\<close>s succeed or fail (the address, the dial, or one of the three socket options), the open
  handles are those of the returned transports: a failing call closes the session it opened.\<close>

lemma kcp_Connect_no_leak:
  assumes "world_ok w" and "connector.connects (kcp_Connect fx def) es w = (w', ts)"
  shows "set (w_open w') = set (map kt_conn ts) \<union> set (w_open w)"
  using kcp.connects_balance [OF assms] by auto

definition ex_kcp_dial :: "kcp_sock \<Rightarrow> url \<times> unit kcp_options option \<times> (string \<Rightarrow> unit option \<Rightarrow> int \<Rightarrow> int \<Rightarrow> err option) \<times> kcp_sock" where
  "ex_kcp_dial s = (\<lparr>u_Scheme = ''kcp'', u_Host = ''h'', u_Path = []\<rparr>, None, (\<lambda>_ _ _ _. None), s)"

definition ex_sock :: "err option \<Rightarrow> kcp_sock" where
  "ex_sock e = \<lparr>ks_SetDSCP = (\<lambda>_. None), ks_SetReadBuffer = (\<lambda>_. e), ks_SetWriteBuffer = (\<lambda>_. None)\<rparr>"

definition ex_kcp_connects :: "world \<times> kcp_transport list" where
  "ex_kcp_connects = connector.connects (kcp_Connect (\<lambda>_ u. Inr u) kcp_defaults)
     [ex_kcp_dial (ex_sock None), ex_kcp_dial (ex_sock (Some EOF))] \<lparr>w_open = [], w_next = 0\<rparr>"

lemma kcp_Connect_no_leak_witness:
  "set (w_open (fst ex_kcp_connects)) = {0} \<and> map kt_conn (snd ex_kcp_connects) = [0]"
proof -
  let ?c = "kcp_Connect (\<lambda>_ u. Inr u) kcp_defaults"
  have 1: "?c (ex_kcp_dial (ex_sock None)) \<lparr>w_open = [], w_next = 0\<rparr>
      = (\<lparr>w_open = [0], w_next = Suc 0\<rparr>, Inr \<lparr>kt_conn = 0, kt_client = True\<rparr>)"
    by (simp add: kcp_Connect_def ex_kcp_dial_def ex_sock_def kcp_wrap_def newKcpTransport_def socket_setup_def
        open_handle_def Let_def)
  have 2: "?c (ex_kcp_dial (ex_sock (Some EOF))) \<lparr>w_open = [0], w_next = Suc 0\<rparr> = (\<lparr>w_open = [0], w_next = 2\<rparr>, Inl EOF)"
    by (simp add: kcp_Connect_def ex_kcp_dial_def ex_sock_def kcp_wrap_def newKcpTransport_def socket_setup_def
        open_handle_def close_handle_def Let_def)
  have "snd ex_kcp_connects = [\<lparr>kt_conn = 0, kt_client = True\<rparr>]"
    by (simp add: ex_kcp_connects_def kcp.connects.simps 1 2)
  moreover have "set (w_open (fst ex_kcp_connects)) = set (map kt_conn (snd ex_kcp_connects)) \<union> set (w_open \<lparr>w_open = [], w_next = 0\<rparr>)"
    by (rule kcp_Connect_no_leak [where w = "\<lparr>w_open = [], w_next = 0\<rparr>" and es = "[ex_kcp_dial (ex_sock None), ex_kcp_dial (ex_sock (Some EOF))]"])
      (simp_all add: world_ok_def ex_kcp_connects_def)
  ultimately show ?thesis by simp
qed

section \<open>quic\<close>

text \<open>C40: \<open>Conn.Close\<close> gives back the stream alone: of the three handles that \<open>Dial\<close> opened, the session and the UDP
  socket stay open for good.\<close>

theorem quick_Close_leaves_session:
  assumes "world_ok w" and "quick_Dial addr tls cfg E w = (w', Inr c)"
  shows "w_open (quick_Close c w') = [qc_qconn c, qc_conn c] @ w_open w \<and> qc_qconn c \<noteq> qc_conn c
    \<and> qc_qconn c \<notin> set (w_open w) \<and> qc_conn c \<notin> set (w_open w)"
  using quick_Close_keeps [OF assms] quick_Dial_opens [OF assms] by (auto simp: world_ok_def)

definition ex_quic :: "err option \<Rightarrow> err option \<Rightarrow> (unit, unit) quick_env" where
  "ex_quic dial stream = \<lparr>qe_resolve = (\<lambda>_. None), qe_listen_udp = None, qe_dial = (\<lambda>_ _. dial), qe_open_stream = stream\<rparr>"

lemma quick_Close_leaves_session_witness:
  "\<exists>w' c. quick_Dial ''h'' None None (ex_quic None None) \<lparr>w_open = [], w_next = 0\<rparr> = (w', Inr c)
    \<and> w_open (quick_Close c w') = [1, 0]"
proof -
  let ?w = "\<lparr>w_open = [2, 1, 0], w_next = 3\<rparr>" and ?c = "\<lparr>qc_conn = 0, qc_qconn = 1, qc_stream = Some 2\<rparr>"
  have d: "quick_Dial ''h'' None None (ex_quic None None) \<lparr>w_open = [], w_next = 0\<rparr> = (?w, Inr ?c)"
    by (simp add: quick_Dial_def ex_quic_def open_handle_def)
  from quick_Close_leaves_session [OF _ d] have "w_open (quick_Close ?c ?w) = [1, 0]" by (simp add: world_ok_def)
  with d show ?thesis by blast
qed

text \<open>How many handles a \<open>Connect\<close> leaves behind: none if the address or the UDP socket fails, the socket if the
  session cannot be dialled, socket and session if the stream cannot be opened, and the three of the transport
  otherwise: each later failure forgets what was opened before it.\<close>

lemma quic_Connect_handles:
  "case quic_Connect fx (addr, ctx, E) w of (w', r) \<Rightarrow>
    length (w_open w') = length (w_open w) +
      (case fx quic_Schemes addr of
         Inl _ \<Rightarrow> 0
       | Inr addr \<Rightarrow>
           if qe_resolve E (u_Host addr) = None \<and> qe_listen_udp E = None then
             if qe_dial E (co_TLS (quic_FromContext ctx quic_DefaultOptions))
                  (co_Config (quic_FromContext ctx quic_DefaultOptions)) = None
             then (if qe_open_stream E = None then 3 else 2) else 1
           else 0)"
  by (auto simp: quic_Connect_def quick_Dial_def quic_wrap_def newQuicTransport_def open_handle_def Let_def
      split: sum.splits option.splits prod.splits)

text \<open>The connections that one listener accepts share its UDP socket, so a deadline set on one of them is a
  deadline of all of them.\<close>

lemma quick_deadline_shared:
  assumes "quick_Accept l a w = (w1, Inr c1)" and "quick_Accept l b w2 = (w3, Inr c2)"
  shows "ss_read_deadline (quick_SetDeadline c1 t sk (qc_conn c2)) = t
    \<and> ss_write_deadline (quick_SetDeadline c1 t sk (qc_conn c2)) = t"
  using assms by (auto simp: quick_Accept_def quick_SetDeadline_def open_handle_def split: prod.splits option.splits)

lemma quick_deadline_shared_witness:
  "\<exists>c1 c2 :: quick_conn. qc_qconn c1 \<noteq> qc_qconn c2 \<and> ss_read_deadline (quick_SetDeadline c1 9
      (\<lambda>_. \<lparr>ss_read_deadline = 0, ss_write_deadline = 0, ss_read_buffer = 0, ss_write_buffer = 0\<rparr>) (qc_conn c2)) = 9"
proof -
  let ?l = "\<lparr>ql_conn = 0, ql_quicServer = 1\<rparr>"
  have 1: "quick_Accept ?l (None, None) \<lparr>w_open = [1, 0], w_next = 2\<rparr>
      = (\<lparr>w_open = [3, 2, 1, 0], w_next = 4\<rparr>, Inr \<lparr>qc_conn = 0, qc_qconn = 2, qc_stream = Some 3\<rparr>)"
    by (simp add: quick_Accept_def open_handle_def)
  have 2: "quick_Accept ?l (None, None) \<lparr>w_open = [3, 2, 1, 0], w_next = 4\<rparr>
      = (\<lparr>w_open = [5, 4, 3, 2, 1, 0], w_next = 6\<rparr>, Inr \<lparr>qc_conn = 0, qc_qconn = 4, qc_stream = Some 5\<rparr>)"
    by (simp add: quick_Accept_def open_handle_def)
  let ?c1 = "\<lparr>qc_conn = 0, qc_qconn = 2, qc_stream = Some 3\<rparr>" and ?c2 = "\<lparr>qc_conn = 0, qc_qconn = 4, qc_stream = Some 5\<rparr>"
  have "qc_qconn ?c1 \<noteq> qc_qconn ?c2 \<and> ss_read_deadline (quick_SetDeadline ?c1 9
      (\<lambda>_. \<lparr>ss_read_deadline = 0, ss_write_deadline = 0, ss_read_buffer = 0, ss_write_buffer = 0\<rparr>) (qc_conn ?c2)) = 9"
    using quick_deadline_shared [OF 1 2, of 9, THEN conjunct1] by simp
  then show ?thesis by blast
qed

section \<open>tls, and the acceptors after Close\<close>

text \<open>However many \<open>Connect\<close>s of the package \<open>tls\<close> succeed or fail, the open handles are those of the transports
  that were returned.\<close>

lemma tls_Connect_no_leak:
  assumes "world_ok w" and "connector.connects (tls_Connect fx) es w = (w', ts)"
  shows "set (w_open w') = set (map tt_conn ts) \<union> set (w_open w)"
  using tls.connects_balance [OF assms] by auto

definition ex_tls_dial :: "err option \<Rightarrow> url \<times> unit cert_options option \<times> (string \<Rightarrow> string \<Rightarrow> unit list option \<Rightarrow> err option)" where
  "ex_tls_dial e = (\<lparr>u_Scheme = ''tcp'', u_Host = ''h'', u_Path = []\<rparr>, None, (\<lambda>_ _ _. e))"

definition ex_tls_connects :: "world \<times> tls_transport list" where
  "ex_tls_connects = connector.connects (tls_Connect (\<lambda>_ u. Inr u))
     [ex_tls_dial (Some EOF), ex_tls_dial None] \<lparr>w_open = [5], w_next = 6\<rparr>"

lemma tls_Connect_no_leak_witness:
  "set (w_open (fst ex_tls_connects)) = set (map tt_conn (snd ex_tls_connects)) \<union> {5}
    \<and> map tt_conn (snd ex_tls_connects) = [6]"
proof -
  let ?c = "tls_Connect (\<lambda>_ u. Inr u)" and ?w = "\<lparr>w_open = [5], w_next = 6\<rparr>"
  have 1: "?c (ex_tls_dial (Some EOF)) ?w = (?w, Inl EOF)"
    by (simp add: tls_Connect_def ex_tls_dial_def Let_def)
  have 2: "\<exists>w' t. ?c (ex_tls_dial None) ?w = (w', Inr t) \<and> tt_conn t = 6"
    by (simp add: tls_Connect_def ex_tls_dial_def tls_wrap_def newTlsTransport_def open_handle_def Let_def)
  then have "map tt_conn (snd ex_tls_connects) = [6]" by (auto simp: ex_tls_connects_def tls.connects.simps 1)
  moreover have "set (w_open (fst ex_tls_connects)) = set (map tt_conn (snd ex_tls_connects)) \<union> set (w_open ?w)"
    by (rule tls_Connect_no_leak [where w = ?w and es = "[ex_tls_dial (Some EOF), ex_tls_dial None]"])
      (simp_all add: world_ok_def ex_tls_connects_def)
  ultimately show ?thesis by simp
qed

text \<open>After \<open>Close\<close> the acceptor of \<open>tls\<close> answers \<open>Accept\<close> with an error and a second \<open>Close\<close> does nothing, and the
  listener's handle is gone; the acceptors of \<open>kcp\<close> and \<open>quic\<close>, closed in the same way, panic in \<open>Accept\<close>, because
  they call it on the \<open>nil\<close> listener.\<close>

lemma Accept_after_Close:
  "tls_Accept (fst (tls_Close e ta w)) accept w' = (w', Inl (Errorf ''no listener''))
    \<and> (case tls_Close e ta w of (ta', w1, _) \<Rightarrow> tls_Close e' ta' w1 = (ta', w1, None)
        \<and> set_option (ta_listener ta) \<inter> set (w_open w1) = {})
    \<and> kcp_Accept (fst (kcp_Close e ka w)) a w' = Panics
    \<and> quic_Accept (fst (quic_Close e qa w)) b w' = Panics"
  by (auto simp: tls_Accept_def tls_Close_def kcp_Accept_def kcp_Close_def quic_Accept_def quic_Close_def close_handle_def
      split: option.splits)

end
