(* ===== verification/WsAcceptor.thy ===== *)
theory WsAcceptor
  imports WsLifecycle World
begin

text \<open>
  \<open>websocket/factory.go\<close> and \<open>websocket/upgrader.go\<close>: dialling, listening, the acceptor that the HTTP handler
  feeds through a channel, and \<open>HTTPUpgrader\<close>.

  \<open>net.Listen\<close>, \<open>net/http\<close> and the handshakes of \<open>gobwas/ws\<close> are parameters: each answers with an error or with a
  connection, which is one handle of the world.  A handshake may hand over a buffered reader with bytes that the peer
  sent right behind it (\<open>br\<close>).
\<close>

section \<open>Connections from handshakes\<close>

record handshake =
  hk_net :: net_conn
  hk_conn :: conn
  hk_br :: bytes
  hk_hs :: "ext_option list"
  hk_header :: "(string \<times> string list) list"

text \<open>What \<open>newWebsocketTransport\<close> shares with the rest of the program.\<close>

record ('c, 'd) ws_env =
  we_flate :: "'d flate_store"
  we_writers :: "'c writer_store"
  we_rand :: "nat \<Rightarrow> mask"
  we_pool :: "nat \<Rightarrow> bytes"

definition ws_make ::
    "('x, 'cw) ws_lib \<Rightarrow> 'd dec \<Rightarrow> 'c flate_lib \<Rightarrow> ('c, 'd) ws_env \<Rightarrow> ('cert, 'c) ws_options \<Rightarrow> bool \<Rightarrow> request
      \<Rightarrow> net_conn \<Rightarrow> conn \<Rightarrow> ext_option list \<Rightarrow> (err + ('cert, 'c, 'd, 'x) ws_transport) option" where
  "ws_make L D F E opts client req nc c hs =
     newWebsocketTransport L D F nc opts client req hs c (we_flate E) (we_writers E) (we_rand E) (we_pool E)"

text \<open>The connection is closed if no transport can be made of it.\<close>

definition ws_wrap :: "(err + 't) option \<Rightarrow> world \<times> nat \<Rightarrow> (world \<times> (err + nat \<times> 't)) outcome" where
  "ws_wrap mk = (\<lambda>(w, h).
     case mk of
       None \<Rightarrow> Panics
     | Some (Inl e) \<Rightarrow> Done (close_handle h w, Inl e)
     | Some (Inr t) \<Rightarrow> Done (w, Inr (h, t)))"

section \<open>Connect\<close>

definition ws_Schemes :: "string list" where
  "ws_Schemes = [''ws'', ''wss'']"

definition ws_Connect ::
    "('x, 'cw) ws_lib \<Rightarrow> 'd dec \<Rightarrow> 'c flate_lib \<Rightarrow> ('c, 'd) ws_env \<Rightarrow> fix_scheme \<Rightarrow> ('cert, 'c) ws_options
      \<Rightarrow> url \<Rightarrow> ('cert, 'c) ws_options option \<Rightarrow> (url \<Rightarrow> ('cert, 'c) ws_options \<Rightarrow> err + handshake)
      \<Rightarrow> world \<Rightarrow> (world \<times> (err + nat \<times> ('cert, 'c, 'd, 'x) ws_transport)) outcome" where
  "ws_Connect L D F E fx def addr ctx dial w =
     (case fx ws_Schemes addr of
        Inl e \<Rightarrow> Done (w, Inl e)
      | Inr addr \<Rightarrow>
          (let opts = FromContext ctx def
           in case dial addr opts of
                Inl e \<Rightarrow> Done (w, Inl e)
              | Inr h \<Rightarrow>
                  ws_wrap (ws_make L D F E opts True \<lparr>rq_Path = u_Path addr, rq_Header = hk_header h\<rparr>
                    (hk_net h) (hk_conn h) (hk_hs h)) (open_handle w)))"

section \<open>Listen\<close>

record accept_event =
  ae_handle :: nat
  ae_net :: net_conn
  ae_conn :: conn
  ae_request :: request
  ae_hs :: "ext_option list"

record ('cert, 'c) ws_acceptor =
  wa_wsOptions :: "('cert, 'c) ws_options"
  wa_incoming :: "accept_event chan"
  wa_closed :: bool
  wa_listener :: nat

definition ws_backlog :: "int \<Rightarrow> nat" where
  "ws_backlog n = nat (if n < 64 then 64 else n)"

text \<open>\<open>ServeMux.HandleFunc\<close> panics on an empty pattern and on one that is registered already.\<close>

fun ws_register :: "string list \<Rightarrow> string list \<Rightarrow> string list outcome" where
  "ws_register mux [] = Done mux"
| "ws_register mux (r # rs) = (if r = [] \<or> r \<in> set mux then Panics else ws_register (r # mux) rs)"

definition ws_routers :: "('cert, 'c) ws_options \<Rightarrow> url \<Rightarrow> string list" where
  "ws_routers opts addr = (if 0 < length (o_Routers opts) then o_Routers opts else [u_Path addr])"

text \<open>
  \<open>listen\<close> is the error of \<open>net.Listen\<close>, \<open>serve\<close> the error that \<open>Serve\<close> or \<open>ServeTLS\<close> returns within the second that
  \<open>Listen\<close> waits, if any, and whether the listener was closed on the way: \<open>Serve\<close> closes it when it returns,
  \<open>ServeTLS\<close> returns earlier and leaves it open when the configuration has no certificate.
\<close>

definition ws_Listen ::
    "fix_scheme \<Rightarrow> ('cert, 'c) ws_options \<Rightarrow> url \<Rightarrow> ('cert, 'c) ws_options option \<Rightarrow> err option \<Rightarrow> (err \<times> bool) option
      \<Rightarrow> string list \<Rightarrow> world \<Rightarrow> (string list \<times> world \<times> (err + ('cert, 'c) ws_acceptor)) outcome" where
  "ws_Listen fx def addr ctx listen serve mux w =
     (case fx ws_Schemes addr of
        Inl e \<Rightarrow> Done (mux, w, Inl e)
      | Inr addr \<Rightarrow>
          (case listen of
             Some e \<Rightarrow> Done (mux, w, Inl e)
           | None \<Rightarrow>
               (case open_handle w of (w, l) \<Rightarrow>
                 let opts = FromContext ctx def
                 in obind (ws_register mux (ws_routers opts addr)) (\<lambda>mux.
                      case serve of
                        Some (e, shut) \<Rightarrow> Done (mux, if shut then close_handle l w else w, Inl e)
                      | None \<Rightarrow> Done (mux, w, Inr \<lparr>wa_wsOptions = opts,
                          wa_incoming = make_chan (ws_backlog (o_Backlog opts)), wa_closed = False, wa_listener = l\<rparr>)))))"

section \<open>The acceptor\<close>

text \<open>The answer of \<open>Upgrade\<close>: an error, with or without a connection to close, or a connection.\<close>

datatype upgrade = UpgradeFailed err bool | Upgraded handshake

definition ws_upgradeHTTP ::
    "request \<Rightarrow> upgrade \<Rightarrow> bool \<Rightarrow> ('cert, 'c) ws_acceptor \<times> world \<Rightarrow> (('cert, 'c) ws_acceptor \<times> world) outcome" where
  "ws_upgradeHTTP req ans pick = (\<lambda>(wa, w).
     case ans of
       UpgradeFailed e with_conn \<Rightarrow>
         Done (wa, if with_conn then (case open_handle w of (w, h) \<Rightarrow> close_handle h w) else w)
     | Upgraded k \<Rightarrow>
         (case open_handle w of (w, h) \<Rightarrow>
           let send = chan_send (wa_incoming wa)
                 \<lparr>ae_handle = h, ae_net = hk_net k, ae_conn = hk_conn k, ae_request = req, ae_hs = hk_hs k\<rparr>
           in if wa_closed wa \<and> (pick \<or> send = Blocks) then Done (wa, close_handle h w)
              else obind send (\<lambda>c. Done (wa\<lparr>wa_incoming := c\<rparr>, w))))"

fun ws_drain :: "accept_event list \<Rightarrow> world \<Rightarrow> world" where
  "ws_drain [] w = w"
| "ws_drain (ev # evs) w = ws_drain evs (close_handle (ae_handle ev) w)"

definition ws_Accept ::
    "(accept_event \<Rightarrow> (err + 't) option) \<Rightarrow> bool \<Rightarrow> ('cert, 'c) ws_acceptor \<times> world
      \<Rightarrow> (('cert, 'c) ws_acceptor \<times> world \<times> (err + nat \<times> 't)) outcome" where
  "ws_Accept mk pick = (\<lambda>(wa, w).
     case (wa_closed wa \<and> pick, chan_get (wa_incoming wa)) of
       (False, Some (ev, c)) \<Rightarrow>
         obind (ws_wrap (mk ev) (w, ae_handle ev)) (\<lambda>(w, r). Done (wa\<lparr>wa_incoming := c\<rparr>, w, r))
     | _ \<Rightarrow>
         if wa_closed wa then
           Done (wa\<lparr>wa_incoming := (wa_incoming wa)\<lparr>cn_buf := []\<rparr>\<rparr>, ws_drain (cn_buf (wa_incoming wa)) w,
             Inl (Errorf ''ws acceptor closed''))
         else Blocks)"

text \<open>How the acceptor makes a transport of an event: as the server, with its options.\<close>

definition ws_accept_make ::
    "('x, 'cw) ws_lib \<Rightarrow> 'd dec \<Rightarrow> 'c flate_lib \<Rightarrow> ('c, 'd) ws_env \<Rightarrow> ('cert, 'c) ws_acceptor
      \<Rightarrow> accept_event \<Rightarrow> (err + ('cert, 'c, 'd, 'x) ws_transport) option" where
  "ws_accept_make L D F E wa ev =
     ws_make L D F E (wa_wsOptions wa) False (ae_request ev) (ae_net ev) (ae_conn ev) (ae_hs ev)"

text \<open>\<open>Close\<close>, with the error of \<open>http.Server.Close\<close>, which closes the listener.\<close>

definition ws_acceptor_Close ::
    "err option \<Rightarrow> ('cert, 'c) ws_acceptor \<times> world \<Rightarrow> ('cert, 'c) ws_acceptor \<times> world \<times> err option" where
  "ws_acceptor_Close e = (\<lambda>(wa, w).
     if wa_closed wa then (wa, w, None)
     else (wa\<lparr>wa_closed := True\<rparr>, close_handle (wa_listener wa) w, e))"

section \<open>HTTPUpgrader\<close>

record ('cert, 'c) http_upgrader =
  hu_options :: "('cert, 'c) ws_options"
  hu_Negotiate :: "negotiate option"

text \<open>\<open>parsed\<close> is the context value after \<open>transport.ParseOptions\<close>, \<^term>\<open>None\<close> if that fails (a panic).\<close>

definition NewHTTPUpgrader ::
    "('cert, 'c) ws_options option option \<Rightarrow> ('cert, 'c) ws_options \<Rightarrow> ('cert, 'c) http_upgrader option" where
  "NewHTTPUpgrader parsed def =
     (case parsed of
        None \<Rightarrow> None
      | Some ctx \<Rightarrow>
          (let o1 = FromContext ctx def;
               o2 = (if o_CompressEnabled o1 \<and> o_Negotiate o1 = None then o1\<lparr>o_Negotiate := Some DefaultNegotiate\<rparr> else o1)
           in Some \<lparr>hu_options = o2, hu_Negotiate = o_Negotiate o2\<rparr>))"

text \<open>
  \<open>ups\<close> is \<open>Upgrade\<close> of \<open>ws.HTTPUpgrader\<close>, which the copied \<open>Negotiate\<close> configures; \<open>serve\<close> is the \<open>ServeChannel\<close> of
  go-netty's bootstrap, with the context and the attachment of the upgrader: it gets the transport and answers with a channel.
\<close>

definition HTTPUpgrader_Upgrade ::
    "('x, 'cw) ws_lib \<Rightarrow> 'd dec \<Rightarrow> 'c flate_lib \<Rightarrow> ('c, 'd) ws_env
      \<Rightarrow> (nat \<times> ('cert, 'c, 'd, 'x) ws_transport \<Rightarrow> world \<Rightarrow> world \<times> 'ch) \<Rightarrow> ('cert, 'c) http_upgrader
      \<Rightarrow> (negotiate option \<Rightarrow> request \<Rightarrow> upgrade) \<Rightarrow> request \<Rightarrow> world \<Rightarrow> (world \<times> (err + 'ch)) outcome" where
  "HTTPUpgrader_Upgrade L D F E serve hu ups req w =
     (case ups (hu_Negotiate hu) req of
        UpgradeFailed e with_conn \<Rightarrow>
          Done (if with_conn then (case open_handle w of (w, h) \<Rightarrow> close_handle h w) else w, Inl e)
      | Upgraded k \<Rightarrow>
          obind (ws_wrap (ws_make L D F E (hu_options hu) False req (hk_net k) (hk_conn k) (hk_hs k)) (open_handle w)) (\<lambda>(w, r).
            case r of
              Inl e \<Rightarrow> Done (w, Inl e)
            | Inr t \<Rightarrow> (case serve t w of (w, ch) \<Rightarrow> Done (w, Inr ch))))"

section \<open>The acceptor and its handlers together\<close>

text \<open>
  A state: the acceptor, the world, and the handles of the connections that \<open>Accept\<close> has returned and nobody has
  closed.  Handlers, acceptor and the owners of accepted connections act in any order.
\<close>

inductive ws_step ::
    "(accept_event \<Rightarrow> (err + 't) option) \<Rightarrow> ('cert, 'c) ws_acceptor \<times> world \<times> nat list
      \<Rightarrow> ('cert, 'c) ws_acceptor \<times> world \<times> nat list \<Rightarrow> bool" for mk where
  ws_upgrade: "ws_upgradeHTTP req ans pick (wa, w) = Done (wa', w') \<Longrightarrow> ws_step mk (wa, w, acc) (wa', w', acc)"
| ws_accept: "ws_Accept mk pick (wa, w) = Done (wa', w', Inr (h, t)) \<Longrightarrow> ws_step mk (wa, w, acc) (wa', w', h # acc)"
| ws_accept_error: "ws_Accept mk pick (wa, w) = Done (wa', w', Inl e) \<Longrightarrow> ws_step mk (wa, w, acc) (wa', w', acc)"
| ws_close: "ws_acceptor_Close e0 (wa, w) = (wa', w', e) \<Longrightarrow> ws_step mk (wa, w, acc) (wa', w', acc)"
| ws_close_conn: "h \<in> set acc \<Longrightarrow> ws_step mk (wa, w, acc) (wa, close_handle h w, removeAll h acc)"

definition queued :: "('cert, 'c) ws_acceptor \<Rightarrow> nat list" where
  "queued wa = map ae_handle (cn_buf (wa_incoming wa))"

definition ws_inv :: "('cert, 'c) ws_acceptor \<times> world \<times> nat list \<Rightarrow> bool" where
  "ws_inv = (\<lambda>(wa, w, acc).
     world_ok w \<and> chan_ok (wa_incoming wa) \<and> \<not> cn_closed (wa_incoming wa) \<and> wa_listener wa < w_next w
     \<and> distinct (wa_listener wa # acc @ queued wa) \<and> (\<forall>h \<in> set (acc @ queued wa). h < w_next w)
     \<and> set (w_open w) = set acc \<union> set (queued wa) \<union> (if wa_closed wa then {} else {wa_listener wa}))"

lemma ws_register_Done: "ws_register mux rs = Done mux' \<Longrightarrow> set mux \<union> set rs \<subseteq> set mux'"
proof (induction rs arbitrary: mux)
  case (Cons r rs)
  then have "set (r # mux) \<union> set rs \<subseteq> set mux'" by (intro Cons.IH) (simp split: if_splits)
  then show ?case by auto
qed simp

lemma ws_register_again: "ws_register mux rs = Done mux' \<Longrightarrow> rs \<noteq> [] \<Longrightarrow> ws_register mux' rs = Panics"
  using ws_register_Done [of mux rs mux'] by (cases rs) auto

lemma ws_drain_open:
  "world_ok w \<Longrightarrow> world_ok (ws_drain evs w) \<and> set (w_open (ws_drain evs w)) = set (w_open w) - ae_handle ` set evs
     \<and> w_next (ws_drain evs w) = w_next w"
  by (induction evs arbitrary: w) (auto simp: close_handle_ok, auto simp: close_handle_def)

lemma open_handle_next: "open_handle w = (w', h) \<Longrightarrow> h = w_next w \<and> w_next w' = Suc (w_next w)"
  by (auto simp: open_handle_def)

lemma close_handle_open [simp]: "set (w_open (close_handle h w)) = set (w_open w) - {h}" "w_next (close_handle h w) = w_next w"
  by (auto simp: close_handle_def)

lemma ws_upgrade_inv:
  assumes "ws_upgradeHTTP req ans pick (wa, w) = Done (wa', w')" and inv: "ws_inv (wa, w, acc)"
  shows "ws_inv (wa', w', acc)"
proof -
  obtain w1 h where o: "open_handle w = (w1, h)" by force
  have w: "world_ok w" using inv by (simp add: ws_inv_def)
  note o1 = open_handle_ok [OF w o] open_handle_next [OF o] close_opened [OF w o]
  have fresh: "h \<notin> set acc" "h \<notin> set (queued wa)" "h \<noteq> wa_listener wa" using inv o1 by (auto simp: ws_inv_def)
  have undone: "ws_inv (wa, close_handle h w1, acc)"
    using inv o1 by (auto simp: ws_inv_def close_handle_ok less_Suc_eq)
  consider (failed) e b where "ans = UpgradeFailed e b" | (closed) k where "ans = Upgraded k" "wa' = wa" "w' = close_handle h w1"
    | (sent) k c where "ans = Upgraded k" "w' = w1" "wa' = wa\<lparr>wa_incoming := c\<rparr>"
        "chan_send (wa_incoming wa) \<lparr>ae_handle = h, ae_net = hk_net k, ae_conn = hk_conn k, ae_request = req, ae_hs = hk_hs k\<rparr>
          = Done c"
    using assms(1) by (cases ans) (auto simp: ws_upgradeHTTP_def o Let_def obind_Done split: if_splits)
  then show ?thesis
  proof cases
    case failed
    then have "wa' = wa" "w' = (if b then close_handle h w1 else w)" using assms(1) by (auto simp: ws_upgradeHTTP_def o)
    then show ?thesis using inv undone by simp
  next
    case closed
    then show ?thesis using undone by simp
  next
    case sent
    then have c: "queued wa' = queued wa @ [h]" "chan_ok c" "\<not> cn_closed c"
      using chan_ok_send [OF _ sent(4)] inv by (auto simp: queued_def ws_inv_def chan_send_def split: if_splits)
    have n: "wa_listener wa' = wa_listener wa" "wa_incoming wa' = c" "wa_closed wa' = wa_closed wa" by (simp_all add: sent)
    show ?thesis using inv o1 c n fresh by (auto simp: ws_inv_def sent(2) less_Suc_eq)
  qed
qed

lemma ws_Accept_cases:
  assumes "ws_Accept mk pick (wa, w) = Done (wa', w', r)"
  obtains (drained) "wa_closed wa" "wa' = wa\<lparr>wa_incoming := (wa_incoming wa)\<lparr>cn_buf := []\<rparr>\<rparr>"
      "w' = ws_drain (cn_buf (wa_incoming wa)) w" "r = Inl (Errorf ''ws acceptor closed'')"
  | (taken) ev c where "chan_get (wa_incoming wa) = Some (ev, c)" "wa' = wa\<lparr>wa_incoming := c\<rparr>"
      "(\<exists>t. r = Inr (ae_handle ev, t) \<and> w' = w) \<or> (\<exists>e. r = Inl e \<and> w' = close_handle (ae_handle ev) w)"
  using assms
  by (cases "wa_closed wa \<and> pick"; cases "chan_get (wa_incoming wa)")
    (auto simp: ws_Accept_def ws_wrap_def obind_Done split: if_splits option.splits sum.splits)

lemma ws_Accept_inv:
  assumes "ws_Accept mk pick (wa, w) = Done (wa', w', r)" and inv: "ws_inv (wa, w, acc)"
  shows "ws_inv (wa', w', (case r of Inr (h, t) \<Rightarrow> h # acc | Inl e \<Rightarrow> acc))"
  using assms(1)
proof (cases rule: ws_Accept_cases)
  case drained
  have w: "world_ok w" using inv by (simp add: ws_inv_def)
  have q: "queued wa' = []" "ae_handle ` set (cn_buf (wa_incoming wa)) = set (queued wa)"
    "wa_listener wa' = wa_listener wa" "wa_closed wa' = wa_closed wa" "chan_ok (wa_incoming wa')" "\<not> cn_closed (wa_incoming wa')"
    using inv by (auto simp: drained(2) queued_def chan_ok_def ws_inv_def)
  have d: "set acc \<inter> set (queued wa) = {}" "wa_listener wa \<notin> set (queued wa)" using inv by (auto simp: ws_inv_def)
  from ws_drain_open [OF w] have w': "world_ok w'" "set (w_open w') = set (w_open w) - set (queued wa)" "w_next w' = w_next w"
    by (simp_all add: drained(3) q(2))
  from d w' q inv show ?thesis unfolding drained(4) by (auto simp: ws_inv_def)
next
  case (taken ev c)
  note g = ch.get_items [OF taken(1)]
  have q: "queued wa = ae_handle ev # queued wa'" "wa_listener wa' = wa_listener wa" "wa_closed wa' = wa_closed wa"
    "chan_ok (wa_incoming wa')" "\<not> cn_closed (wa_incoming wa')"
    using g inv by (auto simp: queued_def taken(2) ws_inv_def chan_ok_def)
  from taken(3) show ?thesis
  proof
    assume "\<exists>t. r = Inr (ae_handle ev, t) \<and> w' = w"
    then show ?thesis using inv q by (auto simp: ws_inv_def)
  next
    assume "\<exists>e. r = Inl e \<and> w' = close_handle (ae_handle ev) w"
    then show ?thesis using inv q by (auto simp: ws_inv_def close_handle_ok)
  qed
qed

lemma ws_step_inv: "ws_step mk s s' \<Longrightarrow> ws_inv s \<Longrightarrow> ws_inv s'"
proof (induction rule: ws_step.induct)
  case (ws_upgrade req ans pick wa w wa' w' acc)
  then show ?case by (rule ws_upgrade_inv)
next
  case (ws_accept pick wa w wa' w' h t acc)
  then show ?case using ws_Accept_inv by fastforce
next
  case (ws_accept_error pick wa w wa' w' e acc)
  then show ?case using ws_Accept_inv by fastforce
next
  case (ws_close e0 wa w wa' w' e acc)
  then show ?case
    by (auto simp: ws_acceptor_Close_def ws_inv_def queued_def close_handle_ok split: if_splits)
next
  case (ws_close_conn h acc wa w)
  then show ?case by (auto simp: ws_inv_def close_handle_ok distinct_removeAll)
qed

lemma ws_Listen_inv:
  assumes "ws_Listen fx def addr ctx listen serve mux w = Done (mux', w', Inr wa)" and "world_ok w" and "w_open w = []"
  shows "ws_inv (wa, w', [])"
proof -
  obtain w1 l where o: "open_handle w = (w1, l)" by force
  have "w' = w1 \<and> wa_listener wa = l \<and> \<not> wa_closed wa \<and> (\<exists>n. wa_incoming wa = make_chan n)"
    using assms(1) by (auto simp: ws_Listen_def o obind_Done Let_def split: sum.splits option.splits)
  with open_handle_ok [OF assms(2) o] open_handle_next [OF o] assms(3) show ?thesis
    by (auto simp: ws_inv_def queued_def make_chan_def chan_ok_def)
qed

lemma ws_reachable:
  assumes "ws_inv s" and "(ws_step mk)\<^sup>*\<^sup>* s s'"
  shows "ws_inv s'"
  using assms(2,1) by (induction rule: rtranclp_induct) (auto intro: ws_step_inv)

end
