(* ===== verification/AcceptorProperties.thy ===== *)
theory AcceptorProperties
  imports WsAcceptor Examples
begin

text \<open>
  The properties of the factory, the acceptor and the upgrader of the package \<open>websocket\<close>: no connection is lost or
  closed twice, what \<open>Close\<close> does, and where the code gives a connection up without closing it.
\<close>

section \<open>The acceptor\<close>

definition ex_addr :: url where
  "ex_addr = \<lparr>u_Scheme = ''ws'', u_Host = ''h'', u_Path = ''/chat''\<rparr>"

definition ex_hk :: handshake where
  "ex_hk = \<lparr>hk_net = OtherConn, hk_conn = ex_conn [], hk_br = [], hk_hs = [], hk_header = []\<rparr>"

definition ex_world :: world where
  "ex_world = \<lparr>w_open = [], w_next = 0\<rparr>"

definition ex_wa :: "bool \<Rightarrow> nat list \<Rightarrow> (unit, unit) ws_acceptor" where
  "ex_wa shut hs = \<lparr>wa_wsOptions = ex_options,
     wa_incoming = \<lparr>cn_buf = map (\<lambda>h. \<lparr>ae_handle = h, ae_net = OtherConn, ae_conn = ex_conn [], ae_request = ex_request,
       ae_hs = []\<rparr>) hs, cn_cap = 128, cn_closed = False\<rparr>, wa_closed = shut, wa_listener = 0\<rparr>"

definition ex_mk :: "accept_event \<Rightarrow> (err + unit) option" where
  "ex_mk ev = Some (Inr ())"

lemma ex_Listen: "ws_Listen (\<lambda>_ u. Inr u) ex_options ex_addr None None None [] ex_world
    = Done ([''/chat''], \<lparr>w_open = [0], w_next = 1\<rparr>, Inr (ex_wa False []))"
proof -
  have "o_Routers ex_options = []" "o_Backlog ex_options = 128"
    by (simp_all add: ex_options_def DefaultOptions_def Apply_def Let_def)
  then show ?thesis
    by (simp add: ws_Listen_def ex_addr_def FromContext_def ex_world_def open_handle_def ws_routers_def ws_backlog_def
        make_chan_def ex_wa_def Let_def)
qed

text \<open>Two handshakes, the first accepted, then \<open>Close\<close>.\<close>

lemma ex_ws_run: "(ws_step ex_mk)\<^sup>*\<^sup>* (ex_wa False [], \<lparr>w_open = [0], w_next = 1\<rparr>, [])
    (ex_wa True [2], \<lparr>w_open = [2, 1], w_next = 3\<rparr>, [1])"
proof -
  have u: "ws_upgradeHTTP ex_request (Upgraded ex_hk) False (ex_wa False hs, \<lparr>w_open = os, w_next = n\<rparr>)
      = Done (ex_wa False (hs @ [n]), \<lparr>w_open = n # os, w_next = Suc n\<rparr>)" if "length hs < 128" for hs os n
    using that by (simp add: ws_upgradeHTTP_def ex_hk_def ex_wa_def open_handle_def chan_send_def Let_def)
  have 1: "ws_step ex_mk (ex_wa False [], \<lparr>w_open = [0], w_next = 1\<rparr>, []) (ex_wa False [1], \<lparr>w_open = [1, 0], w_next = 2\<rparr>, [])"
    using ws_upgrade [OF u [of "[]" "[0]" 1]] by (simp add: numeral_2_eq_2)
  have 2: "ws_step ex_mk (ex_wa False [1], \<lparr>w_open = [1, 0], w_next = 2\<rparr>, [])
      (ex_wa False [1, 2], \<lparr>w_open = [2, 1, 0], w_next = 3\<rparr>, [])"
    using ws_upgrade [OF u [of "[1]" "[1, 0]" 2]] by simp
  have "ws_Accept ex_mk False (ex_wa False [1, 2], \<lparr>w_open = [2, 1, 0], w_next = 3\<rparr>)
      = Done (ex_wa False [2], \<lparr>w_open = [2, 1, 0], w_next = 3\<rparr>, Inr (1, ()))"
    by (simp add: ws_Accept_def ex_wa_def chan_get_def chan_recv_def ws_wrap_def ex_mk_def)
  note 3 = ws_accept [OF this]
  have "ws_acceptor_Close None (ex_wa False [2], \<lparr>w_open = [2, 1, 0], w_next = 3\<rparr>)
      = (ex_wa True [2], \<lparr>w_open = [2, 1], w_next = 3\<rparr>, None)"
    by (simp add: ws_acceptor_Close_def ex_wa_def close_handle_def)
  note 4 = ws_close [OF this]
  from 1 2 3 [of "[]"] 4 [of ex_mk "[1]"] show ?thesis
    by (meson converse_rtranclp_into_rtranclp rtranclp.rtrancl_refl)
qed

text \<open>C6: in whatever order handshakes, \<open>Accept\<close>, \<open>Close\<close> and the closing of accepted connections interleave after
  \<open>Listen\<close>, every open handle has exactly one owner: a connection that \<open>Accept\<close> returned, one in the queue, or the
  listener until \<open>Close\<close>.  No connection is lost, and none is closed while it is queued or in use.\<close>

theorem ws_acceptor_conserves:
  assumes "ws_Listen fx def addr ctx None serve mux w0 = Done (mux', w1, Inr wa0)" and "world_ok w0" and "w_open w0 = []"
    and "(ws_step mk)\<^sup>*\<^sup>* (wa0, w1, []) (wa, w, acc)"
  shows "distinct (acc @ queued wa)
    \<and> set (w_open w) = set acc \<union> set (queued wa) \<union> (if wa_closed wa then {} else {wa_listener wa})
    \<and> length (queued wa) \<le> cn_cap (wa_incoming wa)"
  using ws_reachable [OF ws_Listen_inv [OF assms(1-3)] assms(4)] by (simp add: ws_inv_def chan_ok_def queued_def)

lemma ws_acceptor_conserves_witness:
  "distinct ([1] @ queued (ex_wa True [2]))
    \<and> set (w_open \<lparr>w_open = [2, 1], w_next = 3\<rparr>) = set [1] \<union> set (queued (ex_wa True [2]))
        \<union> (if wa_closed (ex_wa True [2]) then {} else {wa_listener (ex_wa True [2])})
    \<and> length (queued (ex_wa True [2])) \<le> cn_cap (wa_incoming (ex_wa True [2]))"
  by (rule ws_acceptor_conserves [OF ex_Listen _ _ ex_ws_run]) (simp_all add: world_ok_def ex_world_def)


lemma ex_ws_inv: "ws_inv (ex_wa True [2], \<lparr>w_open = [2, 1], w_next = 3\<rparr>, [1])"
  by (simp add: ws_inv_def ex_wa_def world_ok_def chan_ok_def queued_def)


text \<open>C36: \<open>Close\<close> does not end it: a handshake that finishes afterwards may still put its connection in the queue, because
  both cases of the \<open>select\<close> are ready; the connection is then open, and nobody's, until another \<open>Accept\<close> is called.\<close>

theorem ws_upgrade_after_Close:
  assumes "ws_inv (wa, w, acc)" and "wa_closed wa" and "length (queued wa) < cn_cap (wa_incoming wa)"
  shows "\<exists>wa' w'. ws_upgradeHTTP req (Upgraded k) False (wa, w) = Done (wa', w') \<and> wa_closed wa'
    \<and> queued wa' = queued wa @ [w_next w] \<and> w_next w \<in> set (w_open w') \<and> w_next w \<notin> set acc"
proof -
  have "\<not> cn_closed (wa_incoming wa)" "w_next w \<notin> set acc" using assms(1) by (auto simp: ws_inv_def)
  then show ?thesis
    using assms(2,3) by (simp add: ws_upgradeHTTP_def open_handle_def chan_send_def queued_def Let_def)
qed

lemma ws_upgrade_after_Close_witness:
  "\<exists>wa' w'. ws_upgradeHTTP ex_request (Upgraded ex_hk) False (ex_wa True [2], \<lparr>w_open = [2, 1], w_next = 3\<rparr>)
      = Done (wa', w') \<and> wa_closed wa' \<and> queued wa' = queued (ex_wa True [2]) @ [w_next \<lparr>w_open = [2, 1], w_next = 3\<rparr>]
    \<and> w_next \<lparr>w_open = [2, 1], w_next = 3\<rparr> \<in> set (w_open w') \<and> w_next \<lparr>w_open = [2, 1], w_next = 3\<rparr> \<notin> set [1]"
  by (rule ws_upgrade_after_Close [OF ex_ws_inv]) (simp_all add: ex_wa_def queued_def)

section \<open>The factory\<close>

text \<open>C37: \<open>Connect\<close> that returns an error leaves no connection open (the dial failed, or \<open>SetNoDelay\<close> did and the
  connection was closed again); on success exactly the new transport's connection is open, and the transport is a
  client's.  The bytes that the server sent right behind its handshake, which the dialer hands over in its buffered
  reader, are dropped: the result does not depend on them.\<close>

theorem ws_Connect_no_leak:
  assumes "world_ok w" and "ws_Connect L D F E fx def addr ctx dial w = Done (w', r)"
  shows "(case r of Inl _ \<Rightarrow> w_open w' = w_open w
      | Inr (h, t) \<Rightarrow> w_open w' = h # w_open w \<and> t_state t = StateClientSide L)
    \<and> ws_Connect L D F E fx def addr ctx (\<lambda>a o'. map_sum id (\<lambda>k. k\<lparr>hk_br := br\<rparr>) (dial a o')) w = Done (w', r)"
proof -
  obtain w1 h where o: "open_handle w = (w1, h)" by force
  note f = open_handle_ok [OF assms(1) o] close_opened [OF assms(1) o]
  have "t_state t = StateClientSide L" if "newWebsocketTransport L D F nc opts True req hs c a b rnd pool = Some (Inr t)"
    for nc opts req hs c a b rnd pool t
    using that newWebsocketTransport_state by fastforce
  with f assms(2) have "case r of Inl _ \<Rightarrow> w_open w' = w_open w
    | Inr (h, t) \<Rightarrow> w_open w' = h # w_open w \<and> t_state t = StateClientSide L"
    by (auto simp: ws_Connect_def ws_wrap_def ws_make_def o Let_def split: sum.splits option.splits)
  moreover have "ws_Connect L D F E fx def addr ctx (\<lambda>a o'. map_sum id (\<lambda>k. k\<lparr>hk_br := br\<rparr>) (dial a o')) w = Done (w', r)"
    unfolding assms(2) [symmetric] by (simp add: ws_Connect_def Let_def split: sum.split)
  ultimately show ?thesis ..
qed

definition ex_env :: "(unit, unit) ws_env" where
  "ex_env = \<lparr>we_flate = ex_flate_store, we_writers = ex_writer_store, we_rand = (\<lambda>_. Mask 1 2 3 4),
     we_pool = (\<lambda>n. replicate n 0)\<rparr>"

lemma ws_Connect_no_leak_witness:
  "\<exists>w' t. ws_Connect rfc_lib ex_dec ex_flate ex_env (\<lambda>_ u. Inr u) ex_options ex_addr None (\<lambda>_ _. Inr ex_hk) ex_world
      = Done (w', Inr (0, t)) \<and> w_open w' = [0] \<and> t_state t = StateClientSide rfc_lib"
proof -
  obtain w' t where c: "ws_Connect rfc_lib ex_dec ex_flate ex_env (\<lambda>_ u. Inr u) ex_options ex_addr None (\<lambda>_ _. Inr ex_hk)
      ex_world = Done (w', Inr (0, t))"
    by (simp add: ws_Connect_def ws_wrap_def ws_make_def newWebsocketTransport_def FromContext_def ex_hk_def ex_world_def
        open_handle_def Let_def)
  from ws_Connect_no_leak [OF _ c] have "w_open w' = [0] \<and> t_state t = StateClientSide rfc_lib"
    by (simp add: world_ok_def ex_world_def)
  with c show ?thesis by blast
qed

text \<open>Two \<open>Listen\<close>s with the same options and routes in one process: the second panics, because the routes are
  registered in the options' \<open>ServeMux\<close> already (and after the first panic or error they stay there).\<close>

lemma ws_Listen_twice:
  assumes "ws_Listen fx def addr ctx None serve mux w = Done (mux', w', r)"
    and "fx ws_Schemes addr = Inr addr'" and "fx ws_Schemes addr2 = Inr addr'"
  shows "ws_Listen fx def addr2 ctx None serve2 mux' w2 = Panics"
proof -
  have "ws_register mux (ws_routers (FromContext ctx def) addr') = Done mux'"
    using assms(1,2) by (auto simp: ws_Listen_def open_handle_def obind_Done Let_def split: option.splits)
  then have "ws_register mux' (ws_routers (FromContext ctx def) addr') = Panics"
    by (rule ws_register_again) (simp add: ws_routers_def)
  then show ?thesis by (simp add: ws_Listen_def assms(3) open_handle_def Let_def)
qed

lemma ws_Listen_twice_witness:
  "ws_Listen (\<lambda>_ u. Inr u) ex_options ex_addr None None None [''/chat''] \<lparr>w_open = [0], w_next = 1\<rparr> = Panics"
  by (rule ws_Listen_twice [OF ex_Listen]) simp_all

section \<open>The upgrader\<close>

text \<open>C38: \<open>Upgrade\<close> of the upgrader gives \<open>ServeChannel\<close> either nothing or exactly one transport, a server's, whose
  connection is the only new handle; on every error (the handshake's, with or without a connection, or \<open>SetNoDelay\<close>'s) no
  connection stays open.  An upgrader made for compression always has a negotiation to offer it.\<close>

theorem HTTPUpgrader_serves:
  assumes "NewHTTPUpgrader parsed def = Some hu" and "world_ok w"
    and "HTTPUpgrader_Upgrade L D F E serve hu ups req w = Done (w', r)"
  shows "(case r of Inl _ \<Rightarrow> w_open w' = w_open w
      | Inr ch \<Rightarrow> \<exists>t w1. serve (w_next w, t) w1 = (w', ch) \<and> w_open w1 = w_next w # w_open w
          \<and> t_state t = StateServerSide L)
    \<and> (o_CompressEnabled (hu_options hu) \<longrightarrow> hu_Negotiate hu \<noteq> None)"
proof -
  obtain w1 h where o: "open_handle w = (w1, h)" by force
  note f = open_handle_ok [OF assms(2) o] close_opened [OF assms(2) o] open_handle_next [OF o]
  have "case r of Inl _ \<Rightarrow> w_open w' = w_open w
    | Inr ch \<Rightarrow> \<exists>t w1. serve (w_next w, t) w1 = (w', ch) \<and> w_open w1 = w_next w # w_open w
        \<and> t_state t = StateServerSide L"
  proof (cases "ups (hu_Negotiate hu) req")
    case (UpgradeFailed e c)
    then show ?thesis using assms(3) f by (auto simp: HTTPUpgrader_Upgrade_def o split: if_splits)
  next
    case (Upgraded k)
    let ?mk = "ws_make L D F E (hu_options hu) False req (hk_net k) (hk_conn k) (hk_hs k)"
    consider (panic) "?mk = None" | (err) e where "?mk = Some (Inl e)" | (ok) t where "?mk = Some (Inr t)"
      by (cases ?mk) (auto split: sum.split, metis obj_sumE)
    then show ?thesis
    proof cases
      case (ok t)
      then have "t_state t = StateServerSide L" by (auto simp: ws_make_def dest: newWebsocketTransport_state)
      then show ?thesis
        using assms(3) f Upgraded ok
        by (auto simp: HTTPUpgrader_Upgrade_def ws_wrap_def o split: prod.splits intro!: exI [of _ t] exI [of _ w1])
    qed (use assms(3) f Upgraded in \<open>auto simp: HTTPUpgrader_Upgrade_def ws_wrap_def o\<close>)
  qed
  with assms(1) show ?thesis by (auto simp: NewHTTPUpgrader_def Let_def split: option.splits if_splits)
qed

definition ex_serve :: "nat \<times> (unit, unit, unit, unit) ws_transport \<Rightarrow> world \<Rightarrow> world \<times> string" where
  "ex_serve = (\<lambda>(h, t) w. (w, Route t))"

definition ex_hu :: "(unit, unit) http_upgrader" where
  "ex_hu = \<lparr>hu_options = ex_options, hu_Negotiate = o_Negotiate ex_options\<rparr>"

lemma HTTPUpgrader_serves_witness:
  "\<exists>t w1. ex_serve (0, t) w1 = (\<lparr>w_open = [0], w_next = 1\<rparr>, ''/chat'') \<and> w_open w1 = [0]
    \<and> t_state t = StateServerSide rfc_lib"
proof -
  have o: "\<not> o_CompressEnabled ex_options"
    by (simp add: ex_options_def DefaultOptions_def Apply_def Let_def)
  then have n: "NewHTTPUpgrader (Some None) ex_options = Some ex_hu"
    by (simp add: NewHTTPUpgrader_def FromContext_def ex_hu_def Let_def)
  have u: "HTTPUpgrader_Upgrade rfc_lib ex_dec ex_flate ex_env ex_serve ex_hu (\<lambda>_ _. Upgraded ex_hk) ex_request ex_world
      = Done (\<lparr>w_open = [0], w_next = 1\<rparr>, Inr ''/chat'')"
    using o by (simp add: HTTPUpgrader_Upgrade_def ws_wrap_def ws_make_def newWebsocketTransport_def ex_hk_def ex_world_def
        ex_hu_def open_handle_def ex_serve_def base_transport_def Route_def ex_request_def Let_def)
  from HTTPUpgrader_serves [OF n _ u] show ?thesis by (simp add: world_ok_def ex_world_def)
qed

end
