(* ===== verification/WsConcurrent.thy ===== *)
theory WsConcurrent
  imports WsRoundtrip
begin

text \<open>
  Several goroutines write to one transport.  \<open>Write\<close> of \<open>websocket/transport.go\<close> prepares its frame on its own and holds
  \<open>writeLocker\<close> only while it hands the frame to the connection, as the control handler does with its answers; here the
  goroutines interleave at that grain, and the connection may take a frame in several pieces.
\<close>

section \<open>The two parts of Write\<close>

text \<open>
  Without compression: \<open>write_prepare\<close> masks the slice and builds the frame (or the header's error), \<open>write_locked\<close> is the part under
  the lock.
\<close>

definition write_prepare ::
    "('x, 'cw) ws_lib \<Rightarrow> ('cert, 'c, 'd, 'x) ws_transport \<Rightarrow> bytes
      \<Rightarrow> ('cert, 'c, 'd, 'x) ws_transport \<times> bytes \<times> (err + bytes)" where
  "write_prepare L t p =
     (case draw_mask L t of (t, msk) \<Rightarrow>
       let q = (if st_client L (t_state t) then FastCipher p msk 0 else p);
           buf = t_pool t (14 + length p)
       in case packHeader (st_client L (t_state t)) (t_opCode t) (take 14 buf) True msk (word_of_nat (length p)) False of
            (_, _, Some e) \<Rightarrow> (t, q, Inl e)
          | (hdr, hn, None) \<Rightarrow> (t, q, Inr (take (hn + length p) (go_copy (hdr @ drop 14 buf) hn q))))"

definition write_locked ::
    "('cert, 'c, 'd, 'x) ws_transport \<Rightarrow> bytes \<Rightarrow> nat \<Rightarrow> ('cert, 'c, 'd, 'x) ws_transport \<times> nat \<times> err option" where
  "write_locked t b n = (case conn_write (t_conn t) b of (c, _, e) \<Rightarrow> (t_set_conn c t, if e = None then n else 0, e))"

lemma Write_in_parts:
  assumes "\<not> compresses t p"
  shows "Write L t p =
    (case write_prepare L t p of
       (t, q, Inl e) \<Rightarrow> Some (t, q, 0, Some e)
     | (t, q, Inr b) \<Rightarrow> (case write_locked t b (length p) of (t, n, e) \<Rightarrow> Some (t, q, n, e)))"
proof -
  have "\<not> (o_CompressEnabled (t_options t) \<and> n_enabled (t_negotiated t)
      \<and> sint (o_CompressThreshold (t_options t)) \<le> int (length p))"
    using assms by (auto simp: compresses_def compress_wanted_def)
  moreover have "length (FastCipher p m 0) = length p" for m by (simp add: FastCipher_eq)
  ultimately show ?thesis
    by (auto simp: Write_def write_prepare_def write_locked_def write_packet_def Let_def split: prod.split option.split)
qed

lemma write_prepare_frame:
  assumes "pool_ok t" and "length p < 2 ^ 63"
  shows "write_prepare L t p = (after_mask L t, masked_for L t p,
    Inr (wire_frame (st_client L (t_state t)) (t_opCode t) (next_mask L t) False p))"
proof -
  let ?t = "after_mask L t" and ?msk = "next_mask L t" and ?q = "masked_for L t p"
  let ?buf = "t_pool t (14 + length p)"
  have dm: "draw_mask L t = (?t, ?msk)" by (simp add: after_mask_def next_mask_def)
  have q: "(if st_client L (t_state t) then FastCipher p ?msk 0 else p) = ?q"
    by (simp add: masked_for_def FastCipher_eq)
  have buf: "length (take 14 ?buf) = 14" "length (drop 14 ?buf) = length ?q" using assms(1) by (simp_all add: pool_ok_def)
  obtain hdr hn e where ph: "packHeader (st_client L (t_state t)) (t_opCode t) (take 14 ?buf) True ?msk
      (word_of_nat (length p)) False = (hdr, hn, e)" by (metis prod_cases3)
  note h = packHeader_encodes [OF buf(1) assms(2) ph]
  have "take (hn + length p) (go_copy (hdr @ drop 14 ?buf) hn ?q) = take hn hdr @ ?q"
    using h buf(2) by (subst length_masked_for [of L t p, symmetric], subst take_go_copy) simp_all
  with h ph show ?thesis
    by (simp add: write_prepare_def dm q Let_def wire_frame_def masked_for_def)
qed

section \<open>Goroutines\<close>

text \<open>
  What a goroutine has left to write: messages through \<open>Write\<close>, or control frames (an answer of the control handler, a
  \<open>WriteClose\<close>), whose bytes are given.  \<open>Writing b n\<close>: it holds the lock, and \<open>n\<close> bytes of its frame \<open>b\<close> are written.
\<close>

datatype job = Message bytes | ControlFrame bytes

datatype phase = Idle | Prepared bytes | Writing bytes nat

record ('cert, 'c, 'd, 'x) writers =
  wr_t :: "('cert, 'c, 'd, 'x) ws_transport"
  wr_lock :: "nat option"
  wr_phase :: "nat \<Rightarrow> phase"
  wr_jobs :: "nat \<Rightarrow> job list"

definition wr_start :: "('cert, 'c, 'd, 'x) ws_transport \<Rightarrow> (nat \<Rightarrow> job list) \<Rightarrow> ('cert, 'c, 'd, 'x) writers" where
  "wr_start t jobs = \<lparr>wr_t = t, wr_lock = None, wr_phase = (\<lambda>_. Idle), wr_jobs = jobs\<rparr>"

text \<open>A goroutine's job is over: it gives back the lock if it has it.\<close>

definition wr_end :: "nat \<Rightarrow> ('cert, 'c, 'd, 'x) writers \<Rightarrow> ('cert, 'c, 'd, 'x) writers" where
  "wr_end i s = s\<lparr>wr_lock := (if wr_lock s = Some i then None else wr_lock s), wr_phase := (wr_phase s)(i := Idle),
     wr_jobs := (wr_jobs s)(i := tl (wr_jobs s i))\<rparr>"

inductive wr_step ::
    "('x, 'cw) ws_lib \<Rightarrow> ('cert, 'c, 'd, 'x) writers \<Rightarrow> ('cert, 'c, 'd, 'x) writers \<Rightarrow> bool" for L where
  wr_prepare: "\<lbrakk>wr_phase s i = Idle; wr_jobs s i = Message p # js; \<not> compresses (wr_t s) p;
      write_prepare L (wr_t s) p = (t, q, Inr b)\<rbrakk>
    \<Longrightarrow> wr_step L s (s\<lparr>wr_t := t, wr_phase := (wr_phase s)(i := Prepared b)\<rparr>)"
| wr_refuse: "\<lbrakk>wr_phase s i = Idle; wr_jobs s i = Message p # js; \<not> compresses (wr_t s) p;
      write_prepare L (wr_t s) p = (t, q, Inl e)\<rbrakk>
    \<Longrightarrow> wr_step L s (wr_end i (s\<lparr>wr_t := t\<rparr>))"
| wr_control: "\<lbrakk>wr_phase s i = Idle; wr_jobs s i = ControlFrame b # js\<rbrakk>
    \<Longrightarrow> wr_step L s (s\<lparr>wr_phase := (wr_phase s)(i := Prepared b)\<rparr>)"
| wr_acquire: "\<lbrakk>wr_phase s i = Prepared b; wr_lock s = None\<rbrakk>
    \<Longrightarrow> wr_step L s (s\<lparr>wr_lock := Some i, wr_phase := (wr_phase s)(i := Writing b 0)\<rparr>)"
| wr_write: "\<lbrakk>wr_phase s i = Writing b n; 0 < k; n + k \<le> length b;
      write_locked (wr_t s) (take k (drop n b)) k = (t, m, None)\<rbrakk>
    \<Longrightarrow> wr_step L s (s\<lparr>wr_t := t, wr_phase := (wr_phase s)(i := Writing b (n + k))\<rparr>)"
| wr_fail: "\<lbrakk>wr_phase s i = Writing b n; 0 < k; n + k \<le> length b;
      write_locked (wr_t s) (take k (drop n b)) k = (t, m, Some e)\<rbrakk>
    \<Longrightarrow> wr_step L s (wr_end i (s\<lparr>wr_t := t\<rparr>))"
| wr_release: "wr_phase s i = Writing b (length b) \<Longrightarrow> wr_step L s (wr_end i s)"

inductive_cases wr_stepE: "wr_step L s s'"

section \<open>What is on the wire\<close>

fun job_frame :: "bool \<Rightarrow> byte \<Rightarrow> job \<Rightarrow> bytes \<Rightarrow> bool" where
  "job_frame client op (Message p) b \<longleftrightarrow> (\<exists>msk. b = wire_frame client op msk False p)"
| "job_frame client op (ControlFrame f) b \<longleftrightarrow> b = f"

text \<open>What the lock's holder has written of its frame.\<close>

definition wr_part :: "('cert, 'c, 'd, 'x) writers \<Rightarrow> bytes" where
  "wr_part s = (case wr_lock s of None \<Rightarrow> []
     | Some i \<Rightarrow> (case wr_phase s i of Writing b n \<Rightarrow> take n b | _ \<Rightarrow> []))"

text \<open>Nobody else is in the locked part, and what a goroutine is about to write is the frame of its next job.\<close>

definition wr_locked_ok :: "('cert, 'c, 'd, 'x) writers \<Rightarrow> bool" where
  "wr_locked_ok s \<longleftrightarrow> (\<forall>i. (\<exists>b n. wr_phase s i = Writing b n) \<longleftrightarrow> wr_lock s = Some i)
     \<and> (\<forall>i b n. wr_phase s i = Writing b n \<longrightarrow> n \<le> length b)"

definition wr_frames_ok :: "bool \<Rightarrow> byte \<Rightarrow> ('cert, 'c, 'd, 'x) writers \<Rightarrow> bool" where
  "wr_frames_ok client op s \<longleftrightarrow>
     (\<forall>i b. wr_phase s i = Prepared b \<or> (\<exists>n. wr_phase s i = Writing b n) \<longrightarrow>
        (\<exists>j js. wr_jobs s i = j # js \<and> job_frame client op j b))"

text \<open>The transport's setting: it stays, and its connection takes every write.\<close>

definition wr_quiet :: "('x, 'cw) ws_lib \<Rightarrow> bool \<Rightarrow> byte \<Rightarrow> ('cert, 'c, 'd, 'x) ws_transport \<Rightarrow> bool" where
  "wr_quiet L client op t \<longleftrightarrow> st_client L (t_state t) = client \<and> t_opCode t = op \<and> pool_ok t \<and> w_faults (t_conn t) = []"

definition plain_message :: "('cert, 'c, 'd, 'x) ws_transport \<Rightarrow> bytes \<Rightarrow> bool" where
  "plain_message t p \<longleftrightarrow> length p < 2 ^ 63 \<and> \<not> compresses t p"

lemma plain_message_simps [simp]:
  "plain_message (after_mask L t) p = plain_message t p" "plain_message (t_set_conn c t) p = plain_message t p"
  by (simp_all add: plain_message_def)

text \<open>
  \<open>hist\<close> are the frames that were written, with their goroutine and job: the connection has exactly these, one after the
  other, and what the holder has written so far.
\<close>

definition wr_hist_ok ::
    "bool \<Rightarrow> byte \<Rightarrow> (nat \<Rightarrow> job list) \<Rightarrow> (nat \<times> job \<times> bytes) list \<Rightarrow> ('cert, 'c, 'd, 'x) writers \<Rightarrow> bool" where
  "wr_hist_ok client op jobs hist s \<longleftrightarrow>
     concat (out (t_conn (wr_t s))) = concat (map (\<lambda>x. snd (snd x)) hist) @ wr_part s
     \<and> (\<forall>(_, j, b) \<in> set hist. job_frame client op j b)
     \<and> (\<forall>i. jobs i = map (\<lambda>x. fst (snd x)) (filter (\<lambda>x. fst x = i) hist) @ wr_jobs s i)"

definition wr_inv ::
    "('x, 'cw) ws_lib \<Rightarrow> bool \<Rightarrow> byte \<Rightarrow> (nat \<Rightarrow> job list) \<Rightarrow> ('cert, 'c, 'd, 'x) writers \<Rightarrow> bool" where
  "wr_inv L client op jobs s \<longleftrightarrow> wr_quiet L client op (wr_t s) \<and> wr_locked_ok s \<and> wr_frames_ok client op s
     \<and> (\<forall>i p. Message p \<in> set (wr_jobs s i) \<longrightarrow> plain_message (wr_t s) p) \<and> (\<exists>hist. wr_hist_ok client op jobs hist s)"

lemma wr_start_inv:
  assumes "wr_quiet L client op t" and "out (t_conn t) = []" and "\<forall>i p. Message p \<in> set (jobs i) \<longrightarrow> plain_message t p"
  shows "wr_inv L client op jobs (wr_start t jobs)"
proof -
  have "wr_hist_ok client op jobs [] (wr_start t jobs)"
    using assms(2) by (simp add: wr_hist_ok_def wr_start_def wr_part_def)
  then show ?thesis
    using assms by (auto simp: wr_inv_def wr_start_def wr_locked_ok_def wr_frames_ok_def)
qed

lemma write_locked_quiet:
  assumes "wr_quiet L client op t"
  shows "write_locked t b n = (t_set_conn ((t_conn t)\<lparr>out := out (t_conn t) @ [b]\<rparr>) t, n, None)"
    and "wr_quiet L client op (t_set_conn ((t_conn t)\<lparr>out := out (t_conn t) @ [b]\<rparr>) t)"
  using assms by (simp_all add: wr_quiet_def write_locked_def conn_write_quiet)

lemma wr_part_locked: "wr_lock s = Some i \<Longrightarrow> wr_phase s i = Writing b n \<Longrightarrow> wr_part s = take n b"
  by (simp add: wr_part_def)

lemma wr_invD:
  assumes "wr_inv L client op jobs s"
  shows "wr_quiet L client op (wr_t s)" and "(\<exists>b n. wr_phase s i = Writing b n) \<longleftrightarrow> wr_lock s = Some i"
    and "wr_jobs s i = Message p # js \<Longrightarrow> plain_message (wr_t s) p"
    and "wr_phase s i = Writing b n \<Longrightarrow> n \<le> length b"
proof -
  note d = assms [unfolded wr_inv_def]
  show "wr_quiet L client op (wr_t s)" using d by blast
  show "(\<exists>b n. wr_phase s i = Writing b n) \<longleftrightarrow> wr_lock s = Some i" using d unfolding wr_locked_ok_def by blast
  show "wr_phase s i = Writing b n \<Longrightarrow> n \<le> length b" using d unfolding wr_locked_ok_def by blast
  assume "wr_jobs s i = Message p # js"
  then have "Message p \<in> set (wr_jobs s i)" by simp
  with d show "plain_message (wr_t s) p" by blast
qed

lemma wr_inv_frame:
  assumes "wr_inv L client op jobs s" and "wr_phase s i = Prepared b \<or> wr_phase s i = Writing b n"
  obtains j js where "wr_jobs s i = j # js" and "job_frame client op j b"
proof -
  have "wr_frames_ok client op s" using assms(1) by (simp add: wr_inv_def)
  with assms(2) that show ?thesis unfolding wr_frames_ok_def by blast
qed

text \<open>A goroutine that is not in the locked part gets its frame ready, or the next job.\<close>

lemma wr_ready_inv:
  assumes inv: "wr_inv L client op jobs s" and idle: "wr_phase s i = Idle" and job: "wr_jobs s i = j # js"
    and t: "wr_quiet L client op t" "t_conn t = t_conn (wr_t s)" "plain_message t = plain_message (wr_t s)" and frame: "job_frame client op j b"
  shows "wr_inv L client op jobs (s\<lparr>wr_t := t, wr_phase := (wr_phase s)(i := Prepared b)\<rparr>)"
proof -
  let ?s = "s\<lparr>wr_t := t, wr_phase := (wr_phase s)(i := Prepared b)\<rparr>"
  obtain hist where hist: "wr_hist_ok client op jobs hist s" using inv by (auto simp: wr_inv_def)
  have lock: "wr_lock s \<noteq> Some i" using wr_invD(2) [OF inv, of i] idle by simp
  then have "wr_part ?s = wr_part s" by (simp add: wr_part_def split: option.split)
  then have "wr_hist_ok client op jobs hist ?s" using hist t(2) by (simp add: wr_hist_ok_def)
  moreover have "wr_locked_ok ?s" using wr_invD(2,4) [OF inv] lock by (simp add: wr_locked_ok_def)
  moreover have "wr_frames_ok client op ?s" using inv job frame by (auto simp: wr_inv_def wr_frames_ok_def)
  ultimately show ?thesis using inv t(1,3) by (auto simp: wr_inv_def)
qed

lemma wr_acquire_inv:
  assumes inv: "wr_inv L client op jobs s" and i: "wr_phase s i = Prepared b" "wr_lock s = None"
  shows "wr_inv L client op jobs (s\<lparr>wr_lock := Some i, wr_phase := (wr_phase s)(i := Writing b 0)\<rparr>)"
proof -
  let ?s = "s\<lparr>wr_lock := Some i, wr_phase := (wr_phase s)(i := Writing b 0)\<rparr>"
  obtain hist where hist: "wr_hist_ok client op jobs hist s" using inv by (auto simp: wr_inv_def)
  then have "wr_hist_ok client op jobs hist ?s" using i by (simp add: wr_hist_ok_def wr_part_def)
  moreover have "wr_locked_ok ?s" using inv i by (auto simp: wr_inv_def wr_locked_ok_def)
  moreover have "wr_frames_ok client op ?s" using inv i(1) by (fastforce simp: wr_inv_def wr_frames_ok_def)
  ultimately show ?thesis using inv by (auto simp: wr_inv_def)
qed

lemma wr_write_inv:
  assumes inv: "wr_inv L client op jobs s" and i: "wr_phase s i = Writing b n" "n + k \<le> length b"
    and t: "write_locked (wr_t s) (take k (drop n b)) k = (t, m, None)"
  shows "wr_inv L client op jobs (s\<lparr>wr_t := t, wr_phase := (wr_phase s)(i := Writing b (n + k))\<rparr>)"
proof -
  let ?s = "s\<lparr>wr_t := t, wr_phase := (wr_phase s)(i := Writing b (n + k))\<rparr>"
  obtain hist where hist: "wr_hist_ok client op jobs hist s" using inv by (auto simp: wr_inv_def)
  note quiet = write_locked_quiet [OF wr_invD(1) [OF inv], of "take k (drop n b)"]
  from t quiet have t': "out (t_conn t) = out (t_conn (wr_t s)) @ [take k (drop n b)]" "wr_quiet L client op t"
    "plain_message t = plain_message (wr_t s)" by (auto simp: fun_eq_iff)
  have lock: "wr_lock s = Some i" using wr_invD(2) [OF inv, of i] i(1) by simp
  then have "wr_part ?s = wr_part s @ take k (drop n b)" using i by (simp add: wr_part_def take_add)
  then have "wr_hist_ok client op jobs hist ?s" using hist t'(1) by (simp add: wr_hist_ok_def)
  moreover have "wr_locked_ok ?s" using inv lock i(2) by (auto simp: wr_inv_def wr_locked_ok_def)
  moreover have "wr_frames_ok client op ?s" using inv i(1) by (fastforce simp: wr_inv_def wr_frames_ok_def)
  ultimately show ?thesis using inv t'(2,3) by (auto simp: wr_inv_def)
qed

lemma wr_release_inv:
  assumes inv: "wr_inv L client op jobs s" and i: "wr_phase s i = Writing b (length b)"
  shows "wr_inv L client op jobs (wr_end i s)"
proof -
  obtain hist where hist: "wr_hist_ok client op jobs hist s" using inv by (auto simp: wr_inv_def)
  have lock: "wr_lock s = Some i" using wr_invD(2) [OF inv, of i] i by simp
  obtain j js where j: "wr_jobs s i = j # js" "job_frame client op j b"
    using wr_inv_frame [OF inv] i by blast
  have "wr_hist_ok client op jobs (hist @ [(i, j, b)]) (wr_end i s)"
    using hist j lock i by (auto simp: wr_hist_ok_def wr_end_def wr_part_def)
  moreover have "wr_locked_ok (wr_end i s)" using inv lock by (auto simp: wr_inv_def wr_locked_ok_def wr_end_def)
  moreover have "wr_frames_ok client op (wr_end i s)" using inv by (auto simp: wr_inv_def wr_frames_ok_def wr_end_def)
  moreover have "set (wr_jobs (wr_end i s) k) \<subseteq> set (wr_jobs s k)" for k using j(1) by (auto simp: wr_end_def)
  then have "\<forall>k p. Message p \<in> set (wr_jobs (wr_end i s) k) \<longrightarrow> plain_message (wr_t s) p"
    using inv unfolding wr_inv_def by blast
  moreover have "wr_t (wr_end i s) = wr_t s" by (simp add: wr_end_def)
  moreover note wr_invD(1) [OF inv]
  ultimately show ?thesis unfolding wr_inv_def by metis
qed

lemma wr_step_inv: "wr_step L s s' \<Longrightarrow> wr_inv L client op jobs s \<Longrightarrow> wr_inv L client op jobs s'"
proof (induction rule: wr_step.induct)
  case (wr_prepare s i p js t q b)
  have p: "wr_quiet L client op (wr_t s)" "length p < 2 ^ 63"
    using wr_invD(1,3) [OF wr_prepare.prems] wr_prepare.hyps(2) unfolding plain_message_def by blast+
  then have f: "t = after_mask L (wr_t s)" "b = wire_frame client op (next_mask L (wr_t s)) False p"
    using wr_prepare.hyps(4) write_prepare_frame [of "wr_t s" p L] by (auto simp: wr_quiet_def)
  show ?case
    by (rule wr_ready_inv [OF wr_prepare.prems wr_prepare.hyps(1,2)]) (use p(1) f in \<open>auto simp: wr_quiet_def fun_eq_iff\<close>)
next
  case (wr_refuse s i p js t q e)
  have "pool_ok (wr_t s)" "length p < 2 ^ 63"
    using wr_invD(1,3) [OF wr_refuse.prems] wr_refuse.hyps(2) by (auto simp: wr_quiet_def plain_message_def)
  then show ?case using wr_refuse.hyps(4) by (simp add: write_prepare_frame)
next
  case (wr_control s i b js)
  from wr_ready_inv [OF wr_control.prems wr_control.hyps wr_invD(1) [OF wr_control.prems] refl refl, of b] show ?case by simp
next
  case (wr_fail s i b n k t m e)
  then show ?case by (simp add: write_locked_quiet(1) [OF wr_invD(1)])
qed (auto intro: wr_acquire_inv wr_write_inv wr_release_inv)

lemma wr_reachable: "(wr_step L)\<^sup>*\<^sup>* s s' \<Longrightarrow> wr_inv L client op jobs s \<Longrightarrow> wr_inv L client op jobs s'"
  by (induction rule: rtranclp_induct) (auto intro: wr_step_inv)

section \<open>Whole frames, each goroutine's in order\<close>

lemma wr_free_hist:
  assumes "wr_inv L client op jobs s" and "wr_lock s = None"
  obtains hist where "concat (out (t_conn (wr_t s))) = concat (map (\<lambda>x. snd (snd x)) hist)"
    and "\<forall>(_, j, b) \<in> set hist. job_frame client op j b"
    and "\<And>i. jobs i = map (\<lambda>x. fst (snd x)) (filter (\<lambda>x. fst x = i) hist) @ wr_jobs s i"
proof -
  obtain hist where "wr_hist_ok client op jobs hist s" using assms(1) by (auto simp: wr_inv_def)
  moreover have "wr_part s = []" using assms(2) by (simp add: wr_part_def)
  ultimately show ?thesis using that [of hist] by (simp add: wr_hist_ok_def)
qed

text \<open>Messages only: the bytes are those of \<open>wires\<close>, in the order in which the goroutines got the lock.\<close>

lemma message_frames:
  assumes "\<forall>(_, j, b) \<in> set hist. job_frame client op j b" and "\<forall>(_, j, _) \<in> set hist. j \<in> range Message"
  shows "\<exists>ms. length ms = length hist \<and> concat (map (\<lambda>x. snd (snd x)) hist) = wires client op ms
    \<and> map (\<lambda>x. fst (snd x)) hist = map (Message \<circ> snd) ms"
  using assms
proof (induction hist)
  case (Cons x hist)
  obtain i p b where x: "x = (i, Message p, b)" using Cons.prems(2) by (cases x) auto
  then obtain msk where b: "b = wire_frame client op msk False p" using Cons.prems(1) by auto
  from Cons obtain ms where "length ms = length hist" "concat (map (\<lambda>x. snd (snd x)) hist) = wires client op ms"
    "map (\<lambda>x. fst (snd x)) hist = map (Message \<circ> snd) ms" by auto
  with x b show ?case by (intro exI [of _ "(msk, p) # ms"]) simp
qed simp

text \<open>The messages with their goroutines, as they are on the wire once everybody is done.\<close>

lemma wr_done_messages:
  assumes inv: "wr_inv L client op (\<lambda>i. map Message (msgs i)) s" and finished: "\<forall>i. wr_jobs s i = []"
  shows "\<exists>order ms. concat (out (t_conn (wr_t s))) = wires client op ms \<and> map snd ms = map snd order
    \<and> (\<forall>i. map snd (filter (\<lambda>x. fst x = i) order) = msgs i)"
proof -
  have "wr_lock s = None"
  proof (rule ccontr)
    assume "wr_lock s \<noteq> None"
    then obtain i b n where "wr_phase s i = Writing b n" using wr_invD(2) [OF inv] by blast
    with wr_inv_frame [OF inv] finished show False by (metis list.distinct(1))
  qed
  then obtain hist where hist: "concat (out (t_conn (wr_t s))) = concat (map (\<lambda>x. snd (snd x)) hist)"
      "\<forall>(_, j, b) \<in> set hist. job_frame client op j b"
    and each: "\<And>i. map Message (msgs i) = map (\<lambda>x. fst (snd x)) (filter (\<lambda>x. fst x = i) hist) @ wr_jobs s i"
    using wr_free_hist [OF inv] by blast
  have "j \<in> range Message" if "(k, j, b) \<in> set hist" for k j b
  proof -
    have "(k, j, b) \<in> set (filter (\<lambda>x. fst x = k) hist)" using that by simp
    then have "j \<in> set (map Message (msgs k))" unfolding each by force
    then show ?thesis by auto
  qed
  then obtain ms where ms: "length ms = length hist" "concat (map (\<lambda>x. snd (snd x)) hist) = wires client op ms"
      "map (\<lambda>x. fst (snd x)) hist = map (Message \<circ> snd) ms"
    using message_frames [OF hist(2)] by blast
  let ?payload = "\<lambda>j. case j of Message p \<Rightarrow> p | ControlFrame f \<Rightarrow> f"
  let ?order = "map (\<lambda>(k, j, _). (k, ?payload j)) hist"
  have "map snd ?order = map ?payload (map (\<lambda>x. fst (snd x)) hist)" by (simp add: case_prod_beta comp_def)
  also have "\<dots> = map snd ms" unfolding ms(3) by (simp add: comp_def)
  finally have o1: "map snd ?order = map snd ms" .
  have "map snd (filter (\<lambda>x. fst x = i) ?order) = msgs i" for i
  proof -
    have "map snd (filter (\<lambda>x. fst x = i) ?order) = map ?payload (map (\<lambda>x. fst (snd x)) (filter (\<lambda>x. fst x = i) hist))"
      by (simp add: filter_map comp_def case_prod_beta)
    also have "\<dots> = map ?payload (map Message (msgs i))" using each [of i] finished by simp
    finally show ?thesis by (simp add: comp_def)
  qed
  with o1 hist(1) ms(2) show ?thesis by (intro exI [of _ ?order] exI [of _ ms]) simp
qed

lemma wr_received:
  assumes inv: "wr_inv L client op (\<lambda>i. map Message (msgs i)) s" and finished: "\<forall>i. wr_jobs s i = []"
    and r: "ready L r" "peer_of L client op r" "\<And>i. 0 < k i" "\<not> in_eager (t_conn r)"
    and fits: "\<forall>i. \<forall>p \<in> set (msgs i). fits r p" and net: "conn_content (t_conn r) = concat (out (t_conn (wr_t s)))"
  shows "\<exists>order r'. receive L D k r (length order) = Some (r', map snd order)
    \<and> (\<forall>i. map snd (filter (\<lambda>x. fst x = i) order) = msgs i)"
proof -
  obtain order ms where ms: "concat (out (t_conn (wr_t s))) = wires client op ms" "map snd ms = map snd order"
    and each: "\<forall>i. map snd (filter (\<lambda>x. fst x = i) order) = msgs i"
    using wr_done_messages [OF inv finished] by blast
  have "p \<in> (\<Union>i. set (msgs i))" if "(i, p) \<in> set order" for i p
  proof -
    have "(i, p) \<in> set (filter (\<lambda>x. fst x = i) order)" using that by simp
    then have "p \<in> set (map snd (filter (\<lambda>x. fst x = i) order))" by force
    then show ?thesis using each by auto
  qed
  then have o: "\<forall>p \<in> set (map snd order). fits r p" using fits by fastforce
  have f: "\<forall>(msk, p) \<in> set ms. fits r p" using o [folded ms(2)] by auto
  have "conn_content (t_conn r) = wires client op ms @ []" using net ms(1) by simp
  from receive_wires [where k = k and D = D, OF r(1,2,3) f this] r(4) obtain r' where
    "receive L D k r (length ms) = Some (r', map snd ms)" by blast
  moreover have "length order = length ms" using ms(2) by (metis length_map)
  ultimately show ?thesis using ms(2) each by (intro exI [of _ order] exI [of _ r']) simp
qed

section \<open>Every run ends, and ends with all jobs done\<close>

fun job_size :: "job \<Rightarrow> nat" where
  "job_size (Message p) = 17 + length p"
| "job_size (ControlFrame b) = 3 + length b"

fun phase_size :: "phase \<Rightarrow> nat" where
  "phase_size Idle = 0"
| "phase_size (Prepared b) = 1"
| "phase_size (Writing b n) = 2 + n"

definition wr_left :: "('cert, 'c, 'd, 'x) writers \<Rightarrow> nat \<Rightarrow> nat" where
  "wr_left s i = sum_list (map job_size (wr_jobs s i)) - phase_size (wr_phase s i)"

lemma job_frame_size: "job_frame client op j b \<Longrightarrow> 3 + length b \<le> job_size j"
proof (cases j)
  case (Message p)
  assume "job_frame client op j b"
  then obtain msk where b: "b = wire_frame client op msk False p" using Message by auto
  show ?thesis
    using encode_header_length [of True False op _ "length p"] by (simp add: Message b wire_frame_def)
qed simp

text \<open>A step works on one goroutine that has a job, and brings it forward.\<close>

lemma wr_step_left:
  assumes inv: "wr_inv L client op jobs s" and step: "wr_step L s s'"
  shows "\<exists>i. wr_jobs s i \<noteq> [] \<and> wr_left s' i < wr_left s i \<and> (\<forall>k. k \<noteq> i \<longrightarrow> wr_left s' k = wr_left s k)"
proof -
  have frame: "\<exists>j js. wr_jobs s i = j # js \<and> 3 + length b \<le> job_size j"
    if "wr_phase s i = Prepared b \<or> wr_phase s i = Writing b n" for i b n
    using wr_inv_frame [OF inv that] job_frame_size by metis
  have one: "1 \<le> job_size j" for j by (cases j) simp_all
  have ended: "wr_left (wr_end i (s\<lparr>wr_t := t\<rparr>)) i < wr_left s i
      \<and> (\<forall>k. k \<noteq> i \<longrightarrow> wr_left (wr_end i (s\<lparr>wr_t := t\<rparr>)) k = wr_left s k)"
    if "wr_jobs s i = j # js" "phase_size (wr_phase s i) < job_size j" for i j js t
    using that by (simp add: wr_left_def wr_end_def)
  from step show ?thesis
  proof cases
    case (wr_prepare i p js t q b)
    then show ?thesis using one [of "Message p"] by (intro exI [of _ i]) (simp add: wr_left_def)
  next
    case (wr_refuse i p js t q e)
    then show ?thesis using ended [of i "Message p" js t] by (intro exI [of _ i]) simp
  next
    case (wr_control i b js)
    then show ?thesis by (intro exI [of _ i]) (simp add: wr_left_def)
  next
    case (wr_acquire i b)
    then obtain j js where "wr_jobs s i = j # js" "3 + length b \<le> job_size j" using frame by blast
    with wr_acquire show ?thesis by (intro exI [of _ i]) (simp add: wr_left_def)
  next
    case (wr_write i b n k t m)
    then obtain j js where "wr_jobs s i = j # js" "3 + length b \<le> job_size j" using frame by blast
    with wr_write show ?thesis by (intro exI [of _ i]) (simp add: wr_left_def)
  next
    case (wr_fail i b n k t m e)
    then obtain j js where "wr_jobs s i = j # js" "3 + length b \<le> job_size j" using frame by blast
    with wr_fail show ?thesis using ended [of i j js t] by (intro exI [of _ i]) simp
  next
    case (wr_release i b)
    then obtain j js where "wr_jobs s i = j # js" "3 + length b \<le> job_size j" using frame by blast
    with wr_release show ?thesis using ended [of i j js "wr_t s"] by (intro exI [of _ i]) simp
  qed
qed

lemma wr_steps_bound:
  assumes "(wr_step L ^^ m) s s'" and "wr_inv L client op jobs s" and "\<forall>i \<ge> N. wr_jobs s i = []"
  shows "m + (\<Sum>i<N. wr_left s' i) \<le> (\<Sum>i<N. wr_left s i) \<and> wr_inv L client op jobs s' \<and> (\<forall>i \<ge> N. wr_jobs s' i = [])"
  using assms
proof (induction m arbitrary: s')
  case (Suc m)
  from Suc.prems(1) obtain s1 where s1: "(wr_step L ^^ m) s s1" "wr_step L s1 s'" by auto
  note IH = Suc.IH [OF s1(1) Suc.prems(2,3)]
  then obtain i where i: "wr_jobs s1 i \<noteq> []" "wr_left s' i < wr_left s1 i" "\<forall>k. k \<noteq> i \<longrightarrow> wr_left s' k = wr_left s1 k"
    using wr_step_left s1(2) by blast
  then have "i < N" using IH by (meson not_le)
  then have "(\<Sum>k<N. wr_left s' k) < (\<Sum>k<N. wr_left s1 k)"
    by (intro sum_strict_mono_ex1) (use i in \<open>auto intro: le_less_linear, metis le_eq_less_or_eq\<close>)
  moreover have "\<forall>i \<ge> N. wr_jobs s' i = []" using s1(2) IH by cases (auto simp: wr_end_def)
  ultimately show ?case using IH wr_step_inv [OF s1(2)] by auto
qed simp

text \<open>As long as there is a job, somebody can go on: the lock is always given back.\<close>

lemma wr_progress:
  assumes inv: "wr_inv L client op jobs s" and job: "wr_jobs s i \<noteq> []"
  shows "\<exists>s'. wr_step L s s'"
proof (cases "wr_lock s")
  case (Some k)
  then obtain b n where b: "wr_phase s k = Writing b n" using wr_invD(2) [OF inv] by blast
  show ?thesis
  proof (cases "n = length b")
    case True
    with b wr_release show ?thesis by metis
  next
    case False
    with wr_invD(4) [OF inv b] have "0 < length b - n" "n + (length b - n) \<le> length b" by simp_all
    from wr_write [OF b this write_locked_quiet(1) [OF wr_invD(1) [OF inv]]] show ?thesis by blast
  qed
next
  case None
  obtain j js where j: "wr_jobs s i = j # js" using job by (cases "wr_jobs s i") auto
  show ?thesis
  proof (cases "wr_phase s i")
    case Idle
    show ?thesis
    proof (cases j)
      case (Message p)
      with wr_invD(3) [OF inv] j have p: "length p < 2 ^ 63" "\<not> compresses (wr_t s) p" by (auto simp: plain_message_def)
      have "pool_ok (wr_t s)" using wr_invD(1) [OF inv] by (simp add: wr_quiet_def)
      from wr_prepare [OF Idle j [unfolded Message] p(2) write_prepare_frame [OF this p(1)]] show ?thesis by blast
    next
      case (ControlFrame f)
      with wr_control [OF Idle] j show ?thesis by blast
    qed
  next
    case (Prepared b)
    from wr_acquire [OF this None] show ?thesis by blast
  next
    case (Writing b n)
    with wr_invD(2) [OF inv] None show ?thesis by (metis option.distinct(1))
  qed
qed

text \<open>So there is a run to the end from every state.\<close>

lemma wr_finishes:
  assumes "wr_inv L client op jobs s" and "\<forall>i \<ge> N. wr_jobs s i = []"
  shows "\<exists>s'. (wr_step L)\<^sup>*\<^sup>* s s' \<and> (\<forall>i. wr_jobs s' i = [])"
  using assms
proof (induction "\<Sum>i<N. wr_left s i" arbitrary: s rule: less_induct)
  case less
  show ?case
  proof (cases "\<forall>i. wr_jobs s i = []")
    case False
    then obtain s1 where s1: "wr_step L s s1" using wr_progress [OF less.prems(1)] by blast
    then have "(wr_step L ^^ 1) s s1" by (simp only: relpowp_1)
    from wr_steps_bound [OF this less.prems] have "(\<Sum>i<N. wr_left s1 i) < (\<Sum>i<N. wr_left s i)"
      "wr_inv L client op jobs s1" "\<forall>i \<ge> N. wr_jobs s1 i = []" by auto
    with less.hyps s1 show ?thesis by (meson converse_rtranclp_into_rtranclp)
  qed blast
qed

section \<open>The persistent flate writer\<close>

text \<open>
  With context takeover all calls of \<open>Write\<close> share one flate writer, and \<open>writeCompress\<close> uses it before it takes the
  lock.  \<open>Reset\<close> makes the buffer of one call the destination, whoever writes next.  The state: the writers, which
  buffer is the destination, and the buffers of the calls.
\<close>

record 'c shared_writer =
  sw_st :: "'c writer_store"
  sw_dst :: nat
  sw_buf :: "nat \<Rightarrow> bytes"

datatype sw_call = SwReset nat | SwWrite bytes | SwFlush

definition sw_put :: "nat \<Rightarrow> 'c comp_ops \<Rightarrow> 'c flate_writer \<Rightarrow> bytes \<Rightarrow> 'c shared_writer \<Rightarrow> 'c shared_writer" where
  "sw_put a C fw w s = s\<lparr>sw_st := (sw_st s)\<lparr>wst_obj := (wst_obj (sw_st s))(a := (C, fw))\<rparr>,
     sw_buf := (sw_buf s)(sw_dst s := w)\<rparr>"

fun sw_exec :: "nat \<Rightarrow> 'c shared_writer \<Rightarrow> sw_call \<Rightarrow> ('c shared_writer \<times> err option) option" where
  "sw_exec a s (SwReset b) = Option.bind (writer_reset (sw_st s) a) (\<lambda>st. Some (s\<lparr>sw_st := st, sw_dst := b\<rparr>, None))"
| "sw_exec a s (SwWrite p) =
     (case wst_obj (sw_st s) a of (C, fw) \<Rightarrow>
       Option.bind (fw_write C buffer_write fw (sw_buf s (sw_dst s)) p) (\<lambda>(fw, w, _, e). Some (sw_put a C fw w s, e)))"
| "sw_exec a s SwFlush =
     (case wst_obj (sw_st s) a of (C, fw) \<Rightarrow>
       Option.bind (fw_flush C buffer_write fw (sw_buf s (sw_dst s))) (\<lambda>(fw, w, e). Some (sw_put a C fw w s, e)))"

text \<open>Calls in a given order, up to the first error.\<close>

fun sw_run :: "nat \<Rightarrow> 'c shared_writer \<Rightarrow> sw_call list \<Rightarrow> ('c shared_writer \<times> err option) option" where
  "sw_run a s [] = Some (s, None)"
| "sw_run a s (c # cs) =
     Option.bind (sw_exec a s c) (\<lambda>(s, e). case e of Some x \<Rightarrow> Some (s, Some x) | None \<Rightarrow> sw_run a s cs)"

text \<open>Alone, the three calls are \<open>compress_payload\<close>.\<close>

lemma compress_payload_calls:
  assumes "sw_buf s b = []"
  shows "compress_payload (sw_st s) a p =
    map_option (\<lambda>(s', e). (sw_st s', sw_buf s' b, e)) (sw_run a s [SwReset b, SwWrite p, SwFlush])"
proof -
  obtain C fw where o: "wst_obj (sw_st s) a = (C, fw)" by force
  show ?thesis
  proof (cases "fw_reset C fw")
    case None
    then show ?thesis by (simp add: compress_payload_def writer_reset_def o)
  next
    case (Some fw0)
    show ?thesis
    proof (cases "fw_write C buffer_write fw0 [] p")
      case None
      then show ?thesis using Some assms by (simp add: compress_payload_def writer_reset_def o)
    next
      case (Some q)
      obtain fw1 w n e where q: "q = (fw1, w, n, e)" by (metis prod_cases4)
      show ?thesis
        using \<open>fw_reset C fw = Some fw0\<close> Some q assms
        by (cases e; cases "fw_flush C buffer_write fw1 w")
          (auto simp: compress_payload_def writer_reset_def o sw_put_def split: option.splits)
    qed
  qed
qed

lemma sw_exec_other:
  assumes "sw_exec a s c = Some (s', e)" and "sw_dst s \<noteq> b"
  shows "sw_buf s' b = sw_buf s b"
  using assms by (cases c) (auto simp: sw_put_def split: prod.splits dest!: bind_eq_SomeD)

lemma sw_exec_dst:
  "sw_exec a s c = Some (s', e) \<Longrightarrow> sw_dst s' = (case c of SwReset b \<Rightarrow> b | _ \<Rightarrow> sw_dst s)"
  by (cases c) (auto simp: sw_put_def split: prod.splits dest!: bind_eq_SomeD)

text \<open>After another call's \<open>Reset\<close> nothing reaches a buffer any more, until it is the destination again.\<close>

lemma sw_run_other:
  assumes "sw_run a s cs = Some (s', e)" and "sw_dst s \<noteq> b" and "SwReset b \<notin> set cs"
  shows "sw_buf s' b = sw_buf s b"
  using assms
proof (induction cs arbitrary: s)
  case (Cons c cs)
  obtain s1 e1 where 1: "sw_exec a s c = Some (s1, e1)" using Cons.prems(1) by (auto dest!: bind_eq_SomeD)
  have "sw_dst s1 \<noteq> b" using sw_exec_dst [OF 1] Cons.prems(2,3) by (auto split: sw_call.split)
  with sw_exec_other [OF 1 Cons.prems(2)] Cons 1 show ?case by (auto split: option.splits)
qed simp

end
