(* ===== verification/ConcurrentProperties.thy ===== *)
theory ConcurrentProperties
  imports WsConcurrent Examples
begin

text \<open>
  The properties of a transport that several goroutines write to: frames stay whole and in order, the lock is always given back,
  the peer gets every message; and what goes wrong with a shared compressor.
\<close>

text \<open>C9: goroutines that write messages and control frames to one transport at the same time, in any interleaving, with a
  connection that may take each frame in pieces: whenever the lock is free, the wire holds whole frames only, one after the
  other, and for each goroutine its finished jobs' frames in its order.  A run has at most as many steps as the jobs allow,
  and it can stop only when all jobs are done: nobody waits for the lock for ever.\<close>

theorem concurrent_writes_serialize:
  assumes "wr_quiet L client op t" and "out (t_conn t) = []" and "\<forall>i p. Message p \<in> set (jobs i) \<longrightarrow> plain_message t p"
    and "\<forall>i \<ge> N. jobs i = []" and "(wr_step L ^^ m) (wr_start t jobs) s"
  shows "(wr_lock s = None \<longrightarrow> (\<exists>hist.
      concat (out (t_conn (wr_t s))) = concat (map (\<lambda>x. snd (snd x)) hist)
      \<and> (\<forall>(_, j, b) \<in> set hist. job_frame client op j b)
      \<and> (\<forall>i. jobs i = map (\<lambda>x. fst (snd x)) (filter (\<lambda>x. fst x = i) hist) @ wr_jobs s i)))
    \<and> m \<le> (\<Sum>i<N. sum_list (map job_size (jobs i)))
    \<and> ((\<nexists>s'. wr_step L s s') \<longrightarrow> (\<forall>i. wr_jobs s i = []))"
proof -
  note start = wr_start_inv [OF assms(1-3)]
  have "\<forall>i \<ge> N. wr_jobs (wr_start t jobs) i = []" using assms(4) by (simp add: wr_start_def)
  note b = wr_steps_bound [OF assms(5) start this]
  have "(\<Sum>i<N. wr_left (wr_start t jobs) i) = (\<Sum>i<N. sum_list (map job_size (jobs i)))"
    by (simp add: wr_left_def wr_start_def)
  with b have m: "m \<le> (\<Sum>i<N. sum_list (map job_size (jobs i)))" and inv: "wr_inv L client op jobs s" by auto
  have "wr_lock s = None \<longrightarrow> (\<exists>hist.
      concat (out (t_conn (wr_t s))) = concat (map (\<lambda>x. snd (snd x)) hist)
      \<and> (\<forall>(_, j, b) \<in> set hist. job_frame client op j b)
      \<and> (\<forall>i. jobs i = map (\<lambda>x. fst (snd x)) (filter (\<lambda>x. fst x = i) hist) @ wr_jobs s i))"
    using wr_free_hist [OF inv] by metis
  with m wr_progress [OF inv] show ?thesis by blast
qed

text \<open>One goroutine sends a message, another answers a ping; the ping's answer is half written.\<close>

definition ex_jobs :: "nat \<Rightarrow> job list" where
  "ex_jobs = (\<lambda>_. [])(0 := [Message [1, 2, 3]], 1 := [ControlFrame [0x8a, 0x00]])"

lemma ex_wr_quiet: "wr_quiet rfc_lib client 1 (ex_transport client [])"
  by (simp add: wr_quiet_def)

lemma ex_plain: "length p < 2 ^ 63 \<Longrightarrow> plain_message (ex_transport client chunks) p"
  by (simp add: plain_message_def ex_no_compression)

definition ex_half :: "(unit, unit, unit, unit) writers" where
  "ex_half = (wr_start (t_set_conn ((ex_conn [])\<lparr>out := [[0x8a]]\<rparr>) (ex_transport False [])) ex_jobs)
     \<lparr>wr_lock := Some 1, wr_phase := (\<lambda>_. Idle)(1 := Writing [0x8a, 0x00] 1)\<rparr>"

lemma ex_half_run: "(wr_step rfc_lib ^^ 3) (wr_start (ex_transport False []) ex_jobs) ex_half"
proof -
  let ?s0 = "wr_start (ex_transport False []) ex_jobs"
  let ?s1 = "?s0\<lparr>wr_phase := (wr_phase ?s0)(1 := Prepared [0x8a, 0x00])\<rparr>"
  let ?s2 = "?s1\<lparr>wr_lock := Some 1, wr_phase := (wr_phase ?s1)(1 := Writing [0x8a, 0x00] 0)\<rparr>"
  have 1: "wr_step rfc_lib ?s0 ?s1" by (rule wr_control) (simp_all add: wr_start_def ex_jobs_def)
  have 2: "wr_step rfc_lib ?s1 ?s2" by (rule wr_acquire) (simp_all add: wr_start_def)
  have "wr_quiet rfc_lib False 1 (wr_t ?s2)" using ex_wr_quiet [of False] by (simp add: wr_start_def)
  then have w: "write_locked (wr_t ?s2) (take 1 (drop 0 [0x8a, 0x00])) 1
      = (t_set_conn ((ex_conn [])\<lparr>out := [[0x8a]]\<rparr>) (ex_transport False []), 1, None)"
    using write_locked_quiet(1) [of rfc_lib False 1 "wr_t ?s2"] by (simp add: wr_start_def)
  have "wr_step rfc_lib ?s2 (?s2\<lparr>wr_t := t_set_conn ((ex_conn [])\<lparr>out := [[0x8a]]\<rparr>) (ex_transport False []),
      wr_phase := (wr_phase ?s2)(1 := Writing [0x8a, 0x00] (0 + 1))\<rparr>)"
    by (rule wr_write [OF _ _ _ w]) simp_all
  then have 3: "wr_step rfc_lib ?s2 ex_half"
    by (rule back_subst [of "wr_step rfc_lib ?s2"]) (simp add: ex_half_def wr_start_def fun_eq_iff)
  from 1 2 3 show ?thesis by (simp add: numeral_3_eq_3) (blast intro: relcomppI)
qed

lemma concurrent_writes_serialize_witness:
  "3 \<le> (\<Sum>i<2. sum_list (map job_size (ex_jobs i))) \<and> (\<exists>s'. wr_step rfc_lib ex_half s')"
proof -
  have "ex_jobs i = []" if "2 \<le> i" for i using that by (auto simp: ex_jobs_def)
  moreover have "plain_message (ex_transport False []) p" if "Message p \<in> set (ex_jobs i)" for i p
    using that by (intro ex_plain) (auto simp: ex_jobs_def split: if_splits)
  ultimately have "3 \<le> (\<Sum>i<2. sum_list (map job_size (ex_jobs i))) \<and>
      ((\<nexists>s'. wr_step rfc_lib ex_half s') \<longrightarrow> (\<forall>i. wr_jobs ex_half i = []))"
    using concurrent_writes_serialize [OF ex_wr_quiet _ _ _ ex_half_run, of 2] by auto
  moreover have "wr_jobs ex_half 0 \<noteq> []" by (simp add: ex_half_def wr_start_def ex_jobs_def)
  ultimately show ?thesis by blast
qed

text \<open>C10: when all are done, the other side reads exactly the messages that were written, each whole and unmasked, in one order in which
  every goroutine's messages are in the order it wrote them.\<close>

theorem concurrent_writes_delivered:
  assumes "wr_quiet L client op t" and "out (t_conn t) = []" and "\<forall>i. \<forall>p \<in> set (msgs i). plain_message t p \<and> fits r p"
    and "(wr_step L)\<^sup>*\<^sup>* (wr_start t (\<lambda>i. map Message (msgs i))) s" and "\<forall>i. wr_jobs s i = []"
    and "ready L r" and "peer_of L client op r" and "\<And>i. 0 < k i" and "\<not> in_eager (t_conn r)"
    and "conn_content (t_conn r) = concat (out (t_conn (wr_t s)))"
  shows "\<exists>order r'. receive L D k r (length order) = Some (r', map snd order)
    \<and> (\<forall>i. map snd (filter (\<lambda>x. fst x = i) order) = msgs i)"
proof (rule wr_received [OF _ assms(5,6,7,8,9) _ assms(10)])
  have "wr_inv L client op (\<lambda>i. map Message (msgs i)) (wr_start t (\<lambda>i. map Message (msgs i)))"
    by (rule wr_start_inv [OF assms(1,2)]) (use assms(3) in auto)
  with assms(4) show "wr_inv L client op (\<lambda>i. map Message (msgs i)) s" by (rule wr_reachable)
  show "\<forall>i. \<forall>p \<in> set (msgs i). fits r p" using assms(3) by blast
qed

definition ex_msgs :: "nat \<Rightarrow> bytes list" where
  "ex_msgs = (\<lambda>_. [])(0 := [[1, 2, 3], [4]], 1 := [[5]])"

lemma concurrent_writes_delivered_witness:
  "\<exists>chunks (order :: (nat \<times> bytes) list) r'. receive rfc_lib ex_dec (\<lambda>_. 2) (ex_transport False chunks) (length order) = Some (r', map snd order)
    \<and> map snd (filter (\<lambda>x. fst x = 0) order) = [[1, 2, 3], [4]] \<and> map snd (filter (\<lambda>x. fst x = 1) order) = [[5]]"
proof -
  let ?jobs = "\<lambda>i. map Message (ex_msgs i)" and ?t = "ex_transport True []"
  have len: "length p < 2 ^ 63" if "p \<in> set (ex_msgs i)" for i p using that by (auto simp: ex_msgs_def split: if_splits)
  have "wr_inv rfc_lib True 1 ?jobs (wr_start ?t ?jobs)"
    by (rule wr_start_inv [OF ex_wr_quiet]) (auto intro: ex_plain len)
  moreover have "\<forall>i \<ge> 2. wr_jobs (wr_start ?t ?jobs) i = []" by (simp add: wr_start_def ex_msgs_def)
  ultimately obtain s where s: "(wr_step rfc_lib)\<^sup>*\<^sup>* (wr_start ?t ?jobs) s" "\<forall>i. wr_jobs s i = []"
    using wr_finishes by blast
  let ?r = "ex_transport False (out (t_conn (wr_t s)))"
  have f: "\<forall>i. \<forall>p \<in> set (ex_msgs i). plain_message ?t p \<and> fits ?r p" using len by (simp add: ex_plain fits_def)
  have "\<exists>order r'. receive rfc_lib ex_dec (\<lambda>_. 2) ?r (length order) = Some (r', map snd order)
      \<and> (\<forall>i. map snd (filter (\<lambda>x. fst x = i) order) = ex_msgs i)"
    by (rule concurrent_writes_delivered [OF ex_wr_quiet _ f s ex_ready])
      (use ex_peer [of True] in \<open>simp_all add: conn_content_def\<close>)
  then obtain order r' where o: "receive rfc_lib ex_dec (\<lambda>_. 2) ?r (length order) = Some (r', map snd order)"
    "map snd (filter (\<lambda>x. fst x = i) order) = ex_msgs i" for i by blast
  have "map snd (filter (\<lambda>x. fst x = 0) order) = [[1, 2, 3], [4]]" "map snd (filter (\<lambda>x. fst x = 1) order) = [[5]]"
    unfolding o(2) by (simp_all add: ex_msgs_def)
  with o(1) show ?thesis
    by (intro exI [of _ "out (t_conn (wr_t s))"] exI [of _ order] exI [of _ r'] conjI)
qed

text \<open>C29: not so with context takeover: \<open>writeCompress\<close> uses the shared compressor outside the lock.  If a second \<open>Write\<close>
  calls \<open>Reset\<close> between the first one's \<open>Reset\<close> and \<open>Write\<close>, then in each of the interleavings that follow the first
  call's buffer stays empty: it sends a compressed frame without payload and returns the length of its message without an
  error.\<close>

theorem persistent_writer_race:
  assumes "cs \<in> shuffles [SwWrite p, SwFlush] [SwWrite q, SwFlush]"
    and "sw_run a s (SwReset 0 # SwReset 1 # cs) = Some (s', None)" and "sw_buf s 0 = []"
    and "pool_ok t" and "w_faults (t_conn t) = []"
  shows "sw_buf s' 0 = []
    \<and> (\<exists>t'. write_packet L t msk (sw_buf s' 0) True (length p) = (t', length p, None)
        \<and> out (t_conn t') = out (t_conn t) @ [wire_frame (st_client L (t_state t)) (t_opCode t) msk True []])"
proof -
  obtain st2 where r: "sw_run a (s\<lparr>sw_st := st2, sw_dst := 1\<rparr>) cs = Some (s', None)"
    using assms(2) by (auto dest!: bind_eq_SomeD)
  have "set cs \<subseteq> {SwWrite p, SwFlush, SwWrite q}" using set_shuffles [OF assms(1)] by auto
  then have "SwReset 0 \<notin> set cs" by auto
  with sw_run_other [OF r, of 0] assms(3) have "sw_buf s' 0 = []" by simp
  then show ?thesis
    using write_packet_block [OF assms(4), of "[]" L msk True "length p"] assms(5)
    by (simp add: conn_write_quiet wire_frame_def)
qed

definition ex_shared :: "unit shared_writer" where
  "ex_shared = \<lparr>sw_st = ex_writer_store, sw_dst = 7, sw_buf = (\<lambda>_. [])\<rparr>"

lemma persistent_writer_race_witness:
  "\<exists>s'. sw_run 0 ex_shared [SwReset 0, SwReset 1, SwWrite [1, 2, 3], SwFlush, SwWrite [4], SwFlush] = Some (s', None)
    \<and> sw_buf s' 0 = [] \<and> sw_buf s' 1 = [1, 2, 3] @ compressionTail @ [4]"
proof -
  let ?cs = "[SwWrite [1, 2, 3], SwFlush, SwWrite [4], SwFlush]"
  have c: "?cs \<in> shuffles [SwWrite [1, 2, 3], SwFlush] [SwWrite [4], SwFlush]" by simp
  have r: "map_option (\<lambda>(s', e). (sw_buf s' 1, e)) (sw_run 0 ex_shared (SwReset 0 # SwReset 1 # ?cs))
      = Some ([1, 2, 3] @ compressionTail @ [4], None)" by code_simp
  then obtain s' where s': "sw_run 0 ex_shared (SwReset 0 # SwReset 1 # ?cs) = Some (s', None)"
    "sw_buf s' 1 = [1, 2, 3] @ compressionTail @ [4]" by auto
  have "sw_buf ex_shared 0 = []" "pool_ok (ex_transport False [])" "w_faults (t_conn (ex_transport False [])) = []"
    by (simp_all add: ex_shared_def)
  note persistent_writer_race [OF c s'(1) this, of rfc_lib "Mask 0 0 0 0"]
  with s' show ?thesis by auto
qed

end
